(* ===== verification/Prelude.thy ===== *)
theory Prelude
  imports Main "HOL-Library.Word"
begin

text \<open>
  The vocabulary the component theories share.

  \<^item> Machine integers. A C value whose bits are packed and unpacked (handles, page-table
    entries, generations) is a word of its width. A C value that is only added, subtracted and
    compared (addresses, sizes, counters) is a natural number, and the wrap-around of the
    \<open>uint64_t\<close> operation is written out by \<open>add64\<close>, \<open>sub64\<close> and \<open>mul64\<close>; the rules of the
    collection \<open>no_wrap\<close> remove it again wherever an invariant bounds the operands.
  \<^item> Generations. Token generations count upwards and skip zero (\<open>next_generation\<close>); a
    generation comes back only after the whole cycle of \<open>2 ^ 32 - 1\<close> steps.
  \<^item> Scans. Most loops of the kernel look for the first table entry with a property
    (\<open>first_index\<close>) or count the entries with a property (\<open>count_if\<close>).
  \<^item> Alignment. The C idioms \<open>x & (a - 1)\<close> and \<open>x & ~(a - 1)\<close> are remainder and rounding
    down, for every power of two.
\<close>

unbundle bit_operations_syntax

type_synonym u8 = "8 word"
type_synonym u16 = "16 word"
type_synonym u32 = "32 word"
type_synonym u64 = "64 word"

named_theorems no_wrap \<open>64-bit operations that do not wrap on the operands at hand\<close>

section \<open>Unsigned 64-bit arithmetic on natural numbers\<close>

definition UINT64_MAX :: nat where
  "UINT64_MAX = 2 ^ 64 - 1"

definition add64 :: "nat \<Rightarrow> nat \<Rightarrow> nat" where
  "add64 a b = (a + b) mod 2 ^ 64"

definition sub64 :: "nat \<Rightarrow> nat \<Rightarrow> nat" where
  "sub64 a b = (a + 2 ^ 64 - b) mod 2 ^ 64"

definition mul64 :: "nat \<Rightarrow> nat \<Rightarrow> nat" where
  "mul64 a b = (a * b) mod 2 ^ 64"

lemma wrap_diff: "b \<le> a \<Longrightarrow> a < m \<Longrightarrow> (a + m - b) mod m = a - (b :: nat)"
  by (metis Nat.add_diff_assoc2 less_imp_diff_less mod_add_self2 mod_less)

lemma add64_exact [no_wrap]: "a + b < 2 ^ 64 \<Longrightarrow> add64 a b = a + b"
  unfolding add64_def by (rule mod_less)

lemma sub64_exact [no_wrap]: "b \<le> a \<Longrightarrow> a < 2 ^ 64 \<Longrightarrow> sub64 a b = a - b"
  unfolding sub64_def by (rule wrap_diff)

lemma mul64_exact [no_wrap]: "a * b < 2 ^ 64 \<Longrightarrow> mul64 a b = a * b"
  unfolding mul64_def by (rule mod_less)

section \<open>Alignment by masking\<close>

text \<open>\<open>not64 m\<close> is the complement \<open>~m\<close> of a 64-bit mask.\<close>

definition not64 :: "nat \<Rightarrow> nat" where
  "not64 m = 2 ^ 64 - 1 - m"

lemma and_low_mask: "(x :: nat) AND (2 ^ k - 1) = x mod 2 ^ k"
  by (simp only: mask_eq_exp_minus_1 [symmetric] take_bit_eq_mask [symmetric] take_bit_eq_mod)

lemma high_mask_eq: "k \<le> n \<Longrightarrow> (2 ^ n - 1 - (2 ^ k - 1) :: nat) = push_bit k (mask (n - k))"
  by (simp add: push_bit_eq_mult mask_eq_exp_minus_1 algebra_simps power_add [symmetric])

lemma and_high_mask:
  assumes "k \<le> n" "x < 2 ^ n"
  shows "(x :: nat) AND (2 ^ n - 1 - (2 ^ k - 1)) = x - x mod 2 ^ k"
proof -
  have "x AND push_bit k (mask (n - k)) = push_bit k (drop_bit k x)"
  proof (rule bit_eqI)
    fix i
    have "bit x i \<Longrightarrow> i < n"
      by (metis assms(2) bit_take_bit_iff take_bit_nat_eq_self_iff)
    then show "bit (x AND push_bit k (mask (n - k))) i \<longleftrightarrow> bit (push_bit k (drop_bit k x)) i"
      using assms(1) by (auto simp: bit_simps)
  qed
  also have "\<dots> = x - x mod 2 ^ k"
    by (simp add: push_bit_eq_mult drop_bit_eq_div minus_mod_eq_div_mult)
  finally show ?thesis using high_mask_eq [OF assms(1)] by simp
qed

lemma and_not64_mask:
  assumes "k \<le> 64" "x < 2 ^ 64"
  shows "x AND not64 (2 ^ k - 1) = x - x mod 2 ^ k"
  unfolding not64_def by (rule and_high_mask [OF assms])

text \<open>Rounding up by adding the mask first gives the least multiple that is not below.\<close>

lemma round_up_dvd: "(a :: nat) > 0 \<Longrightarrow> a dvd (v + (a - 1)) - (v + (a - 1)) mod a"
  by (simp add: minus_mod_eq_mult_div)

lemma round_up_ge: "(a :: nat) > 0 \<Longrightarrow> v \<le> (v + (a - 1)) - (v + (a - 1)) mod a"
  using mod_less_divisor [of a "v + (a - 1)"] by linarith

lemma round_up_less: "(a :: nat) > 0 \<Longrightarrow> (v + (a - 1)) - (v + (a - 1)) mod a < v + a"
  by linarith

lemma round_up_least:
  assumes "(a :: nat) > 0" "a dvd w" "v \<le> w"
  shows "(v + (a - 1)) - (v + (a - 1)) mod a \<le> w"
proof -
  from assms(2) obtain q where q: "w = a * q" by (elim dvdE)
  have "(v + (a - 1)) div a \<le> (w + (a - 1)) div a"
    using assms(3) by (intro div_le_mono) simp
  also have "\<dots> = q"
    using assms(1) unfolding q by (intro div_nat_eqI) auto
  finally have "a * ((v + (a - 1)) div a) \<le> a * q" by (rule mult_le_mono2)
  then show ?thesis unfolding q by (simp only: minus_mod_eq_mult_div)
qed

section \<open>Generations\<close>

text \<open>\<open>++g; if (g == 0) g = 1\<close>: the generation that follows \<open>g\<close>.\<close>

definition next_generation :: "u32 \<Rightarrow> u32" where
  "next_generation g = (if g + 1 = 0 then 1 else g + 1)"

lemma next_generation_nonzero [simp]: "next_generation g \<noteq> 0"
  by (simp add: next_generation_def)

lemma u32_bound: "unat (g :: u32) < 2 ^ 32"
proof -
  have "unat g < 2 ^ LENGTH(32)" by (rule unsigned_less)
  then show ?thesis by simp
qed

lemma unat_next_generation:
  assumes "g \<noteq> 0"
  shows "unat (next_generation g) = unat g mod (2 ^ 32 - 1) + 1"
proof (cases "g + 1 = 0")
  case True
  then have "(unat g + 1) mod 2 ^ 32 = 0"
    using unat_word_ariths(1) [of g 1] by simp
  then have "\<not> unat g + 1 < 2 ^ 32" by (metis mod_less add_is_0 one_neq_zero)
  then have "unat g = 2 ^ 32 - 1" using u32_bound [of g] by linarith
  then show ?thesis using True by (simp add: next_generation_def)
next
  case False
  then have "unat (g + 1) = unat g + 1"
    by (metis add.commute unatSuc Suc_eq_plus1)
  moreover have "unat (g + 1) < 2 ^ 32" by (rule u32_bound)
  ultimately show ?thesis using False by (simp add: next_generation_def)
qed

lemma unat_next_generation_pow:
  assumes "g \<noteq> 0"
  shows "unat ((next_generation ^^ k) g) = (unat g - 1 + k) mod (2 ^ 32 - 1) + 1"
proof (induction k)
  case 0
  have "0 < unat g" using assms by (simp add: unat_gt_0)
  then show ?case using u32_bound [of g] by simp
next
  case (Suc k)
  let ?h = "(next_generation ^^ k) g"
  have "?h \<noteq> 0" using assms by (cases k) simp_all
  then have "unat (next_generation ?h) = unat ?h mod (2 ^ 32 - 1) + 1"
    by (rule unat_next_generation)
  also have "unat ?h mod (2 ^ 32 - 1) = (unat g - 1 + Suc k) mod (2 ^ 32 - 1)"
    unfolding Suc.IH by (simp only: mod_add_left_eq add_Suc_right Suc_eq_plus1 add.assoc)
  finally show ?case by simp
qed

lemma mod_add_shift_neq:
  fixes x :: nat
  assumes "0 < k" "k < m" "x < m"
  shows "(x + k) mod m \<noteq> x"
proof (cases "x + k < m")
  case False
  then have "(x + k) mod m = x + k - m"
    using assms by (simp add: mod_if)
  moreover have "x + k - m < x" using False assms by linarith
  ultimately show ?thesis by simp
qed (use assms in simp)

lemma next_generation_pow_neq:
  assumes "g \<noteq> 0" "0 < k" "k < 2 ^ 32 - 1"
  shows "(next_generation ^^ k) g \<noteq> g"
proof
  assume "(next_generation ^^ k) g = g"
  then have eq: "unat g = (unat g - 1 + k) mod (2 ^ 32 - 1) + 1"
    using unat_next_generation_pow [OF assms(1), of k] by metis
  have "0 < unat g" using assms(1) by (simp add: unat_gt_0)
  then have "unat g - 1 < 2 ^ 32 - 1" using u32_bound [of g] by linarith
  then have "(unat g - 1 + k) mod (2 ^ 32 - 1) \<noteq> unat g - 1"
    by (rule mod_add_shift_neq [OF assms(2,3)])
  then show False using eq by linarith
qed

lemma next_generation_neq [simp]: "next_generation g \<noteq> g"
  by (auto simp: next_generation_def)

section \<open>Scans over tables\<close>

primrec first_index :: "('a \<Rightarrow> bool) \<Rightarrow> 'a list \<Rightarrow> nat option" where
  "first_index P [] = None"
| "first_index P (x # xs) = (if P x then Some 0 else map_option Suc (first_index P xs))"

lemma first_index_None_iff: "first_index P xs = None \<longleftrightarrow> (\<forall>x \<in> set xs. \<not> P x)"
  by (induction xs) auto

lemma first_index_SomeD:
  "first_index P xs = Some i \<Longrightarrow> i < length xs \<and> P (xs ! i) \<and> (\<forall>j < i. \<not> P (xs ! j))"
proof (induction xs arbitrary: i)
  case (Cons x xs)
  show ?case
  proof (cases "P x")
    case False
    with Cons.prems obtain k where "first_index P xs = Some k" "i = Suc k" by auto
    with Cons.IH [of k] False show ?thesis by (auto simp: less_Suc_eq_0_disj)
  qed (use Cons.prems in auto)
qed simp

lemma first_index_SomeI:
  "i < length xs \<Longrightarrow> P (xs ! i) \<Longrightarrow> (\<And>j. j < i \<Longrightarrow> \<not> P (xs ! j)) \<Longrightarrow> first_index P xs = Some i"
proof (induction xs arbitrary: i)
  case (Cons x xs)
  show ?case
  proof (cases i)
    case (Suc k)
    have "first_index P xs = Some k"
      using Cons.prems Suc by (intro Cons.IH) force+
    moreover have "\<not> P x" using Cons.prems(3) [of 0] Suc by simp
    ultimately show ?thesis using Suc by simp
  qed (use Cons.prems in auto)
qed simp

lemma first_index_replicate: "P x \<Longrightarrow> 0 < n \<Longrightarrow> first_index P (replicate n x) = Some 0"
  by (cases n) simp_all

lemma nth_update: "j < length xs \<Longrightarrow> xs[i := x] ! j = (if i = j then x else xs ! j)"
  by auto

lemma nth_update_keep: "f y = f (xs ! i) \<Longrightarrow> f (xs[i := y] ! k) = f (xs ! k)"
  by (metis list_update_beyond not_le_imp_less nth_list_update)

definition count_if :: "('a \<Rightarrow> bool) \<Rightarrow> 'a list \<Rightarrow> nat" where
  "count_if P xs = length (filter P xs)"

lemma count_if_Nil [simp]: "count_if P [] = 0"
  by (simp add: count_if_def)

lemma count_if_Cons [simp]: "count_if P (x # xs) = (if P x then Suc (count_if P xs) else count_if P xs)"
  by (simp add: count_if_def)

lemma count_if_append [simp]: "count_if P (xs @ ys) = count_if P xs + count_if P ys"
  by (simp add: count_if_def)

lemma count_if_replicate [simp]: "count_if P (replicate n x) = (if P x then n else 0)"
  by (induction n) simp_all

lemma count_if_le: "count_if P xs \<le> length xs"
  by (simp add: count_if_def)

lemma count_if_update:
  "i < length xs \<Longrightarrow>
    count_if P (xs[i := x]) = count_if P xs + of_bool (P x) - of_bool (P (xs ! i))"
proof (induction xs arbitrary: i)
  case (Cons y ys)
  show ?case
  proof (cases i)
    case (Suc k)
    have "count_if P (ys[k := x]) = count_if P ys + of_bool (P x) - of_bool (P (ys ! k))"
      using Cons Suc by simp
    moreover have "P (ys ! k) \<Longrightarrow> 0 < count_if P ys"
      using Cons.prems Suc by (auto simp: count_if_def filter_empty_conv)
    ultimately show ?thesis using Suc by auto
  qed auto
qed simp

lemma count_if_pos: "i < length xs \<Longrightarrow> P (xs ! i) \<Longrightarrow> 0 < count_if P xs"
  by (auto simp: count_if_def filter_empty_conv)

lemma count_if_less: "i < length xs \<Longrightarrow> \<not> P (xs ! i) \<Longrightarrow> count_if P xs < length xs"
  by (metis count_if_def length_filter_less nth_mem)

lemma count_if_zero_iff: "count_if P xs = 0 \<longleftrightarrow> (\<forall>x \<in> set xs. \<not> P x)"
  by (simp add: count_if_def filter_empty_conv)

lemma count_if_card: "count_if P xs = card {i. i < length xs \<and> P (xs ! i)}"
  by (simp add: count_if_def length_filter_conv_card)

lemma count_if_full_iff: "count_if P xs = length xs \<longleftrightarrow> (\<forall>x \<in> set xs. P x)"
  by (metis count_if_def filter_True length_filter_less less_irrefl)

lemma count_drop_limit:
  assumes "length xs = n" "limit \<le> n" "\<And>i. i < n \<Longrightarrow> P (xs ! i) \<Longrightarrow> i < limit"
  shows "count_if P (drop limit xs) = 0"
proof -
  have "\<not> P (xs ! (limit + k))" if "limit + k < n" for k
    using assms(3) [of "limit + k"] that by auto
  then show ?thesis
    using assms(1,2) by (auto simp: count_if_zero_iff in_set_conv_nth)
qed

lemma count_take_limit:
  assumes "length xs = n" "limit \<le> n" "\<And>i. i < n \<Longrightarrow> P (xs ! i) \<Longrightarrow> i < limit"
  shows "count_if P (take limit xs) = count_if P xs"
proof -
  have "count_if P (drop limit xs) = 0" using assms by (rule count_drop_limit)
  moreover have "count_if P xs = count_if P (take limit xs) + count_if P (drop limit xs)"
    by (metis append_take_drop_id count_if_append)
  ultimately show ?thesis by simp
qed

lemma first_index_not_full:
  assumes "count_if P xs < length xs"
  obtains i where "first_index (\<lambda>x. \<not> P x) xs = Some i"
  using assms count_if_full_iff [of P xs] first_index_None_iff [of "\<lambda>x. \<not> P x" xs]
  by (cases "first_index (\<lambda>x. \<not> P x) xs") auto

end
