(* ===== verification/Generation_Tables.thy ===== *)
theory Generation_Tables
  imports Prelude
begin

text \<open>
  The contract behind every generation-checked token of the kernel. A table has numbered entries;
  \<open>issue s i\<close> is the generation of the token that entry \<open>i\<close> honours now, or will honour when it is
  next handed out. Each operation leaves that generation alone or moves it to the next one, so a
  token that has been retired is not honoured again before the generation counter has gone all
  the way round. The interrupt vectors and the native handle tables are instances.
\<close>

locale generation_table =
  fixes step :: "'op \<Rightarrow> 's \<Rightarrow> 's"
    and inv :: "'s \<Rightarrow> bool"
    and entries :: "nat set"
    and issue :: "'s \<Rightarrow> nat \<Rightarrow> u32"
  assumes inv_step: "inv s \<Longrightarrow> inv (step x s)"
    and issue_step: "inv s \<Longrightarrow> i \<in> entries \<Longrightarrow>
      issue (step x s) i = issue s i \<or> issue (step x s) i = next_generation (issue s i)"
begin

lemma inv_run: "inv s \<Longrightarrow> inv (fold step ops s)"
  by (induction ops arbitrary: s) (simp_all add: inv_step)

lemma issue_run:
  "inv s \<Longrightarrow> i \<in> entries \<Longrightarrow>
    \<exists>k \<le> length ops. issue (fold step ops s) i = (next_generation ^^ k) (issue s i)"
proof (induction ops arbitrary: s)
  case (Cons x xs)
  obtain k where k: "k \<le> length xs"
    "issue (fold step xs (step x s)) i = (next_generation ^^ k) (issue (step x s) i)"
    using Cons.IH [OF inv_step [OF Cons.prems(1)] Cons.prems(2)] by blast
  from issue_step [OF Cons.prems, of x] show ?case
  proof
    assume "issue (step x s) i = issue s i"
    with k show ?thesis by (intro exI [of _ k]) simp
  next
    assume "issue (step x s) i = next_generation (issue s i)"
    with k show ?thesis by (intro exI [of _ "Suc k"]) (simp add: funpow_swap1)
  qed
qed simp

text \<open>The retired generation \<open>g\<close> stays retired for \<open>2 ^ 32 - 3\<close> further operations.\<close>

lemma retired_not_issued:
  assumes "inv s" "i \<in> entries" "issue s i = next_generation g" "g \<noteq> 0"
    and "length ops < 2 ^ 32 - 2"
  shows "issue (fold step ops s) i \<noteq> g"
proof -
  obtain k where k: "k \<le> length ops"
    "issue (fold step ops s) i = (next_generation ^^ k) (issue s i)"
    using issue_run [OF assms(1,2)] by blast
  have "issue (fold step ops s) i = (next_generation ^^ Suc k) g"
    using k(2) assms(3) by (simp add: funpow_swap1)
  moreover have "Suc k < 2 ^ 32 - 1" using k(1) assms(5) by linarith
  ultimately show ?thesis using next_generation_pow_neq [OF assms(4), of "Suc k"] by simp
qed

end

end
