(* ===== verification/Vectors.thy ===== *)
theory Vectors
  imports Generation_Tables
begin

text \<open>
  The dynamic interrupt-vector allocator, \<open>src/kernel/interrupt_vector.c\<close>. The file's three
  globals (\<open>allocated\<close>, \<open>generations\<close>, \<open>state\<close>) are the record \<open>vector_tables\<close>; what the code asks
  other components (\<open>interrupts_ready\<close>, \<open>apic_is_online\<close>, \<open>cpu_interrupts_enabled\<close>) is the record
  \<open>vector_env\<close>. An output pointer is an option: \<open>None\<close> is the null pointer, \<open>Some a\<close> the object it
  points at, and the operation returns the object as it leaves it.

  Shown here: the tables stay consistent with their counters under every operation, a vector is
  never handed out twice, and a token whose vector was released is refused for as long as the
  32-bit generation has not gone round once.
\<close>

section \<open>State\<close>

datatype interrupt_vector_status =
    INTERRUPT_VECTOR_STATUS_OK
  | INTERRUPT_VECTOR_STATUS_NULL_ARGUMENT
  | INTERRUPT_VECTOR_STATUS_ALREADY_INITIALIZED
  | INTERRUPT_VECTOR_STATUS_NOT_INITIALIZED
  | INTERRUPT_VECTOR_STATUS_INTERRUPTS_ENABLED
  | INTERRUPT_VECTOR_STATUS_RESERVED
  | INTERRUPT_VECTOR_STATUS_ALREADY_ALLOCATED
  | INTERRUPT_VECTOR_STATUS_EXHAUSTED
  | INTERRUPT_VECTOR_STATUS_DOUBLE_RELEASE
  | INTERRUPT_VECTOR_STATUS_STALE_ALLOCATION

record interrupt_vector_allocation =
  iva_vector :: u8
  iva_generation :: u32
  iva_active :: bool

record vector_tables =
  iv_allocated :: "bool list"
  iv_generations :: "u32 list"
  iv_capacity :: nat
  iv_allocated_count :: nat
  iv_free :: nat
  iv_active :: bool

record vector_env =
  env_interrupts_ready :: bool
  env_apic_online :: bool
  env_interrupts_enabled :: bool

abbreviation (input) INTERRUPT_DYNAMIC_BASE :: nat where
  "INTERRUPT_DYNAMIC_BASE \<equiv> 0x90"

abbreviation (input) INTERRUPT_DYNAMIC_LIMIT :: nat where
  "INTERRUPT_DYNAMIC_LIMIT \<equiv> 0xF0"

definition DYNAMIC_VECTOR_COUNT :: nat where
  "DYNAMIC_VECTOR_COUNT = INTERRUPT_DYNAMIC_LIMIT - INTERRUPT_DYNAMIC_BASE"

lemma DYNAMIC_VECTOR_COUNT_eq: "DYNAMIC_VECTOR_COUNT = 96"
  by (simp add: DYNAMIC_VECTOR_COUNT_def)

section \<open>Operations\<close>

definition vector_is_dynamic :: "u8 \<Rightarrow> bool" where
  "vector_is_dynamic vector \<longleftrightarrow>
     INTERRUPT_DYNAMIC_BASE \<le> unat vector \<and> unat vector < INTERRUPT_DYNAMIC_LIMIT"

definition vector_index :: "u8 \<Rightarrow> nat" where
  "vector_index vector = unat vector - INTERRUPT_DYNAMIC_BASE"

definition interrupt_vector_initialize ::
    "vector_env \<Rightarrow> vector_tables \<Rightarrow> interrupt_vector_status \<times> vector_tables" where
  "interrupt_vector_initialize env st =
     (if iv_active st then (INTERRUPT_VECTOR_STATUS_ALREADY_INITIALIZED, st)
      else if \<not> env_interrupts_ready env \<or> \<not> env_apic_online env
        then (INTERRUPT_VECTOR_STATUS_NOT_INITIALIZED, st)
      else if env_interrupts_enabled env then (INTERRUPT_VECTOR_STATUS_INTERRUPTS_ENABLED, st)
      else (INTERRUPT_VECTOR_STATUS_OK,
        \<lparr>iv_allocated = replicate DYNAMIC_VECTOR_COUNT False,
         iv_generations = replicate DYNAMIC_VECTOR_COUNT 0,
         iv_capacity = DYNAMIC_VECTOR_COUNT,
         iv_allocated_count = 0,
         iv_free = DYNAMIC_VECTOR_COUNT,
         iv_active = True\<rparr>))"

definition cleared_allocation :: interrupt_vector_allocation where
  "cleared_allocation = \<lparr>iva_vector = 0, iva_generation = 0, iva_active = False\<rparr>"

definition interrupt_vector_allocate_specific ::
    "vector_env \<Rightarrow> u8 \<Rightarrow> interrupt_vector_allocation option \<Rightarrow> vector_tables \<Rightarrow>
     interrupt_vector_status \<times> interrupt_vector_allocation option \<times> vector_tables" where
  "interrupt_vector_allocate_specific env vector allocation st =
     (if allocation = None then (INTERRUPT_VECTOR_STATUS_NULL_ARGUMENT, None, st)
      else if \<not> iv_active st
        then (INTERRUPT_VECTOR_STATUS_NOT_INITIALIZED, Some cleared_allocation, st)
      else if env_interrupts_enabled env
        then (INTERRUPT_VECTOR_STATUS_INTERRUPTS_ENABLED, Some cleared_allocation, st)
      else if \<not> vector_is_dynamic vector
        then (INTERRUPT_VECTOR_STATUS_RESERVED, Some cleared_allocation, st)
      else
        (let index = vector_index vector in
         if iv_allocated st ! index
           then (INTERRUPT_VECTOR_STATUS_ALREADY_ALLOCATED, Some cleared_allocation, st)
         else
           (let generation = next_generation (iv_generations st ! index) in
            (INTERRUPT_VECTOR_STATUS_OK,
             Some \<lparr>iva_vector = vector, iva_generation = generation, iva_active = True\<rparr>,
             st\<lparr>iv_generations := (iv_generations st)[index := generation],
                iv_allocated := (iv_allocated st)[index := True],
                iv_allocated_count := add64 (iv_allocated_count st) 1,
                iv_free := sub64 (iv_free st) 1\<rparr>))))"

definition interrupt_vector_allocate ::
    "vector_env \<Rightarrow> interrupt_vector_allocation option \<Rightarrow> vector_tables \<Rightarrow>
     interrupt_vector_status \<times> interrupt_vector_allocation option \<times> vector_tables" where
  "interrupt_vector_allocate env allocation st =
     (case allocation of
        None \<Rightarrow> (INTERRUPT_VECTOR_STATUS_NULL_ARGUMENT, None, st)
      | Some a \<Rightarrow>
          if \<not> iv_active st
            then (INTERRUPT_VECTOR_STATUS_NOT_INITIALIZED, Some (a\<lparr>iva_active := False\<rparr>), st)
          else if env_interrupts_enabled env
            then (INTERRUPT_VECTOR_STATUS_INTERRUPTS_ENABLED, Some (a\<lparr>iva_active := False\<rparr>), st)
          else
            (case first_index Not (iv_allocated st) of
               Some index \<Rightarrow>
                 interrupt_vector_allocate_specific env
                   (word_of_nat (INTERRUPT_DYNAMIC_BASE + index)) allocation st
             | None \<Rightarrow> (INTERRUPT_VECTOR_STATUS_EXHAUSTED, Some cleared_allocation, st)))"

definition interrupt_vector_release ::
    "vector_env \<Rightarrow> interrupt_vector_allocation option \<Rightarrow> vector_tables \<Rightarrow>
     interrupt_vector_status \<times> interrupt_vector_allocation option \<times> vector_tables" where
  "interrupt_vector_release env allocation st =
     (case allocation of
        None \<Rightarrow> (INTERRUPT_VECTOR_STATUS_NULL_ARGUMENT, None, st)
      | Some a \<Rightarrow>
          if \<not> iv_active st then (INTERRUPT_VECTOR_STATUS_NOT_INITIALIZED, Some a, st)
          else if env_interrupts_enabled env
            then (INTERRUPT_VECTOR_STATUS_INTERRUPTS_ENABLED, Some a, st)
          else if \<not> vector_is_dynamic (iva_vector a)
            then (INTERRUPT_VECTOR_STATUS_RESERVED, Some a, st)
          else
            (let index = vector_index (iva_vector a) in
             if \<not> iva_active a \<or> \<not> iv_allocated st ! index
               then (INTERRUPT_VECTOR_STATUS_DOUBLE_RELEASE, Some a, st)
             else if iv_generations st ! index \<noteq> iva_generation a
               then (INTERRUPT_VECTOR_STATUS_STALE_ALLOCATION, Some a, st)
             else
               (INTERRUPT_VECTOR_STATUS_OK, Some (a\<lparr>iva_active := False\<rparr>),
                st\<lparr>iv_allocated := (iv_allocated st)[index := False],
                   iv_allocated_count := sub64 (iv_allocated_count st) 1,
                   iv_free := add64 (iv_free st) 1\<rparr>)))"

definition interrupt_vector_is_allocated :: "vector_tables \<Rightarrow> u8 \<Rightarrow> bool" where
  "interrupt_vector_is_allocated st vector \<longleftrightarrow>
     iv_active st \<and> vector_is_dynamic vector \<and> iv_allocated st ! vector_index vector"

section \<open>The tables agree with their counters\<close>

definition vectors_ok :: "vector_tables \<Rightarrow> bool" where
  "vectors_ok st \<longleftrightarrow>
     (iv_active st \<longrightarrow>
        length (iv_allocated st) = DYNAMIC_VECTOR_COUNT \<and>
        length (iv_generations st) = DYNAMIC_VECTOR_COUNT \<and>
        iv_capacity st = DYNAMIC_VECTOR_COUNT \<and>
        iv_allocated_count st = count_if id (iv_allocated st) \<and>
        iv_allocated_count st + iv_free st = iv_capacity st \<and>
        (\<forall>i < DYNAMIC_VECTOR_COUNT. iv_allocated st ! i \<longrightarrow> iv_generations st ! i \<noteq> 0))"

lemma vector_index_less: "vector_is_dynamic v \<Longrightarrow> vector_index v < DYNAMIC_VECTOR_COUNT"
  by (auto simp: vector_is_dynamic_def vector_index_def DYNAMIC_VECTOR_COUNT_def)

lemma vector_index_inj:
  assumes "vector_is_dynamic v" "vector_is_dynamic w" "vector_index v = vector_index w"
  shows "v = w"
proof -
  have "unat v = unat w"
    using assms by (auto simp: vector_is_dynamic_def vector_index_def)
  then show ?thesis by (simp add: word_unat_eq_iff)
qed

lemma vector_of_index:
  assumes "i < DYNAMIC_VECTOR_COUNT"
  shows "vector_is_dynamic (word_of_nat (INTERRUPT_DYNAMIC_BASE + i))"
    and "vector_index (word_of_nat (INTERRUPT_DYNAMIC_BASE + i)) = i"
proof -
  have "unat (word_of_nat (INTERRUPT_DYNAMIC_BASE + i) :: u8) = INTERRUPT_DYNAMIC_BASE + i"
    unfolding unat_of_nat using assms by (simp add: DYNAMIC_VECTOR_COUNT_def)
  then show "vector_is_dynamic (word_of_nat (INTERRUPT_DYNAMIC_BASE + i))"
    and "vector_index (word_of_nat (INTERRUPT_DYNAMIC_BASE + i)) = i"
    using assms by (auto simp: vector_is_dynamic_def vector_index_def DYNAMIC_VECTOR_COUNT_def)
qed

lemma vectors_ok_bounds:
  assumes "vectors_ok st" "iv_active st"
  shows "iv_allocated_count st \<le> 96" "iv_free st \<le> 96"
  using assms by (auto simp: vectors_ok_def DYNAMIC_VECTOR_COUNT_eq)

text \<open>A successful allocation of one vector, taken apart.\<close>

lemma allocate_specific_OK:
  assumes "interrupt_vector_allocate_specific env v a st = (INTERRUPT_VECTOR_STATUS_OK, b, st')"
  shows "iv_active st" "vector_is_dynamic v" "\<not> iv_allocated st ! vector_index v"
    "b = Some \<lparr>iva_vector = v,
               iva_generation = next_generation (iv_generations st ! vector_index v),
               iva_active = True\<rparr>"
    "st' = st\<lparr>iv_generations := (iv_generations st)
                [vector_index v := next_generation (iv_generations st ! vector_index v)],
              iv_allocated := (iv_allocated st)[vector_index v := True],
              iv_allocated_count := add64 (iv_allocated_count st) 1,
              iv_free := sub64 (iv_free st) 1\<rparr>"
  using assms
  by (auto simp: interrupt_vector_allocate_specific_def Let_def split: if_splits)

lemma allocate_specific_refused:
  assumes "interrupt_vector_allocate_specific env v a st = (s, b, st')"
    and "s \<noteq> INTERRUPT_VECTOR_STATUS_OK"
  shows "st' = st"
  using assms
  by (auto simp: interrupt_vector_allocate_specific_def Let_def split: if_splits)

lemma allocate_OK:
  assumes "interrupt_vector_allocate env a st = (INTERRUPT_VECTOR_STATUS_OK, b, st')"
  obtains i where "first_index Not (iv_allocated st) = Some i" "iv_active st"
    "interrupt_vector_allocate_specific env (word_of_nat (INTERRUPT_DYNAMIC_BASE + i)) a st =
       (INTERRUPT_VECTOR_STATUS_OK, b, st')"
  using assms
  by (auto simp: interrupt_vector_allocate_def split: if_splits option.splits)

lemma allocate_refused:
  assumes "interrupt_vector_allocate env a st = (s, b, st')" "s \<noteq> INTERRUPT_VECTOR_STATUS_OK"
  shows "st' = st"
  using assms
  by (auto simp: interrupt_vector_allocate_def dest: allocate_specific_refused
      split: if_splits option.splits)

lemma release_OK:
  assumes "interrupt_vector_release env a st = (INTERRUPT_VECTOR_STATUS_OK, b, st')"
  obtains t where "a = Some t" "iv_active st" "vector_is_dynamic (iva_vector t)" "iva_active t"
    "iv_allocated st ! vector_index (iva_vector t)"
    "iv_generations st ! vector_index (iva_vector t) = iva_generation t"
    "b = Some (t\<lparr>iva_active := False\<rparr>)"
    "st' = st\<lparr>iv_allocated := (iv_allocated st)[vector_index (iva_vector t) := False],
              iv_allocated_count := sub64 (iv_allocated_count st) 1,
              iv_free := add64 (iv_free st) 1\<rparr>"
  using assms
  by (auto simp: interrupt_vector_release_def Let_def split: if_splits option.splits)

lemma release_refused:
  assumes "interrupt_vector_release env a st = (s, b, st')" "s \<noteq> INTERRUPT_VECTOR_STATUS_OK"
  shows "st' = st" "b = a"
  using assms
  by (auto simp: interrupt_vector_release_def Let_def split: if_splits option.splits)

lemma vectors_ok_initialize:
  assumes "vectors_ok st" "interrupt_vector_initialize env st = (s, st')"
  shows "vectors_ok st'"
  using assms
  by (auto simp: interrupt_vector_initialize_def vectors_ok_def split: if_splits)

lemma vectors_ok_allocate_specific:
  assumes ok: "vectors_ok st"
    and call: "interrupt_vector_allocate_specific env v a st = (s, b, st')"
  shows "vectors_ok st'"
proof (cases "s = INTERRUPT_VECTOR_STATUS_OK")
  case True
  note parts = allocate_specific_OK [OF call [unfolded True]]
  have len: "length (iv_allocated st) = 96" "length (iv_generations st) = 96"
    using ok parts(1) by (auto simp: vectors_ok_def DYNAMIC_VECTOR_COUNT_eq)
  have i: "vector_index v < 96"
    using vector_index_less [OF parts(2)] by (simp add: DYNAMIC_VECTOR_COUNT_eq)
  have "count_if id (iv_allocated st) < 96"
    using count_if_less [of "vector_index v" "iv_allocated st" id] i len parts(3) by simp
  then have "0 < iv_free st" "iv_allocated_count st < 96"
    using ok parts(1) by (auto simp: vectors_ok_def DYNAMIC_VECTOR_COUNT_eq)
  then show ?thesis
    using ok parts(1,3) i len vectors_ok_bounds [OF ok parts(1)]
    unfolding parts(5) vectors_ok_def DYNAMIC_VECTOR_COUNT_eq
    by (auto simp: count_if_update no_wrap nth_update)
next
  case False
  with ok show ?thesis using allocate_specific_refused [OF call] by simp
qed

lemma vectors_ok_allocate:
  assumes ok: "vectors_ok st" and call: "interrupt_vector_allocate env a st = (s, b, st')"
  shows "vectors_ok st'"
proof (cases "s = INTERRUPT_VECTOR_STATUS_OK")
  case True
  with call show ?thesis
    by (auto elim: allocate_OK dest: vectors_ok_allocate_specific [OF ok])
next
  case False
  with ok show ?thesis using allocate_refused [OF call] by simp
qed

lemma vectors_ok_release:
  assumes ok: "vectors_ok st" and call: "interrupt_vector_release env a st = (s, b, st')"
  shows "vectors_ok st'"
proof (cases "s = INTERRUPT_VECTOR_STATUS_OK")
  case True
  obtain t where parts: "iv_active st" "vector_is_dynamic (iva_vector t)"
    "iv_allocated st ! vector_index (iva_vector t)"
    "st' = st\<lparr>iv_allocated := (iv_allocated st)[vector_index (iva_vector t) := False],
              iv_allocated_count := sub64 (iv_allocated_count st) 1,
              iv_free := add64 (iv_free st) 1\<rparr>"
      and "a = Some t"
    using call [unfolded True] by (blast elim: release_OK)
  let ?i = "vector_index (iva_vector t)"
  have i: "?i < length (iv_allocated st)"
    using ok parts(1) vector_index_less [OF parts(2)] by (simp add: vectors_ok_def)
  have "0 < count_if id (iv_allocated st)"
    using count_if_pos [of ?i "iv_allocated st" id] i parts(3) by simp
  then have "0 < iv_allocated_count st" using ok parts(1) by (simp add: vectors_ok_def)
  then show ?thesis
    using ok parts(1,3) i vectors_ok_bounds [OF ok parts(1)]
    unfolding parts(4) vectors_ok_def
    by (auto simp: count_if_update no_wrap nth_update)
next
  case False
  with ok show ?thesis using release_refused [OF call] by simp
qed

section \<open>Runs of the allocator\<close>

datatype vector_op =
    Vector_initialize
  | Vector_allocate_specific u8
  | Vector_allocate
  | Vector_release interrupt_vector_allocation

text \<open>The state an operation leaves, whatever token object the caller passes.\<close>

fun vector_step :: "vector_env \<times> vector_op \<Rightarrow> vector_tables \<Rightarrow> vector_tables" where
  "vector_step (env, Vector_initialize) st = snd (interrupt_vector_initialize env st)"
| "vector_step (env, Vector_allocate_specific v) st =
     snd (snd (interrupt_vector_allocate_specific env v (Some cleared_allocation) st))"
| "vector_step (env, Vector_allocate) st =
     snd (snd (interrupt_vector_allocate env (Some cleared_allocation) st))"
| "vector_step (env, Vector_release t) st = snd (snd (interrupt_vector_release env (Some t) st))"

definition vector_run :: "(vector_env \<times> vector_op) list \<Rightarrow> vector_tables \<Rightarrow> vector_tables" where
  "vector_run ops st = fold vector_step ops st"

lemma vector_run_simps [simp]:
  "vector_run [] st = st"
  "vector_run (x # xs) st = vector_run xs (vector_step x st)"
  by (simp_all add: vector_run_def)

lemma vectors_ok_step:
  assumes "vectors_ok st"
  shows "vectors_ok (vector_step x st)"
proof -
  obtain env oper where x: "x = (env, oper)" by (cases x)
  show ?thesis
    unfolding x
    by (cases oper)
       (simp_all, (metis assms prod.collapse vectors_ok_initialize vectors_ok_allocate_specific
          vectors_ok_allocate vectors_ok_release)+)
qed

lemma vectors_ok_run: "vectors_ok st \<Longrightarrow> vectors_ok (vector_run ops st)"
  by (induction ops arbitrary: st) (simp_all add: vectors_ok_step)

text \<open>
  The generation a vector's current token carries, or its next token will carry: allocation
  moves the recorded generation forward before it issues it.
\<close>

definition vector_issue :: "vector_tables \<Rightarrow> nat \<Rightarrow> u32" where
  "vector_issue st i =
     (if iv_allocated st ! i then iv_generations st ! i else next_generation (iv_generations st ! i))"

lemma vector_step_active: "iv_active st \<Longrightarrow> iv_active (vector_step x st)"
  by (cases "(x, st)" rule: vector_step.cases)
     (auto simp: interrupt_vector_initialize_def interrupt_vector_allocate_specific_def
        interrupt_vector_allocate_def interrupt_vector_release_def Let_def split: option.splits)

lemma vector_step_issue:
  assumes ok: "vectors_ok st" and act: "iv_active st" and i: "i < DYNAMIC_VECTOR_COUNT"
  shows "vector_issue (vector_step x st) i = vector_issue st i \<or>
    vector_issue (vector_step x st) i = next_generation (vector_issue st i)"
proof -
  have len: "i < length (iv_allocated st)" "i < length (iv_generations st)"
    using ok act i by (auto simp: vectors_ok_def)
  show ?thesis
    using act len
    by (cases "(x, st)" rule: vector_step.cases)
       (auto simp: interrupt_vector_initialize_def interrupt_vector_allocate_specific_def
          interrupt_vector_allocate_def interrupt_vector_release_def Let_def nth_update
          vector_issue_def split: option.splits)
qed

interpretation vector_tokens: generation_table vector_step
  "\<lambda>st. vectors_ok st \<and> iv_active st" "{..< DYNAMIC_VECTOR_COUNT}" vector_issue
  by unfold_locales (auto simp: vectors_ok_step vector_step_active vector_step_issue)

section \<open>Properties\<close>

definition vectors_boot :: vector_tables where
  "vectors_boot = \<lparr>iv_allocated = replicate DYNAMIC_VECTOR_COUNT False,
     iv_generations = replicate DYNAMIC_VECTOR_COUNT 0, iv_capacity = 0,
     iv_allocated_count = 0, iv_free = 0, iv_active = False\<rparr>"

abbreviation quiet_env :: vector_env where
  "quiet_env \<equiv> \<lparr>env_interrupts_ready = True, env_apic_online = True, env_interrupts_enabled = False\<rparr>"

lemma vectors_ok_boot: "vectors_ok vectors_boot"
  by (simp add: vectors_ok_def vectors_boot_def)

lemmas vector_eval = vectors_boot_def interrupt_vector_initialize_def
  interrupt_vector_allocate_def interrupt_vector_allocate_specific_def
  interrupt_vector_release_def cleared_allocation_def Let_def vector_is_dynamic_def
  vector_index_def DYNAMIC_VECTOR_COUNT_def first_index_replicate next_generation_def

lemma allocated_vectors_card:
  assumes "vectors_ok st" "iv_active st"
  shows "card {v. interrupt_vector_is_allocated st v} = iv_allocated_count st"
proof -
  let ?A = "{i. i < length (iv_allocated st) \<and> iv_allocated st ! i}"
  let ?f = "\<lambda>i. word_of_nat (INTERRUPT_DYNAMIC_BASE + i) :: u8"
  have len: "length (iv_allocated st) = DYNAMIC_VECTOR_COUNT"
    using assms by (simp add: vectors_ok_def)
  have "{v. interrupt_vector_is_allocated st v} = ?f ` ?A"
  proof (intro set_eqI iffI)
    fix v assume "v \<in> {v. interrupt_vector_is_allocated st v}"
    then have v: "vector_is_dynamic v" "iv_allocated st ! vector_index v"
      by (auto simp: interrupt_vector_is_allocated_def)
    note i = vector_index_less [OF v(1)]
    have "v = ?f (vector_index v)"
      using vector_index_inj [OF v(1) vector_of_index(1) [OF i]] vector_of_index(2) [OF i] by simp
    then show "v \<in> ?f ` ?A" using v(2) i len by auto
  next
    fix v assume "v \<in> ?f ` ?A"
    then show "v \<in> {v. interrupt_vector_is_allocated st v}"
      using assms(2) len vector_of_index by (auto simp: interrupt_vector_is_allocated_def)
  qed
  moreover have "inj_on ?f ?A"
    using len vector_of_index(2) by (intro inj_on_inverseI [where g = vector_index]) auto
  moreover have "card ?A = count_if id (iv_allocated st)"
    by (simp add: count_if_def length_filter_conv_card)
  ultimately show ?thesis using assms by (simp add: card_image vectors_ok_def)
qed

text \<open>
  C1. Start from the zeroed globals of a fresh boot and make any sequence of initialize,
  allocate, allocate-specific and release calls, in any processor environment and with any
  tokens, genuine or forged. The allocator's tables stay well formed, and once it is active
  \<open>state.allocated\<close> is exactly the number of vectors that \<open>interrupt_vector_is_allocated\<close> reports
  and \<open>state.free\<close> is exactly the rest of the capacity.
\<close>

theorem vector_counters_exact:
  assumes "st = vector_run ops vectors_boot" and "iv_active st"
  shows "iv_allocated_count st = card {v. interrupt_vector_is_allocated st v} \<and>
    iv_free st = DYNAMIC_VECTOR_COUNT - card {v. interrupt_vector_is_allocated st v}"
proof -
  have ok: "vectors_ok st" unfolding assms(1) by (rule vectors_ok_run [OF vectors_ok_boot])
  have "iv_allocated_count st + iv_free st = DYNAMIC_VECTOR_COUNT"
    using ok assms(2) by (simp add: vectors_ok_def)
  then show ?thesis using allocated_vectors_card [OF ok assms(2)] by linarith
qed

theorem vector_counters_exact_witness:
  "let st = vector_run [(quiet_env, Vector_initialize), (quiet_env, Vector_allocate)] vectors_boot
   in iv_active st \<and> iv_free st = DYNAMIC_VECTOR_COUNT - card {v. interrupt_vector_is_allocated st v}"
proof -
  let ?st = "vector_run [(quiet_env, Vector_initialize), (quiet_env, Vector_allocate)] vectors_boot"
  have "iv_active ?st" by (simp add: vector_eval)
  then show ?thesis using vector_counters_exact [OF refl] by (simp only: Let_def simp_thms)
qed

text \<open>
  C2. \<open>interrupt_vector_allocate\<close> never hands out a vector that is in use: on success the vector is
  in the dynamic range, was free before the call and is allocated after it, no other vector's
  state changed, and every lower dynamic vector was already taken. The token it returns is active
  and carries the generation now recorded for that vector, so releasing it succeeds.
\<close>

theorem vector_allocate_lowest_free:
  assumes "vectors_ok st" "interrupt_vector_allocate env a st = (INTERRUPT_VECTOR_STATUS_OK, b, st')"
  shows "\<exists>t. b = Some t \<and> vector_is_dynamic (iva_vector t) \<and>
    \<not> interrupt_vector_is_allocated st (iva_vector t) \<and>
    (\<forall>w. interrupt_vector_is_allocated st' w \<longleftrightarrow> w = iva_vector t \<or> interrupt_vector_is_allocated st w) \<and>
    (\<forall>w. vector_is_dynamic w \<and> w < iva_vector t \<longrightarrow> interrupt_vector_is_allocated st w) \<and>
    fst (interrupt_vector_release env b st') = INTERRUPT_VECTOR_STATUS_OK"
proof -
  obtain i where i: "first_index Not (iv_allocated st) = Some i" and act: "iv_active st"
    and spec: "interrupt_vector_allocate_specific env (word_of_nat (INTERRUPT_DYNAMIC_BASE + i)) a st
       = (INTERRUPT_VECTOR_STATUS_OK, b, st')"
    using assms(2) by (rule allocate_OK)
  let ?v = "word_of_nat (INTERRUPT_DYNAMIC_BASE + i) :: u8"
  have len: "length (iv_allocated st) = DYNAMIC_VECTOR_COUNT"
    "length (iv_generations st) = DYNAMIC_VECTOR_COUNT"
    using assms(1) act by (auto simp: vectors_ok_def)
  have scan: "i < DYNAMIC_VECTOR_COUNT" "\<not> iv_allocated st ! i" "\<forall>j < i. iv_allocated st ! j"
    using first_index_SomeD [OF i] len by auto
  note v = vector_of_index [OF scan(1)]
  note parts = allocate_specific_OK [OF spec, unfolded v(2)]
  have env: "\<not> env_interrupts_enabled env"
    using spec by (auto simp: interrupt_vector_allocate_specific_def split: if_splits)
  have others: "interrupt_vector_is_allocated st' w \<longleftrightarrow> w = ?v \<or> interrupt_vector_is_allocated st w" for w
    using act scan(1) len v vector_index_inj [OF v(1), of w] vector_index_less [of w]
    by (auto simp: interrupt_vector_is_allocated_def parts(5) nth_update split: if_splits)
  have lower: "interrupt_vector_is_allocated st w" if "vector_is_dynamic w" "w < ?v" for w
  proof -
    have "unat w < unat ?v" using that(2) by (simp add: word_less_nat_alt)
    then have "vector_index w < i"
      using that(1) v by (auto simp: vector_is_dynamic_def vector_index_def)
    then show ?thesis using that(1) act scan(3) by (simp add: interrupt_vector_is_allocated_def)
  qed
  have "fst (interrupt_vector_release env b st') = INTERRUPT_VECTOR_STATUS_OK"
    using act env scan(1) len v
    by (simp add: parts(4,5) interrupt_vector_release_def Let_def del: of_nat_add)
  then show ?thesis
    using parts(4) v scan(2) others lower
    by (intro exI [of _ "the b"]) (auto simp: interrupt_vector_is_allocated_def)
qed

theorem vector_allocate_lowest_free_witness:
  "let st = vector_run [(quiet_env, Vector_initialize)] vectors_boot in
   \<exists>t. fst (snd (interrupt_vector_allocate quiet_env (Some cleared_allocation) st)) = Some t \<and>
     \<not> interrupt_vector_is_allocated st (iva_vector t)"
proof -
  let ?st = "vector_run [(quiet_env, Vector_initialize)] vectors_boot"
  let ?r = "interrupt_vector_allocate quiet_env (Some cleared_allocation) ?st"
  have ok: "vectors_ok ?st" by (rule vectors_ok_run [OF vectors_ok_boot])
  have "fst ?r = INTERRUPT_VECTOR_STATUS_OK" by (simp add: vector_eval)
  then have "?r = (INTERRUPT_VECTOR_STATUS_OK, fst (snd ?r), snd (snd ?r))"
    by (metis prod.collapse)
  from vector_allocate_lowest_free [OF ok this] show ?thesis unfolding Let_def by blast
qed

text \<open>
  C3. A token cannot be replayed. Take a token whose release succeeded. After any further
  sequence of fewer than \<open>2 ^ 32 - 2\<close> calls, in which the same vector may have been handed out and
  released again any number of times, presenting a saved copy of the old token changes nothing
  and is refused as a double release or a stale allocation (when interrupts are off).
\<close>

theorem vector_released_token_refused:
  assumes ok: "vectors_ok st"
    and rel: "interrupt_vector_release env (Some t) st = (INTERRUPT_VECTOR_STATUS_OK, b, st1)"
    and few: "length ops < 2 ^ 32 - 2"
    and st2: "st2 = vector_run ops st1"
    and env: "\<not> env_interrupts_enabled env2"
  shows "interrupt_vector_release env2 (Some t) st2 \<in>
    {(INTERRUPT_VECTOR_STATUS_DOUBLE_RELEASE, Some t, st2),
     (INTERRUPT_VECTOR_STATUS_STALE_ALLOCATION, Some t, st2)}"
proof -
  let ?i = "vector_index (iva_vector t)"
  have act: "iv_active st" and dyn: "vector_is_dynamic (iva_vector t)"
    and gen: "iv_generations st ! ?i = iva_generation t" and was: "iv_allocated st ! ?i"
    and st1: "st1 = st\<lparr>iv_allocated := (iv_allocated st)[?i := False],
              iv_allocated_count := sub64 (iv_allocated_count st) 1,
              iv_free := add64 (iv_free st) 1\<rparr>"
    using rel by (auto elim: release_OK)
  note i = vector_index_less [OF dyn]
  have "length (iv_allocated st) = DYNAMIC_VECTOR_COUNT" and nz: "iva_generation t \<noteq> 0"
    using ok act i was gen by (auto simp: vectors_ok_def)
  then have issue1: "vector_issue st1 ?i = next_generation (iva_generation t)"
    and act1: "iv_active st1"
    using i act gen by (simp_all add: st1 vector_issue_def)
  have inv1: "vectors_ok st1 \<and> iv_active st1"
    using vectors_ok_release [OF ok rel] act1 by simp
  have act2: "iv_active st2"
    using vector_tokens.inv_run [OF inv1] by (simp add: st2 vector_run_def)
  have "vector_issue st2 ?i \<noteq> iva_generation t"
    unfolding st2 vector_run_def
    using vector_tokens.retired_not_issued [OF inv1 _ issue1 nz few] i by simp
  then have "\<not> iv_allocated st2 ! ?i \<or> iv_generations st2 ! ?i \<noteq> iva_generation t"
    by (auto simp: vector_issue_def)
  then show ?thesis
    using act2 dyn env by (auto simp: interrupt_vector_release_def Let_def)
qed

theorem vector_released_token_refused_witness:
  "let st = vector_run [(quiet_env, Vector_initialize), (quiet_env, Vector_allocate)] vectors_boot;
       t = \<lparr>iva_vector = 0x90, iva_generation = 1, iva_active = True\<rparr>;
       st1 = snd (snd (interrupt_vector_release quiet_env (Some t) st));
       st2 = vector_run [(quiet_env, Vector_allocate)] st1
   in interrupt_vector_release quiet_env (Some t) st2 \<in>
     {(INTERRUPT_VECTOR_STATUS_DOUBLE_RELEASE, Some t, st2),
      (INTERRUPT_VECTOR_STATUS_STALE_ALLOCATION, Some t, st2)}"
proof -
  let ?st = "vector_run [(quiet_env, Vector_initialize), (quiet_env, Vector_allocate)] vectors_boot"
  let ?t = "\<lparr>iva_vector = 0x90, iva_generation = 1, iva_active = True\<rparr>"
  let ?r = "interrupt_vector_release quiet_env (Some ?t) ?st"
  have ok: "vectors_ok ?st" by (rule vectors_ok_run [OF vectors_ok_boot])
  have "fst ?r = INTERRUPT_VECTOR_STATUS_OK" by (simp add: vector_eval)
  then have "?r = (INTERRUPT_VECTOR_STATUS_OK, fst (snd ?r), snd (snd ?r))"
    by (metis prod.collapse)
  from vector_released_token_refused [OF ok this _ refl, of "[(quiet_env, Vector_allocate)]" quiet_env]
  show ?thesis unfolding Let_def by simp
qed

end
