(* ===== verification/Handles.thy ===== *)
theory Handles
  imports Prelude
begin

text \<open>
  Process-local native handles, \<open>src/kernel/native_handle.c\<close>. A table has up to 128 slots, named by
  handles, and up to 128 reference-counted objects, each holding one resource. Duplicated handles
  share an object; the resource's close callback runs when the last slot that refers to it is
  retired. The callback is a parameter: it receives the type, the resource and its context, and
  returns its verdict and the context it leaves. Its verdict is any \<open>enum\<close> value, also one the
  header does not name.

  A handle is a 64-bit word: generation in bits 32 to 63, type in bits 16 to 23, slot index plus
  one in bits 0 to 15. Pointer arguments are options, \<open>None\<close> being the null pointer; the pointer to
  a resource that \<open>native_handle_resolve\<close> returns is the index of the object it lies in.
\<close>

section \<open>Data\<close>

datatype native_handle_status =
    NATIVE_HANDLE_OK
  | NATIVE_HANDLE_NULL_ARGUMENT
  | NATIVE_HANDLE_BAD_LIMIT
  | NATIVE_HANDLE_BAD_TYPE
  | NATIVE_HANDLE_FULL
  | NATIVE_HANDLE_STALE
  | NATIVE_HANDLE_WRONG_TYPE
  | NATIVE_HANDLE_CLOSE_FAILED

datatype native_resource_close_result =
    NATIVE_RESOURCE_RETAINED
  | NATIVE_RESOURCE_CLOSED
  | NATIVE_RESOURCE_CLOSED_WITH_ERROR
  | NATIVE_RESOURCE_UNNAMED nat

datatype native_handle_close_outcome =
    NATIVE_HANDLE_CLOSE_OUTCOME_CLOSED
  | NATIVE_HANDLE_CLOSE_OUTCOME_CONSUMED_ERROR
  | NATIVE_HANDLE_CLOSE_OUTCOME_RETAINED
  | NATIVE_HANDLE_CLOSE_OUTCOME_DUPLICATE
  | NATIVE_HANDLE_CLOSE_OUTCOME_STALE
  | NATIVE_HANDLE_CLOSE_OUTCOME_INVALID

type_synonym rsd_handle = u64
type_synonym native_resource = "u64 list"

type_synonym 'c native_handle_close_fn =
  "u8 \<Rightarrow> native_resource \<Rightarrow> 'c \<Rightarrow> native_resource_close_result \<times> 'c"

abbreviation (input) NATIVE_HANDLE_LIMIT :: nat where "NATIVE_HANDLE_LIMIT \<equiv> 128"
abbreviation (input) NATIVE_RESOURCE_WORDS :: nat where "NATIVE_RESOURCE_WORDS \<equiv> 4"
abbreviation (input) NATIVE_HANDLE_CLOSE_REPORT_CAPACITY :: nat where
  "NATIVE_HANDLE_CLOSE_REPORT_CAPACITY \<equiv> 32"
abbreviation (input) NATIVE_HANDLE_CLOSE_TYPE_COUNT :: nat where
  "NATIVE_HANDLE_CLOSE_TYPE_COUNT \<equiv> 12"
abbreviation (input) RSD_HANDLE_INVALID :: rsd_handle where "RSD_HANDLE_INVALID \<equiv> 0"
abbreviation (input) RSD_HANDLE_FILE :: u8 where "RSD_HANDLE_FILE \<equiv> 1"
abbreviation (input) RSD_HANDLE_PACKAGE_CONTROL :: u8 where "RSD_HANDLE_PACKAGE_CONTROL \<equiv> 11"
abbreviation (input) UINT16_MAX :: nat where "UINT16_MAX \<equiv> 65535"

record native_handle_slot =
  slot_generation :: u32
  slot_object_index :: nat
  slot_type :: u8
  slot_active :: bool

record native_handle_object =
  obj_resource :: native_resource
  obj_references :: nat
  obj_type :: u8
  obj_active :: bool

record native_handle_table =
  ht_slots :: "native_handle_slot list"
  ht_objects :: "native_handle_object list"
  ht_limit :: nat
  ht_active_handles :: nat
  ht_active_objects :: nat
  ht_initialized :: bool

text \<open>The \<open>uint16_t\<close> counters.\<close>

definition inc16 :: "nat \<Rightarrow> nat" where
  "inc16 n = (n + 1) mod 2 ^ 16"

definition dec16 :: "nat \<Rightarrow> nat" where
  "dec16 n = (n + 2 ^ 16 - 1) mod 2 ^ 16"

lemma inc16_exact [no_wrap]: "n < 65535 \<Longrightarrow> inc16 n = n + 1"
  by (simp add: inc16_def)

lemma dec16_exact [no_wrap]: "0 < n \<Longrightarrow> n < 65536 \<Longrightarrow> dec16 n = n - 1"
proof -
  assume "0 < n" "n < 65536"
  then obtain m where "n = Suc m" by (cases n) auto
  with \<open>n < 65536\<close> show ?thesis by (simp add: dec16_def)
qed

definition empty_slot :: native_handle_slot where
  "empty_slot = \<lparr>slot_generation = 0, slot_object_index = 0, slot_type = 0, slot_active = False\<rparr>"

definition zero_object :: native_handle_object where
  "zero_object = \<lparr>obj_resource = replicate NATIVE_RESOURCE_WORDS 0, obj_references = 0,
     obj_type = 0, obj_active = False\<rparr>"

section \<open>Handle encoding\<close>

definition valid_type :: "u8 \<Rightarrow> bool" where
  "valid_type t \<longleftrightarrow> RSD_HANDLE_FILE \<le> t \<and> t \<le> RSD_HANDLE_PACKAGE_CONTROL"

definition encode_handle :: "nat \<Rightarrow> u8 \<Rightarrow> u32 \<Rightarrow> rsd_handle" where
  "encode_handle index t generation =
     push_bit 32 (ucast generation) OR push_bit 16 (ucast t) OR word_of_nat (index + 1)"

definition handle_index :: "rsd_handle \<Rightarrow> nat" where
  "handle_index handle = unat (handle AND 0xFFFF)"

definition handle_type :: "rsd_handle \<Rightarrow> u8" where
  "handle_type handle = ucast (drop_bit 16 handle)"

definition handle_reserved :: "rsd_handle \<Rightarrow> u8" where
  "handle_reserved handle = ucast (drop_bit 24 handle)"

definition handle_generation :: "rsd_handle \<Rightarrow> u32" where
  "handle_generation handle = ucast (drop_bit 32 handle)"

definition invalid_handle_encoding :: "native_handle_table \<Rightarrow> rsd_handle \<Rightarrow> bool" where
  "invalid_handle_encoding table handle \<longleftrightarrow>
     handle = RSD_HANDLE_INVALID \<or> handle_index handle = 0 \<or>
     handle_index handle > ht_limit table \<or> handle_reserved handle \<noteq> 0 \<or>
     handle_generation handle = 0 \<or> \<not> valid_type (handle_type handle)"

text \<open>The slot a handle names, or the refusal.\<close>

definition decode_slot ::
    "native_handle_table option \<Rightarrow> rsd_handle \<Rightarrow> native_handle_status + nat" where
  "decode_slot table handle =
     (case table of
        None \<Rightarrow> Inl NATIVE_HANDLE_NULL_ARGUMENT
      | Some t \<Rightarrow>
          if \<not> ht_initialized t \<or> ht_limit t = 0 \<or> ht_limit t > NATIVE_HANDLE_LIMIT \<or>
             invalid_handle_encoding t handle
            then Inl NATIVE_HANDLE_STALE
          else
            (let index = handle_index handle - 1; slot = ht_slots t ! index in
             if \<not> slot_active slot \<or> slot_generation slot \<noteq> handle_generation handle \<or>
                slot_type slot \<noteq> handle_type handle
               then Inl NATIVE_HANDLE_STALE
             else Inr index))"

section \<open>Installing, resolving, duplicating\<close>

definition native_handle_table_initialize ::
    "native_handle_table option \<Rightarrow> nat \<Rightarrow> native_handle_status \<times> native_handle_table option" where
  "native_handle_table_initialize table limit =
     (case table of
        None \<Rightarrow> (NATIVE_HANDLE_NULL_ARGUMENT, None)
      | Some t \<Rightarrow>
          if limit = 0 \<or> limit > NATIVE_HANDLE_LIMIT then (NATIVE_HANDLE_BAD_LIMIT, Some t)
          else (NATIVE_HANDLE_OK, Some
            \<lparr>ht_slots = map (\<lambda>i. if i < limit then empty_slot\<lparr>slot_generation := 1\<rparr> else empty_slot)
                           [0 ..< NATIVE_HANDLE_LIMIT],
             ht_objects = replicate NATIVE_HANDLE_LIMIT zero_object,
             ht_limit = limit, ht_active_handles = 0, ht_active_objects = 0,
             ht_initialized = True\<rparr>))"

definition native_handle_install ::
    "native_handle_table option \<Rightarrow> u8 \<Rightarrow> native_resource option \<Rightarrow> rsd_handle option \<Rightarrow>
     native_handle_status \<times> native_handle_table option \<times> rsd_handle option" where
  "native_handle_install table t resource handle =
     (case (table, resource, handle) of
        (Some tb, Some r, Some _) \<Rightarrow>
          if \<not> ht_initialized tb then (NATIVE_HANDLE_BAD_LIMIT, Some tb, Some RSD_HANDLE_INVALID)
          else if \<not> valid_type t then (NATIVE_HANDLE_BAD_TYPE, Some tb, Some RSD_HANDLE_INVALID)
          else
            (case (first_index (\<lambda>s. \<not> slot_active s) (take (ht_limit tb) (ht_slots tb)),
                   first_index (\<lambda>ob. \<not> obj_active ob) (take (ht_limit tb) (ht_objects tb))) of
               (Some slot_index, Some object_index) \<Rightarrow>
                 (NATIVE_HANDLE_OK,
                  Some (tb\<lparr>ht_objects := (ht_objects tb)[object_index :=
                             \<lparr>obj_resource = r, obj_references = 1, obj_type = t, obj_active = True\<rparr>],
                           ht_slots := (ht_slots tb)[slot_index :=
                             (ht_slots tb ! slot_index)\<lparr>slot_object_index := object_index,
                               slot_type := t, slot_active := True\<rparr>],
                           ht_active_handles := inc16 (ht_active_handles tb),
                           ht_active_objects := inc16 (ht_active_objects tb)\<rparr>),
                  Some (encode_handle slot_index t (slot_generation (ht_slots tb ! slot_index))))
             | _ \<Rightarrow> (NATIVE_HANDLE_FULL, Some tb, Some RSD_HANDLE_INVALID))
      | _ \<Rightarrow> (NATIVE_HANDLE_NULL_ARGUMENT, table, handle))"

text \<open>\<open>Inr j\<close>: the pointer to the resource of object \<open>j\<close>.\<close>

definition native_handle_resolve ::
    "native_handle_table option \<Rightarrow> rsd_handle \<Rightarrow> u8 \<Rightarrow> bool \<Rightarrow> native_handle_status + nat" where
  "native_handle_resolve table handle expected_type resource_pointer =
     (if \<not> resource_pointer then Inl NATIVE_HANDLE_NULL_ARGUMENT
      else
        (case decode_slot table handle of
           Inl status \<Rightarrow> Inl status
         | Inr index \<Rightarrow>
             (let tb = the table; slot = ht_slots tb ! index in
              if expected_type \<noteq> 0 \<and> slot_type slot \<noteq> expected_type
                then Inl NATIVE_HANDLE_WRONG_TYPE
              else if slot_object_index slot \<ge> ht_limit tb then Inl NATIVE_HANDLE_STALE
              else
                (let ob = ht_objects tb ! slot_object_index slot in
                 if \<not> obj_active ob \<or> obj_references ob = 0 \<or> obj_type ob \<noteq> slot_type slot
                   then Inl NATIVE_HANDLE_STALE
                 else Inr (slot_object_index slot)))))"

definition native_handle_duplicate ::
    "native_handle_table option \<Rightarrow> rsd_handle \<Rightarrow> rsd_handle option \<Rightarrow>
     native_handle_status \<times> native_handle_table option \<times> rsd_handle option" where
  "native_handle_duplicate table source duplicate =
     (case duplicate of
        None \<Rightarrow> (NATIVE_HANDLE_NULL_ARGUMENT, table, None)
      | Some _ \<Rightarrow>
          (case decode_slot table source of
             Inl status \<Rightarrow> (status, table, Some RSD_HANDLE_INVALID)
           | Inr source_index \<Rightarrow>
               (let tb = the table; source_slot = ht_slots tb ! source_index in
                case first_index (\<lambda>s. \<not> slot_active s) (take (ht_limit tb) (ht_slots tb)) of
                  None \<Rightarrow> (NATIVE_HANDLE_FULL, table, Some RSD_HANDLE_INVALID)
                | Some target_index \<Rightarrow>
                    if ht_active_handles tb \<ge> ht_limit tb
                      then (NATIVE_HANDLE_FULL, table, Some RSD_HANDLE_INVALID)
                    else
                      (let j = slot_object_index source_slot; ob = ht_objects tb ! j in
                       if \<not> obj_active ob \<or> obj_references ob = UINT16_MAX
                         then (NATIVE_HANDLE_STALE, table, Some RSD_HANDLE_INVALID)
                       else
                         (NATIVE_HANDLE_OK,
                          Some (tb\<lparr>ht_objects := (ht_objects tb)[j :=
                                     ob\<lparr>obj_references := inc16 (obj_references ob)\<rparr>],
                                   ht_slots := (ht_slots tb)[target_index :=
                                     (ht_slots tb ! target_index)\<lparr>slot_object_index := j,
                                       slot_type := slot_type source_slot, slot_active := True\<rparr>],
                                   ht_active_handles := inc16 (ht_active_handles tb)\<rparr>),
                          Some (encode_handle target_index (slot_type source_slot)
                                 (slot_generation (ht_slots tb ! target_index))))))))"

section \<open>Closing\<close>

definition valid_slot_object :: "native_handle_table \<Rightarrow> native_handle_slot \<Rightarrow> bool" where
  "valid_slot_object table slot \<longleftrightarrow>
     slot_object_index slot < ht_limit table \<and>
     (let ob = ht_objects table ! slot_object_index slot in
      obj_active ob \<and> obj_references ob \<noteq> 0 \<and> obj_type ob = slot_type slot)"

definition retire_slot :: "native_handle_table \<Rightarrow> nat \<Rightarrow> nat \<Rightarrow> native_handle_table" where
  "retire_slot table i j =
     (let slot = ht_slots table ! i; ob = ht_objects table ! j;
          references = dec16 (obj_references ob) in
      table\<lparr>ht_slots := (ht_slots table)[i :=
              \<lparr>slot_generation = next_generation (slot_generation slot), slot_object_index = 0,
               slot_type = 0, slot_active = False\<rparr>],
            ht_active_handles := dec16 (ht_active_handles table),
            ht_objects := (ht_objects table)[j :=
              (if references = 0 then zero_object else ob\<lparr>obj_references := references\<rparr>)],
            ht_active_objects :=
              (if references = 0 then dec16 (ht_active_objects table)
               else ht_active_objects table)\<rparr>)"

subsection \<open>The close report\<close>

record native_handle_close_report_entry =
  re_handle :: rsd_handle
  re_object_index :: nat
  re_references :: nat
  re_type :: u8
  re_outcome :: native_handle_close_outcome

record native_handle_close_type_summary =
  ts_attempted_handles :: nat
  ts_callback_attempts :: nat
  ts_closed_resources :: nat
  ts_consumed_error_resources :: nat
  ts_retained_resources :: nat
  ts_duplicate_references :: nat
  ts_stale_entries :: nat
  ts_invalid_entries :: nat
  ts_retired_handles :: nat

record native_handle_close_report =
  cr_entries :: "native_handle_close_report_entry list"
  cr_attempted_handles :: nat
  cr_callback_attempts :: nat
  cr_closed_resources :: nat
  cr_consumed_error_resources :: nat
  cr_retained_resources :: nat
  cr_stale_entries :: nat
  cr_invalid_entries :: nat
  cr_invalid_arguments :: nat
  cr_duplicate_references :: nat
  cr_retired_handles :: nat
  cr_omitted_entries :: nat
  cr_active_handles_before :: nat
  cr_active_handles_after :: nat
  cr_active_objects_before :: nat
  cr_active_objects_after :: nat
  cr_types :: "native_handle_close_type_summary list"
  cr_status :: native_handle_status
  cr_retryable :: bool
  cr_progress :: bool
  cr_truncated :: bool

definition native_handle_close_report_reset :: native_handle_close_report where
  "native_handle_close_report_reset =
     \<lparr>cr_entries = replicate NATIVE_HANDLE_CLOSE_REPORT_CAPACITY
        \<lparr>re_handle = 0, re_object_index = 0, re_references = 0, re_type = 0,
         re_outcome = NATIVE_HANDLE_CLOSE_OUTCOME_CLOSED\<rparr>,
      cr_attempted_handles = 0, cr_callback_attempts = 0, cr_closed_resources = 0,
      cr_consumed_error_resources = 0, cr_retained_resources = 0, cr_stale_entries = 0,
      cr_invalid_entries = 0, cr_invalid_arguments = 0, cr_duplicate_references = 0,
      cr_retired_handles = 0, cr_omitted_entries = 0, cr_active_handles_before = 0,
      cr_active_handles_after = 0, cr_active_objects_before = 0, cr_active_objects_after = 0,
      cr_types = replicate NATIVE_HANDLE_CLOSE_TYPE_COUNT
        \<lparr>ts_attempted_handles = 0, ts_callback_attempts = 0, ts_closed_resources = 0,
         ts_consumed_error_resources = 0, ts_retained_resources = 0, ts_duplicate_references = 0,
         ts_stale_entries = 0, ts_invalid_entries = 0, ts_retired_handles = 0\<rparr>,
      cr_status = NATIVE_HANDLE_OK, cr_retryable = False, cr_progress = False,
      cr_truncated = False\<rparr>"

fun summary_outcome ::
    "native_handle_close_outcome \<Rightarrow> native_handle_close_type_summary \<Rightarrow> native_handle_close_type_summary"
where
  "summary_outcome NATIVE_HANDLE_CLOSE_OUTCOME_CLOSED s =
     s\<lparr>ts_closed_resources := inc16 (ts_closed_resources s)\<rparr>"
| "summary_outcome NATIVE_HANDLE_CLOSE_OUTCOME_CONSUMED_ERROR s =
     s\<lparr>ts_consumed_error_resources := inc16 (ts_consumed_error_resources s)\<rparr>"
| "summary_outcome NATIVE_HANDLE_CLOSE_OUTCOME_RETAINED s =
     s\<lparr>ts_retained_resources := inc16 (ts_retained_resources s)\<rparr>"
| "summary_outcome NATIVE_HANDLE_CLOSE_OUTCOME_DUPLICATE s =
     s\<lparr>ts_duplicate_references := inc16 (ts_duplicate_references s)\<rparr>"
| "summary_outcome NATIVE_HANDLE_CLOSE_OUTCOME_STALE s =
     s\<lparr>ts_stale_entries := inc16 (ts_stale_entries s)\<rparr>"
| "summary_outcome NATIVE_HANDLE_CLOSE_OUTCOME_INVALID s =
     s\<lparr>ts_invalid_entries := inc16 (ts_invalid_entries s)\<rparr>"

fun report_outcome ::
    "native_handle_close_outcome \<Rightarrow> native_handle_close_report \<Rightarrow> native_handle_close_report"
where
  "report_outcome NATIVE_HANDLE_CLOSE_OUTCOME_CLOSED r =
     r\<lparr>cr_closed_resources := inc16 (cr_closed_resources r)\<rparr>"
| "report_outcome NATIVE_HANDLE_CLOSE_OUTCOME_CONSUMED_ERROR r =
     r\<lparr>cr_consumed_error_resources := inc16 (cr_consumed_error_resources r)\<rparr>"
| "report_outcome NATIVE_HANDLE_CLOSE_OUTCOME_RETAINED r =
     r\<lparr>cr_retained_resources := inc16 (cr_retained_resources r)\<rparr>"
| "report_outcome NATIVE_HANDLE_CLOSE_OUTCOME_DUPLICATE r =
     r\<lparr>cr_duplicate_references := inc16 (cr_duplicate_references r)\<rparr>"
| "report_outcome NATIVE_HANDLE_CLOSE_OUTCOME_STALE r =
     r\<lparr>cr_stale_entries := inc16 (cr_stale_entries r)\<rparr>"
| "report_outcome NATIVE_HANDLE_CLOSE_OUTCOME_INVALID r =
     r\<lparr>cr_invalid_entries := inc16 (cr_invalid_entries r)\<rparr>"

text \<open>A change to the summary of one type, made only for the types the header names.\<close>

definition with_type_summary ::
    "u8 \<Rightarrow> (native_handle_close_type_summary \<Rightarrow> native_handle_close_type_summary) \<Rightarrow>
     native_handle_close_report \<Rightarrow> native_handle_close_report" where
  "with_type_summary t f report =
     (if valid_type t
        then report\<lparr>cr_types := (cr_types report)[unat t := f (cr_types report ! unat t)]\<rparr>
      else report)"

definition report_record ::
    "native_handle_close_report \<Rightarrow> rsd_handle \<Rightarrow> u8 \<Rightarrow> nat \<Rightarrow> nat \<Rightarrow>
     native_handle_close_outcome \<Rightarrow> bool \<Rightarrow> native_handle_close_report" where
  "report_record report handle t object_index references outcome retired =
     (let entry_index = cr_attempted_handles report;
          r1 = report\<lparr>cr_attempted_handles := inc16 entry_index\<rparr>;
          r2 = with_type_summary t
                 (\<lambda>s. s\<lparr>ts_attempted_handles := inc16 (ts_attempted_handles s)\<rparr>) r1;
          r3 = with_type_summary t (summary_outcome outcome) (report_outcome outcome r2);
          r4 = (if retired
                then with_type_summary t
                       (\<lambda>s. s\<lparr>ts_retired_handles := inc16 (ts_retired_handles s)\<rparr>)
                       (r3\<lparr>cr_retired_handles := inc16 (cr_retired_handles r3)\<rparr>)
                else r3)
      in if entry_index < NATIVE_HANDLE_CLOSE_REPORT_CAPACITY
         then r4\<lparr>cr_entries := (cr_entries r4)[entry_index :=
                \<lparr>re_handle = handle, re_object_index = object_index, re_references = references,
                 re_type = t, re_outcome = outcome\<rparr>]\<rparr>
         else r4\<lparr>cr_omitted_entries := inc16 (cr_omitted_entries r4), cr_truncated := True\<rparr>)"

subsection \<open>Closing one slot and closing all\<close>

definition close_valid_slot ::
    "native_handle_table \<Rightarrow> nat \<Rightarrow> 'c native_handle_close_fn option \<Rightarrow> 'c \<Rightarrow>
     native_handle_close_report option \<Rightarrow>
     native_handle_status \<times> native_handle_table \<times> 'c \<times> native_handle_close_report option" where
  "close_valid_slot table slot_index close_resource context report =
     (let slot = ht_slots table ! slot_index;
          j = slot_object_index slot;
          ob = ht_objects table ! j;
          handle = encode_handle slot_index (slot_type slot) (slot_generation slot);
          t = obj_type ob;
          references = obj_references ob;
          record_with = (\<lambda>outcome retired r. report_record r handle t j references outcome retired)
      in if references > 1
         then (NATIVE_HANDLE_OK, retire_slot table slot_index j, context,
               map_option (record_with NATIVE_HANDLE_CLOSE_OUTCOME_DUPLICATE True) report)
         else
           (let (closed, context', report') =
                  (case close_resource of
                     None \<Rightarrow> (NATIVE_RESOURCE_CLOSED, context, report)
                   | Some f \<Rightarrow>
                       (let (verdict, context') = f t (obj_resource ob) context in
                        (verdict, context',
                         map_option
                           (\<lambda>r. with_type_summary t
                                  (\<lambda>s. s\<lparr>ts_callback_attempts := inc16 (ts_callback_attempts s)\<rparr>)
                                  (r\<lparr>cr_callback_attempts := inc16 (cr_callback_attempts r)\<rparr>))
                           report)))
            in case closed of
                 NATIVE_RESOURCE_CLOSED \<Rightarrow>
                   (NATIVE_HANDLE_OK, retire_slot table slot_index j, context',
                    map_option (record_with NATIVE_HANDLE_CLOSE_OUTCOME_CLOSED True) report')
               | NATIVE_RESOURCE_CLOSED_WITH_ERROR \<Rightarrow>
                   (NATIVE_HANDLE_CLOSE_FAILED, retire_slot table slot_index j, context',
                    map_option (record_with NATIVE_HANDLE_CLOSE_OUTCOME_CONSUMED_ERROR True) report')
               | _ \<Rightarrow>
                   (NATIVE_HANDLE_CLOSE_FAILED, table, context',
                    map_option (record_with NATIVE_HANDLE_CLOSE_OUTCOME_RETAINED False) report')))"

definition native_handle_close ::
    "native_handle_table option \<Rightarrow> rsd_handle \<Rightarrow> 'c native_handle_close_fn option \<Rightarrow> 'c \<Rightarrow>
     native_handle_status \<times> native_handle_table option \<times> 'c" where
  "native_handle_close table handle close_resource context =
     (case decode_slot table handle of
        Inl status \<Rightarrow> (status, table, context)
      | Inr index \<Rightarrow>
          (let tb = the table in
           if \<not> valid_slot_object tb (ht_slots tb ! index) then (NATIVE_HANDLE_STALE, table, context)
           else
             (let (status, tb', context', _) = close_valid_slot tb index close_resource context None
              in (status, Some tb', context'))))"

text \<open>The closing lines of a report: the census after the call and the derived flags.\<close>

definition report_after ::
    "native_handle_table \<Rightarrow> native_handle_status \<Rightarrow> native_handle_close_report \<Rightarrow>
     native_handle_close_report" where
  "report_after table status r =
     r\<lparr>cr_active_handles_after := ht_active_handles table,
       cr_active_objects_after := ht_active_objects table,
       cr_status := status\<rparr>"

definition report_flags :: "native_handle_close_report \<Rightarrow> native_handle_close_report" where
  "report_flags r = r\<lparr>cr_retryable := cr_retained_resources r \<noteq> 0,
                      cr_progress := cr_retired_handles r \<noteq> 0\<rparr>"

definition native_handle_close_with_report ::
    "native_handle_table option \<Rightarrow> rsd_handle \<Rightarrow> 'c native_handle_close_fn option \<Rightarrow> 'c \<Rightarrow>
     native_handle_close_report option \<Rightarrow>
     native_handle_status \<times> native_handle_table option \<times> 'c \<times> native_handle_close_report option" where
  "native_handle_close_with_report table handle close_resource context report =
     (case report of
        None \<Rightarrow> (NATIVE_HANDLE_NULL_ARGUMENT, table, context, None)
      | Some _ \<Rightarrow>
          (let r0 = native_handle_close_report_reset in
           case table of
             None \<Rightarrow> (NATIVE_HANDLE_NULL_ARGUMENT, None, context,
               Some (r0\<lparr>cr_invalid_arguments := 1, cr_status := NATIVE_HANDLE_NULL_ARGUMENT\<rparr>))
           | Some tb \<Rightarrow>
               if \<not> ht_initialized tb \<or> ht_limit tb = 0 \<or> ht_limit tb > NATIVE_HANDLE_LIMIT
                 then (NATIVE_HANDLE_BAD_LIMIT, table, context,
                   Some (r0\<lparr>cr_invalid_arguments := 1, cr_status := NATIVE_HANDLE_BAD_LIMIT\<rparr>))
               else
                 (let r1 = r0\<lparr>cr_active_handles_before := ht_active_handles tb,
                              cr_active_objects_before := ht_active_objects tb\<rparr> in
                  case decode_slot table handle of
                    Inl status \<Rightarrow>
                      (status, table, context,
                       Some (report_after tb status
                         (report_record r1 handle (handle_type handle) UINT16_MAX 0
                           (if invalid_handle_encoding tb handle
                            then NATIVE_HANDLE_CLOSE_OUTCOME_INVALID
                            else NATIVE_HANDLE_CLOSE_OUTCOME_STALE) False)))
                  | Inr index \<Rightarrow>
                      (let slot = ht_slots tb ! index; j = slot_object_index slot in
                       if slot_generation slot = 0 \<or> \<not> valid_type (slot_type slot)
                         then (NATIVE_HANDLE_STALE, table, context,
                           Some (report_after tb NATIVE_HANDLE_STALE
                             (report_record r1 handle (slot_type slot) j 0
                               NATIVE_HANDLE_CLOSE_OUTCOME_INVALID False)))
                       else if \<not> valid_slot_object tb slot
                         then (NATIVE_HANDLE_STALE, table, context,
                           Some (report_after tb NATIVE_HANDLE_STALE
                             (report_record r1 handle (slot_type slot) j
                               (if j < ht_limit tb then obj_references (ht_objects tb ! j) else 0)
                               (if j \<ge> ht_limit tb then NATIVE_HANDLE_CLOSE_OUTCOME_INVALID
                                else NATIVE_HANDLE_CLOSE_OUTCOME_STALE) False)))
                       else
                         (let (status, tb', context', r') =
                                close_valid_slot tb index close_resource context (Some r1)
                          in (status, Some tb', context',
                              map_option (\<lambda>r. report_flags (report_after tb' status r)) r'))))))"

text \<open>One turn of the loop of \<open>close_all_impl\<close>.\<close>

fun close_all_step ::
    "'c native_handle_close_fn option \<Rightarrow> nat \<Rightarrow>
     native_handle_table \<times> 'c \<times> native_handle_close_report option \<times> bool \<Rightarrow>
     native_handle_table \<times> 'c \<times> native_handle_close_report option \<times> bool" where
  "close_all_step close_resource index (tb, context, report, failed) =
     (let slot = ht_slots tb ! index; j = slot_object_index slot;
          handle = encode_handle index (slot_type slot) (slot_generation slot) in
      if \<not> slot_active slot then (tb, context, report, failed)
      else if slot_generation slot = 0 \<or> \<not> valid_type (slot_type slot)
        then (tb, context,
          map_option (\<lambda>r. report_record r handle (slot_type slot) j 0
                            NATIVE_HANDLE_CLOSE_OUTCOME_INVALID False) report, True)
      else if \<not> valid_slot_object tb slot
        then (tb, context,
          map_option (\<lambda>r. report_record r handle (slot_type slot) j
                            (if j < ht_limit tb then obj_references (ht_objects tb ! j) else 0)
                            (if j \<ge> ht_limit tb then NATIVE_HANDLE_CLOSE_OUTCOME_INVALID
                             else NATIVE_HANDLE_CLOSE_OUTCOME_STALE) False) report, True)
      else
        (let (status, tb', context', report') =
               close_valid_slot tb index close_resource context report
         in (tb', context', report', failed \<or> status \<noteq> NATIVE_HANDLE_OK)))"

definition close_all_impl ::
    "native_handle_table option \<Rightarrow> 'c native_handle_close_fn option \<Rightarrow> 'c \<Rightarrow>
     native_handle_close_report option \<Rightarrow>
     native_handle_status \<times> native_handle_table option \<times> 'c \<times> native_handle_close_report option" where
  "close_all_impl table close_resource context report =
     (let report0 = map_option (\<lambda>_. native_handle_close_report_reset) report in
      case table of
        None \<Rightarrow> (NATIVE_HANDLE_NULL_ARGUMENT, None, context,
          map_option (\<lambda>r. r\<lparr>cr_invalid_arguments := 1,
                            cr_status := NATIVE_HANDLE_NULL_ARGUMENT\<rparr>) report0)
      | Some tb \<Rightarrow>
          if \<not> ht_initialized tb \<or> ht_limit tb = 0 \<or> ht_limit tb > NATIVE_HANDLE_LIMIT
            then (NATIVE_HANDLE_BAD_LIMIT, table, context,
              map_option (\<lambda>r. r\<lparr>cr_invalid_arguments := 1,
                                cr_status := NATIVE_HANDLE_BAD_LIMIT\<rparr>) report0)
          else
            (let report1 = map_option
                   (\<lambda>r. r\<lparr>cr_active_handles_before := ht_active_handles tb,
                          cr_active_objects_before := ht_active_objects tb\<rparr>) report0;
                 (tb', context', report2, failed) =
                   fold (close_all_step close_resource) [0 ..< ht_limit tb]
                     (tb, context, report1, False);
                 status = (if failed then NATIVE_HANDLE_CLOSE_FAILED else NATIVE_HANDLE_OK)
             in (status, Some tb', context',
                 map_option (\<lambda>r. report_flags (report_after tb' status r)) report2)))"

definition native_handle_close_all ::
    "native_handle_table option \<Rightarrow> 'c native_handle_close_fn option \<Rightarrow> 'c \<Rightarrow>
     native_handle_status \<times> native_handle_table option \<times> 'c" where
  "native_handle_close_all table close_resource context =
     (let (status, table', context', _) = close_all_impl table close_resource context None
      in (status, table', context'))"

definition native_handle_close_all_diagnostics ::
    "native_handle_table option \<Rightarrow> 'c native_handle_close_fn option \<Rightarrow> 'c \<Rightarrow>
     native_handle_close_report option \<Rightarrow>
     native_handle_status \<times> native_handle_table option \<times> 'c \<times> native_handle_close_report option" where
  "native_handle_close_all_diagnostics table close_resource context report =
     (if report = None then (NATIVE_HANDLE_NULL_ARGUMENT, table, context, None)
      else close_all_impl table close_resource context report)"

text \<open>The Boolean is \<open>*retryable\<close>; the local report is uninitialised before the call.\<close>

definition native_handle_close_all_report ::
    "native_handle_table option \<Rightarrow> 'c native_handle_close_fn option \<Rightarrow> 'c \<Rightarrow> bool option \<Rightarrow>
     native_handle_close_report \<Rightarrow>
     native_handle_status \<times> native_handle_table option \<times> 'c \<times> bool option" where
  "native_handle_close_all_report table close_resource context retryable uninitialised =
     (if retryable = None then (NATIVE_HANDLE_NULL_ARGUMENT, table, context, None)
      else
        (let (status, table', context', report) =
               native_handle_close_all_diagnostics table close_resource context (Some uninitialised)
         in (status, table', context', map_option cr_retryable report)))"

section \<open>Encoding lemmas\<close>

lemma small_bits: "n < 2 ^ m \<Longrightarrow> bit (n :: nat) k \<Longrightarrow> k < m"
  by (metis bit_take_bit_iff take_bit_nat_eq_self_iff)

lemma encode_handle_fields:
  assumes "index < 65535"
  shows "handle_index (encode_handle index t g) = index + 1"
    and "handle_type (encode_handle index t g) = t"
    and "handle_reserved (encode_handle index t g) = 0"
    and "handle_generation (encode_handle index t g) = g"
proof -
  have small: "Suc index < 2 ^ 16" using assms by simp
  note low = small_bits [OF small]
  have "encode_handle index t g AND mask 16 = word_of_nat (index + 1)"
    by (rule bit_word_eqI)
       (auto simp: encode_handle_def bit_simps dest: low simp del: of_nat_add of_nat_Suc)
  moreover have "(0xFFFF :: u64) = mask 16" by (simp add: mask_eq_exp_minus_1)
  moreover have "unat (word_of_nat (index + 1) :: u64) = index + 1"
    unfolding unat_of_nat using assms by simp
  ultimately show "handle_index (encode_handle index t g) = index + 1"
    by (simp only: handle_index_def)
  show "handle_type (encode_handle index t g) = t"
    unfolding handle_type_def encode_handle_def
    by (rule bit_word_eqI) (auto simp: bit_simps dest: low simp del: of_nat_add of_nat_Suc)
  show "handle_reserved (encode_handle index t g) = 0"
    unfolding handle_reserved_def encode_handle_def
    by (rule bit_word_eqI) (auto simp: bit_simps dest: low bit_imp_le_length
        simp del: of_nat_add of_nat_Suc)
  show "handle_generation (encode_handle index t g) = g"
    unfolding handle_generation_def encode_handle_def
    by (rule bit_word_eqI) (auto simp: bit_simps dest: low bit_imp_le_length
        simp del: of_nat_add of_nat_Suc)
qed

lemma encode_decode:
  assumes "handle_index h \<noteq> 0" "handle_reserved h = 0"
  shows "encode_handle (handle_index h - 1) (handle_type h) (handle_generation h) = h"
proof (rule bit_word_eqI)
  fix n assume n: "n < LENGTH(64)"
  have idx: "word_of_nat (handle_index h - 1 + 1) = take_bit 16 h"
    using assms(1) unfolding handle_index_def
    by (simp add: take_bit_eq_mask mask_eq_exp_minus_1)
  have res: "\<not> bit h n" if "24 \<le> n" "n < 32"
  proof -
    have "\<not> bit (handle_reserved h) (n - 24)" using assms(2) by simp
    then show ?thesis using that by (auto simp: handle_reserved_def bit_simps)
  qed
  consider "n < 16" | "16 \<le> n" "n < 24" | "24 \<le> n" "n < 32" | "32 \<le> n"
    by linarith
  then show "bit (encode_handle (handle_index h - 1) (handle_type h) (handle_generation h)) n = bit h n"
    unfolding encode_handle_def idx
    using n res by cases (auto simp: bit_simps handle_type_def handle_generation_def)
qed

section \<open>The table invariant\<close>

definition refers :: "nat \<Rightarrow> native_handle_slot \<Rightarrow> bool" where
  "refers j s \<longleftrightarrow> slot_active s \<and> slot_object_index s = j"

definition slot_ok :: "native_handle_table \<Rightarrow> nat \<Rightarrow> bool" where
  "slot_ok tb i \<longleftrightarrow>
     (let s = ht_slots tb ! i; ob = ht_objects tb ! slot_object_index s in
      (i < ht_limit tb \<longrightarrow> slot_generation s \<noteq> 0) \<and>
      (slot_active s \<longrightarrow> i < ht_limit tb \<and> valid_type (slot_type s) \<and>
         slot_object_index s < ht_limit tb \<and> obj_active ob \<and> obj_type ob = slot_type s))"

definition object_ok :: "native_handle_table \<Rightarrow> nat \<Rightarrow> bool" where
  "object_ok tb j \<longleftrightarrow>
     (let ob = ht_objects tb ! j; n = count_if (refers j) (ht_slots tb) in
      if obj_active ob then 0 < n \<and> obj_references ob = n else n = 0)"

definition handles_ok :: "native_handle_table \<Rightarrow> bool" where
  "handles_ok tb \<longleftrightarrow>
     ht_initialized tb \<and> 0 < ht_limit tb \<and> ht_limit tb \<le> NATIVE_HANDLE_LIMIT \<and>
     length (ht_slots tb) = NATIVE_HANDLE_LIMIT \<and> length (ht_objects tb) = NATIVE_HANDLE_LIMIT \<and>
     (\<forall>i < NATIVE_HANDLE_LIMIT. slot_ok tb i) \<and>
     (\<forall>j < NATIVE_HANDLE_LIMIT. object_ok tb j) \<and>
     ht_active_handles tb = count_if slot_active (ht_slots tb) \<and>
     ht_active_objects tb = count_if obj_active (ht_objects tb)"

lemma handles_okD:
  assumes "handles_ok tb"
  shows "ht_initialized tb" "0 < ht_limit tb" "ht_limit tb \<le> NATIVE_HANDLE_LIMIT"
    "length (ht_slots tb) = NATIVE_HANDLE_LIMIT" "length (ht_objects tb) = NATIVE_HANDLE_LIMIT"
    "\<And>i. i < NATIVE_HANDLE_LIMIT \<Longrightarrow> slot_ok tb i"
    "\<And>j. j < NATIVE_HANDLE_LIMIT \<Longrightarrow> object_ok tb j"
    "ht_active_handles tb = count_if slot_active (ht_slots tb)"
    "ht_active_objects tb = count_if obj_active (ht_objects tb)"
  using assms by (auto simp: handles_ok_def)

lemma initialize_ok:
  assumes "0 < limit" "limit \<le> NATIVE_HANDLE_LIMIT"
  obtains tb where "native_handle_table_initialize (Some t0) limit = (NATIVE_HANDLE_OK, Some tb)"
    "handles_ok tb" "ht_limit tb = limit" "ht_active_handles tb = 0"
proof -
  let ?tb = "the (snd (native_handle_table_initialize (Some t0) limit))"
  have inactive: "\<not> slot_active s" if "s \<in> set (ht_slots ?tb)" for s
    using that assms by (auto simp: native_handle_table_initialize_def empty_slot_def)
  then have none: "count_if (refers j) (ht_slots ?tb) = 0" "count_if slot_active (ht_slots ?tb) = 0" for j
    by (auto simp: count_if_zero_iff refers_def)
  have "handles_ok ?tb"
    unfolding handles_ok_def slot_ok_def object_ok_def none
    using assms
    by (auto simp: native_handle_table_initialize_def empty_slot_def zero_object_def Let_def)
  with assms that [of ?tb] show thesis
    by (auto simp: native_handle_table_initialize_def)
qed

lemma active_slotD:
  assumes "handles_ok tb" "i < NATIVE_HANDLE_LIMIT" "slot_active (ht_slots tb ! i)"
    and "j = slot_object_index (ht_slots tb ! i)"
  shows "i < ht_limit tb" "valid_type (slot_type (ht_slots tb ! i))" "j < ht_limit tb"
    "obj_active (ht_objects tb ! j)" "obj_type (ht_objects tb ! j) = slot_type (ht_slots tb ! i)"
    "0 < obj_references (ht_objects tb ! j)"
    "obj_references (ht_objects tb ! j) = count_if (refers j) (ht_slots tb)"
    "valid_slot_object tb (ht_slots tb ! i)"
proof -
  from handles_okD(6) [OF assms(1,2)] assms(3,4)
  show slot: "i < ht_limit tb" "valid_type (slot_type (ht_slots tb ! i))" "j < ht_limit tb"
    "obj_active (ht_objects tb ! j)" "obj_type (ht_objects tb ! j) = slot_type (ht_slots tb ! i)"
    by (auto simp: slot_ok_def Let_def)
  from slot handles_okD(3) [OF assms(1)] have "object_ok tb j"
    by (intro handles_okD(7) [OF assms(1)]) simp
  then show refs: "0 < obj_references (ht_objects tb ! j)"
    "obj_references (ht_objects tb ! j) = count_if (refers j) (ht_slots tb)"
    using slot by (auto simp: object_ok_def Let_def)
  show "valid_slot_object tb (ht_slots tb ! i)"
    using slot refs assms(4) by (simp add: valid_slot_object_def Let_def)
qed

text \<open>The tables that a successful install and a successful duplicate leave.\<close>

definition installed ::
    "native_handle_table \<Rightarrow> nat \<Rightarrow> nat \<Rightarrow> u8 \<Rightarrow> native_resource \<Rightarrow> native_handle_table" where
  "installed tb i j t r = tb\<lparr>ht_objects := (ht_objects tb)[j :=
             \<lparr>obj_resource = r, obj_references = 1, obj_type = t, obj_active = True\<rparr>],
           ht_slots := (ht_slots tb)[i := (ht_slots tb ! i)\<lparr>slot_object_index := j,
               slot_type := t, slot_active := True\<rparr>],
           ht_active_handles := inc16 (ht_active_handles tb),
           ht_active_objects := inc16 (ht_active_objects tb)\<rparr>"

definition duplicated :: "native_handle_table \<Rightarrow> nat \<Rightarrow> nat \<Rightarrow> nat \<Rightarrow> native_handle_table" where
  "duplicated tb s i j = tb\<lparr>ht_objects := (ht_objects tb)[j := (ht_objects tb ! j)
             \<lparr>obj_references := inc16 (obj_references (ht_objects tb ! j))\<rparr>],
           ht_slots := (ht_slots tb)[i := (ht_slots tb ! i)\<lparr>slot_object_index := j,
               slot_type := slot_type (ht_slots tb ! s), slot_active := True\<rparr>],
           ht_active_handles := inc16 (ht_active_handles tb)\<rparr>"

lemma install_OK:
  assumes ok: "handles_ok tb"
    and call: "native_handle_install (Some tb) t (Some r) (Some h0) = (NATIVE_HANDLE_OK, tb', h)"
  obtains i j where "i < ht_limit tb" "j < ht_limit tb" "valid_type t"
    "\<not> slot_active (ht_slots tb ! i)" "\<not> obj_active (ht_objects tb ! j)"
    "tb' = Some (installed tb i j t r)"
    "h = Some (encode_handle i t (slot_generation (ht_slots tb ! i)))"
proof -
  from call obtain i j where scan:
    "first_index (\<lambda>s. \<not> slot_active s) (take (ht_limit tb) (ht_slots tb)) = Some i"
    "first_index (\<lambda>ob. \<not> obj_active ob) (take (ht_limit tb) (ht_objects tb)) = Some j"
    and rest: "valid_type t" 
    "tb' = Some (installed tb i j t r)"
    "h = Some (encode_handle i t (slot_generation (ht_slots tb ! i)))"
    by (auto simp: native_handle_install_def installed_def split: if_splits option.splits)
  from first_index_SomeD [OF scan(1)] first_index_SomeD [OF scan(2)] handles_okD(3-5) [OF ok] rest
  show thesis by (intro that [of i j]) auto
qed

lemma refers_update:
  assumes "i < length ss"
  shows "count_if (refers j) (ss[i := s]) =
    count_if (refers j) ss + of_bool (refers j s) - of_bool (refers j (ss ! i))"
  by (rule count_if_update [OF assms])

lemma count_bound: "length xs = 128 \<Longrightarrow> count_if P xs < 65535"
  using count_if_le [of P xs] by simp

lemma install_ok:
  assumes ok: "handles_ok tb"
    and call: "native_handle_install (Some tb) t (Some r) (Some h0) = (NATIVE_HANDLE_OK, Some tb', h)"
  shows "handles_ok tb'"
proof -
  from ok call obtain i j where ij: "i < ht_limit tb" "j < ht_limit tb" "valid_type t"
    "\<not> slot_active (ht_slots tb ! i)" "\<not> obj_active (ht_objects tb ! j)"
    and tb': "tb' = installed tb i j t r"
    by (auto elim!: install_OK)
  note tb' = tb' [unfolded installed_def] and D = handles_okD [OF ok]
  have len: "i < 128" "j < 128" using ij D(3) by auto
  have none: "count_if (refers j) (ht_slots tb) = 0"
    using D(7) [OF len(2)] ij(5) by (simp add: object_ok_def Let_def)
  have unref: "slot_object_index (ht_slots tb ! k) \<noteq> j" if "k < 128" "slot_active (ht_slots tb ! k)" for k
    using active_slotD(4) [OF ok that refl] ij(5) by auto
  have "slot_ok tb' k" if "k < 128" for k
    using D(6) [OF that] that len ij unref [OF that]
    by (auto simp: slot_ok_def tb' Let_def nth_update D(4,5))
  moreover have "object_ok tb' k" if "k < 128" for k
    using D(7) [OF that] that len ij none
    by (auto simp: object_ok_def tb' Let_def nth_update D(4,5) refers_update refers_def)
  moreover have "ht_active_handles tb' = count_if slot_active (ht_slots tb')"
    using len ij D(4,8) count_bound [OF D(4)] by (simp add: tb' count_if_update no_wrap)
  moreover have "ht_active_objects tb' = count_if obj_active (ht_objects tb')"
    using len ij D(5,9) count_bound [OF D(5)] by (simp add: tb' count_if_update no_wrap)
  ultimately show ?thesis
    using D(1-5) by (simp add: handles_ok_def tb')
qed

lemma decode_slot_refusal [simp]: "decode_slot tb h \<noteq> Inl NATIVE_HANDLE_OK"
  by (auto simp: decode_slot_def Let_def split: option.splits if_splits)

lemma duplicate_OK:
  assumes ok: "handles_ok tb"
    and call: "native_handle_duplicate (Some tb) src (Some h0) = (NATIVE_HANDLE_OK, tb', h)"
  obtains s i j where "decode_slot (Some tb) src = Inr s" "i < ht_limit tb"
    "\<not> slot_active (ht_slots tb ! i)" "j = slot_object_index (ht_slots tb ! s)"
    "tb' = Some (duplicated tb s i j)"
    "h = Some (encode_handle i (slot_type (ht_slots tb ! s)) (slot_generation (ht_slots tb ! i)))"
proof -
  from call obtain s i where scan: "decode_slot (Some tb) src = Inr s"
    "first_index (\<lambda>s. \<not> slot_active s) (take (ht_limit tb) (ht_slots tb)) = Some i"
    by (auto simp: native_handle_duplicate_def Let_def split: sum.splits option.splits if_splits)
  moreover have "i < ht_limit tb" "\<not> slot_active (ht_slots tb ! i)"
    using first_index_SomeD [OF scan(2)] by auto
  ultimately show thesis
    using that [of s i "slot_object_index (ht_slots tb ! s)"] call
    by (auto simp: native_handle_duplicate_def duplicated_def Let_def split: if_splits)
qed

lemma decode_slotD:
  assumes "decode_slot (Some tb) h = Inr s" and "handles_ok tb"
  shows "s < ht_limit tb" "s < NATIVE_HANDLE_LIMIT" "slot_active (ht_slots tb ! s)"
    "slot_generation (ht_slots tb ! s) = handle_generation h"
    "slot_type (ht_slots tb ! s) = handle_type h"
    "h = encode_handle s (slot_type (ht_slots tb ! s)) (slot_generation (ht_slots tb ! s))"
proof -
  have s: "s = handle_index h - 1" "handle_index h \<noteq> 0" "handle_index h \<le> ht_limit tb"
    "handle_reserved h = 0"
    and rest: "slot_active (ht_slots tb ! s)" "slot_generation (ht_slots tb ! s) = handle_generation h"
    "slot_type (ht_slots tb ! s) = handle_type h"
    using assms(1)
    by (auto simp: decode_slot_def invalid_handle_encoding_def Let_def split: if_splits)
  show "s < ht_limit tb" using s by simp
  then show "s < NATIVE_HANDLE_LIMIT" using handles_okD(3) [OF assms(2)] by simp
  show "h = encode_handle s (slot_type (ht_slots tb ! s)) (slot_generation (ht_slots tb ! s))"
    unfolding rest using s encode_decode [OF s(2,4)] by simp
qed (use assms(1) in \<open>auto simp: decode_slot_def Let_def split: if_splits\<close>)

lemma decode_slot_active:
  assumes ok: "handles_ok tb" and i: "i < ht_limit tb" and act: "slot_active (ht_slots tb ! i)"
  shows "decode_slot (Some tb)
    (encode_handle i (slot_type (ht_slots tb ! i)) (slot_generation (ht_slots tb ! i))) = Inr i"
proof -
  note D = handles_okD [OF ok]
  have i': "i < 128" using i D(3) by simp
  note f = encode_handle_fields [of i]
  let ?h = "encode_handle i (slot_type (ht_slots tb ! i)) (slot_generation (ht_slots tb ! i))"
  have "handle_index ?h = i + 1" using f(1) i' by simp
  then have nz: "?h \<noteq> 0" by (auto simp: handle_index_def)
  have "slot_generation (ht_slots tb ! i) \<noteq> 0" "valid_type (slot_type (ht_slots tb ! i))"
    using D(6) [OF i'] i act by (auto simp: slot_ok_def Let_def)
  then show ?thesis
    using D(1-3) i i' act f nz by (simp add: decode_slot_def invalid_handle_encoding_def Let_def)
qed

lemma duplicate_ok:
  assumes ok: "handles_ok tb"
    and call: "native_handle_duplicate (Some tb) src (Some h0) = (NATIVE_HANDLE_OK, Some tb', h)"
  shows "handles_ok tb'"
proof -
  from ok call obtain s i j where parts: "decode_slot (Some tb) src = Inr s" "i < ht_limit tb"
    "\<not> slot_active (ht_slots tb ! i)" "j = slot_object_index (ht_slots tb ! s)"
    and tb': "tb' = duplicated tb s i j"
    by (auto elim!: duplicate_OK)
  note tb' = tb' [unfolded duplicated_def] and D = handles_okD [OF ok]
  note S = decode_slotD [OF parts(1) ok]
  note A = active_slotD [OF ok S(2,3) parts(4)]
  have len: "i < 128" "j < 128" using parts(2) A(3) D(3) by auto
  have refs: "inc16 (obj_references (ht_objects tb ! j)) = count_if (refers j) (ht_slots tb) + 1"
    using A(7) count_bound [OF D(4)] by (simp add: no_wrap)
  have "slot_ok tb' k" if "k < 128" for k
    using D(6) [OF that] that len A parts(2)
    by (auto simp: slot_ok_def tb' Let_def nth_list_update D(4,5))
  moreover have "object_ok tb' k" if "k < 128" for k
    using D(7) [OF that] that len parts(3) A(4) refs
    by (auto simp: object_ok_def tb' Let_def nth_update D(4,5) refers_update refers_def)
  moreover have "ht_active_handles tb' = count_if slot_active (ht_slots tb')"
    using len parts(3) D(4,8) count_bound [OF D(4)] by (simp add: tb' count_if_update no_wrap)
  moreover have "ht_active_objects tb' = count_if obj_active (ht_objects tb')"
    using len A(4) D(5,9) by (simp add: tb' count_if_update)
  ultimately show ?thesis
    using D(1-5) by (simp add: handles_ok_def tb')
qed

lemma retire_slot_ok:
  assumes ok: "handles_ok tb" and i: "i < NATIVE_HANDLE_LIMIT" and act: "slot_active (ht_slots tb ! i)"
    and j: "j = slot_object_index (ht_slots tb ! i)"
  shows "handles_ok (retire_slot tb i j)"
proof -
  note D = handles_okD [OF ok]
  note A = active_slotD [OF ok i act j]
  have len: "i < 128" "j < 128" using i A(3) D(3) by auto
  have pos: "0 < count_if (refers j) (ht_slots tb)" using A(6,7) by simp
  have refs: "dec16 (obj_references (ht_objects tb ! j)) = count_if (refers j) (ht_slots tb) - 1"
    using A(6,7) count_bound [OF D(4), of "refers j"] by (simp add: no_wrap)
  let ?t = "retire_slot tb i j"
  have last: "k = i" if "count_if (refers j) (ht_slots tb) = Suc 0" "k < 128"
    "slot_active (ht_slots tb ! k)" "slot_object_index (ht_slots tb ! k) = j" for k
  proof (rule ccontr)
    assume "k \<noteq> i"
    then have "0 < count_if (refers j) ((ht_slots tb)[i := empty_slot])"
      using that len D(4) by (intro count_if_pos [of k]) (auto simp: refers_def)
    then show False
      using that len act j by (simp add: refers_update D(4) refers_def empty_slot_def)
  qed
  have "slot_ok ?t k" if "k < 128" for k
    using D(6) [OF that] that len pos last [OF _ that]
    by (auto simp: slot_ok_def retire_slot_def Let_def nth_list_update D(4,5) refs)
  moreover have "object_ok ?t k" if "k < 128" for k
  proof -
    have "count_if (refers k) (ht_slots ?t) = count_if (refers k) (ht_slots tb) - of_bool (k = j)"
      using len act j by (auto simp: retire_slot_def Let_def refers_update D(4) refers_def)
    moreover have "ht_objects ?t ! k =
      (if k = j then (if count_if (refers j) (ht_slots tb) = 1 then zero_object
         else (ht_objects tb ! j)\<lparr>obj_references := count_if (refers j) (ht_slots tb) - 1\<rparr>)
       else ht_objects tb ! k)"
      using len refs pos by (auto simp: retire_slot_def Let_def nth_list_update D(5))
    ultimately show ?thesis
      using D(7) [OF that] pos A(4) by (auto simp: object_ok_def Let_def zero_object_def)
  qed
  moreover have "ht_active_handles ?t = count_if slot_active (ht_slots ?t)"
    using len act D(4,8) count_bound [OF D(4), of slot_active] count_if_pos [of i "ht_slots tb" slot_active]
    by (simp add: retire_slot_def Let_def count_if_update no_wrap)
  moreover have "ht_active_objects ?t = count_if obj_active (ht_objects ?t)"
    using len A(4) D(5,9) count_bound [OF D(5), of obj_active] count_if_pos [of j "ht_objects tb" obj_active]
    by (simp add: retire_slot_def Let_def count_if_update no_wrap zero_object_def)
  ultimately show ?thesis
    using D(1-5) by (simp add: handles_ok_def retire_slot_def Let_def)
qed

section \<open>Closing keeps the invariant\<close>

text \<open>What closing a slot does to the table, by the verdict of the callback.\<close>

lemma close_valid_slot_table:
  assumes "close_valid_slot tb i f c r = (s, tb', c', r')"
  shows "tb' = tb \<and> s = NATIVE_HANDLE_CLOSE_FAILED \<or>
    tb' = retire_slot tb i (slot_object_index (ht_slots tb ! i))"
  using assms
  by (auto simp: close_valid_slot_def Let_def
      split: if_splits option.splits prod.splits native_resource_close_result.splits)

lemma retire_slot_generation:
  assumes "k < length (ht_slots tb)"
  shows "slot_generation (ht_slots (retire_slot tb i j) ! k) =
    (if k = i then next_generation (slot_generation (ht_slots tb ! i))
     else slot_generation (ht_slots tb ! k))"
  using assms by (auto simp: retire_slot_def Let_def nth_list_update)

lemma close_valid_slot_ok:
  assumes "close_valid_slot tb i f c r = (s, tb', c', r')" "handles_ok tb" "i < NATIVE_HANDLE_LIMIT"
    "slot_active (ht_slots tb ! i)"
  shows "handles_ok tb'"
  using close_valid_slot_table [OF assms(1)] retire_slot_ok [OF assms(2-4) refl] assms(2) by auto

declare close_all_step.simps [simp del]

lemma close_all_step_cases:
  assumes ok: "handles_ok tb" and i: "i < ht_limit tb"
  shows "close_all_step f i (tb, c, r, b) =
    (if slot_active (ht_slots tb ! i)
     then (let (s, tb', c', r') = close_valid_slot tb i f c r
           in (tb', c', r', b \<or> s \<noteq> NATIVE_HANDLE_OK))
     else (tb, c, r, b))"
proof -
  have i': "i < 128" using i handles_okD(3) [OF ok] by simp
  show ?thesis
    using handles_okD(6) [OF ok i'] i active_slotD(8) [OF ok i' _ refl]
    by (auto simp: slot_ok_def Let_def close_all_step.simps)
qed

lemma close_all_step_ok:
  assumes "close_all_step f i (tb, c, r, b) = (tb', c', r', b')" "handles_ok tb" "i < ht_limit tb"
  shows "handles_ok tb' \<and> ht_limit tb' = ht_limit tb"
proof (cases "slot_active (ht_slots tb ! i)")
  case True
  have "i < NATIVE_HANDLE_LIMIT" using assms(3) handles_okD(3) [OF assms(2)] by simp
  moreover obtain s where "close_valid_slot tb i f c r = (s, tb', c', r')"
    using assms(1) True unfolding close_all_step_cases [OF assms(2,3)] by (auto split: prod.splits)
  ultimately show ?thesis
    using close_valid_slot_ok [of tb i f c r s tb' c' r'] close_valid_slot_table [of tb i f c r s tb' c' r']
      assms(2) True
    by (auto simp: retire_slot_def Let_def)
qed (use assms in \<open>auto simp: close_all_step_cases\<close>)

lemma close_all_fold_ok:
  assumes "fold (close_all_step f) is (tb, c, r, b) = (tb', c', r', b')" "handles_ok tb"
    "\<forall>i \<in> set is. i < ht_limit tb"
  shows "handles_ok tb' \<and> ht_limit tb' = ht_limit tb"
  using assms
proof (induction "is" arbitrary: tb c r b)
  case (Cons i is')
  obtain tb1 c1 r1 b1 where st: "close_all_step f i (tb, c, r, b) = (tb1, c1, r1, b1)"
    by (metis prod_cases4)
  have "handles_ok tb1 \<and> ht_limit tb1 = ht_limit tb"
    using close_all_step_ok [OF st Cons.prems(2)] Cons.prems(3) by simp
  then show ?case
    using Cons.IH [of tb1 c1 r1 b1] Cons.prems(1,3) by (simp add: st)
qed simp

lemma close_all_impl_eq:
  assumes "handles_ok tb"
  shows "close_all_impl (Some tb) f c r =
    (let report1 = map_option (\<lambda>_. native_handle_close_report_reset
             \<lparr>cr_active_handles_before := ht_active_handles tb,
              cr_active_objects_before := ht_active_objects tb\<rparr>) r;
         (tb', context', report2, failed) =
           fold (close_all_step f) [0 ..< ht_limit tb] (tb, c, report1, False);
         status = (if failed then NATIVE_HANDLE_CLOSE_FAILED else NATIVE_HANDLE_OK)
     in (status, Some tb', context',
         map_option (\<lambda>r. report_flags (report_after tb' status r)) report2))"
  using handles_okD(1-3) [OF assms]
  by (cases r) (simp_all add: close_all_impl_def Let_def)

end
