(* ===== verification/Handle_Runs.thy ===== *)
theory Handle_Runs
  imports Handles Generation_Tables "HOL-Library.Multiset"
begin

text \<open>
  Runs of the native handle tables: every operation keeps the table invariant and moves a slot's
  generation by at most one, so the tables are an instance of \<open>generation_table\<close>; the balance of
  the close-all report; and the properties of the component.
\<close>

section \<open>Runs of table operations\<close>

datatype 'c handle_op =
    Handle_install u8 native_resource
  | Handle_duplicate rsd_handle
  | Handle_close rsd_handle "'c native_handle_close_fn option"
  | Handle_close_with_report rsd_handle "'c native_handle_close_fn option"
  | Handle_close_all "'c native_handle_close_fn option"
  | Handle_close_all_diagnostics "'c native_handle_close_fn option"

text \<open>The table and the callback context an operation leaves, whatever handles the caller passes.\<close>

fun handle_step :: "'c handle_op \<Rightarrow> native_handle_table \<times> 'c \<Rightarrow> native_handle_table \<times> 'c" where
  "handle_step (Handle_install t r) (tb, c) =
     (the (fst (snd (native_handle_install (Some tb) t (Some r) (Some RSD_HANDLE_INVALID)))), c)"
| "handle_step (Handle_duplicate h) (tb, c) =
     (the (fst (snd (native_handle_duplicate (Some tb) h (Some RSD_HANDLE_INVALID)))), c)"
| "handle_step (Handle_close h f) (tb, c) =
     (case native_handle_close (Some tb) h f c of (_, tb', c') \<Rightarrow> (the tb', c'))"
| "handle_step (Handle_close_with_report h f) (tb, c) =
     (case native_handle_close_with_report (Some tb) h f c (Some native_handle_close_report_reset) of
        (_, tb', c', _) \<Rightarrow> (the tb', c'))"
| "handle_step (Handle_close_all f) (tb, c) =
     (case native_handle_close_all (Some tb) f c of (_, tb', c') \<Rightarrow> (the tb', c'))"
| "handle_step (Handle_close_all_diagnostics f) (tb, c) =
     (case native_handle_close_all_diagnostics (Some tb) f c (Some native_handle_close_report_reset) of
        (_, tb', c', _) \<Rightarrow> (the tb', c'))"

definition handle_run ::
    "'c handle_op list \<Rightarrow> native_handle_table \<times> 'c \<Rightarrow> native_handle_table \<times> 'c" where
  "handle_run ops st = fold handle_step ops st"

lemma install_refused:
  assumes "native_handle_install (Some tb) t (Some r) (Some h0) = (s, tb', h)" "s \<noteq> NATIVE_HANDLE_OK"
  shows "tb' = Some tb" "h = Some RSD_HANDLE_INVALID"
  using assms by (auto simp: native_handle_install_def split: if_splits option.splits)

lemma duplicate_refused:
  assumes "native_handle_duplicate (Some tb) src (Some h0) = (s, tb', h)" "s \<noteq> NATIVE_HANDLE_OK"
  shows "tb' = Some tb" "h = Some RSD_HANDLE_INVALID"
  using assms
  by (auto simp: native_handle_duplicate_def Let_def split: if_splits option.splits sum.splits)

text \<open>Every operation keeps the invariant and moves each slot's generation by at most one.\<close>

definition generation_moves :: "native_handle_table \<Rightarrow> native_handle_table \<Rightarrow> bool" where
  "generation_moves tb tb' \<longleftrightarrow> (\<forall>k < NATIVE_HANDLE_LIMIT.
     slot_generation (ht_slots tb' ! k) = slot_generation (ht_slots tb ! k) \<or>
     slot_generation (ht_slots tb' ! k) = next_generation (slot_generation (ht_slots tb ! k)))"

lemma generation_moves_refl [simp]: "generation_moves tb tb"
  by (simp add: generation_moves_def)

lemma retire_generation_moves:
  "handles_ok tb \<Longrightarrow> generation_moves tb (retire_slot tb i j)"
  by (simp add: generation_moves_def retire_slot_generation handles_okD(4))

lemma install_generation:
  "\<exists>u. fst (snd (native_handle_install (Some tb) t (Some r) (Some h))) = Some u \<and> generation_moves tb u"
  by (auto simp: native_handle_install_def generation_moves_def nth_update_keep
      split: option.splits)

lemma duplicate_generation:
  "\<exists>u. fst (snd (native_handle_duplicate (Some tb) src (Some h))) = Some u \<and> generation_moves tb u"
  by (auto simp: native_handle_duplicate_def generation_moves_def nth_update_keep Let_def
      split: option.splits sum.splits)

lemma install_step:
  assumes "native_handle_install (Some tb) t (Some r) (Some h0) = (s, tb', h)" "handles_ok tb"
  obtains u where "tb' = Some u" "handles_ok u" "generation_moves tb u"
proof -
  obtain u where u: "tb' = Some u" "generation_moves tb u"
    using install_generation [of tb t r h0] assms(1) by auto
  have "handles_ok u"
    using install_ok [OF assms(2)] install_refused(1) [OF assms(1)] assms u(1)
    by (cases "s = NATIVE_HANDLE_OK") auto
  with u show thesis by (intro that)
qed

lemma duplicate_step:
  assumes "native_handle_duplicate (Some tb) src (Some h0) = (s, tb', h)" "handles_ok tb"
  obtains u where "tb' = Some u" "handles_ok u" "generation_moves tb u"
proof -
  obtain u where u: "tb' = Some u" "generation_moves tb u"
    using duplicate_generation [of tb src h0] assms(1) by auto
  have "handles_ok u"
    using duplicate_ok [OF assms(2)] duplicate_refused(1) [OF assms(1)] assms u(1)
    by (cases "s = NATIVE_HANDLE_OK") auto
  with u show thesis by (intro that)
qed

lemma close_valid_slot_moves:
  assumes "close_valid_slot tb i f c r = (s, tb', c', r')" "handles_ok tb"
  shows "generation_moves tb tb'"
  using close_valid_slot_table [OF assms(1)] retire_generation_moves [OF assms(2)] by auto

lemma close_decoded:
  assumes "handles_ok tb" "decode_slot (Some tb) h = Inr i"
    "close_valid_slot tb i f c r = (s, tb', c', r')"
  shows "handles_ok tb' \<and> generation_moves tb tb'"
  using close_valid_slot_ok [OF assms(3,1)] close_valid_slot_moves [OF assms(3,1)]
    decode_slotD(2,3) [OF assms(2,1)] by simp

lemma close_step:
  assumes "native_handle_close (Some tb) h f c = (s, tb', c')" "handles_ok tb"
  obtains u where "tb' = Some u" "handles_ok u" "generation_moves tb u"
  using assms
  by (auto simp: native_handle_close_def Let_def split: sum.splits if_splits prod.splits
      dest: close_decoded [OF assms(2)])

lemma close_with_report_step:
  assumes "native_handle_close_with_report (Some tb) h f c r = (s, tb', c', r')" "handles_ok tb"
  obtains u where "tb' = Some u" "handles_ok u" "generation_moves tb u"
  using assms
  by (auto simp: native_handle_close_with_report_def Let_def
      split: sum.splits if_splits prod.splits option.splits
      dest: close_decoded [OF assms(2)])

lemma close_all_step_table:
  assumes "close_all_step f i (tb, c, r, b) = (tb', c', r', b')" "handles_ok tb" "i < ht_limit tb"
  shows "tb' = tb \<or> tb' = retire_slot tb i (slot_object_index (ht_slots tb ! i))"
  using assms
  by (auto simp: close_all_step_cases split: if_splits prod.splits dest!: close_valid_slot_table)

lemma close_all_fold_generation:
  assumes "fold (close_all_step f) is (tb, c, r, b) = (tb', c', r', b')" "handles_ok tb"
    "\<forall>i \<in> set is. i < ht_limit tb" "distinct is"
  shows "\<forall>k < NATIVE_HANDLE_LIMIT.
    slot_generation (ht_slots tb' ! k) = slot_generation (ht_slots tb ! k) \<or>
    k \<in> set is \<and> slot_generation (ht_slots tb' ! k) = next_generation (slot_generation (ht_slots tb ! k))"
  using assms
proof (induction "is" arbitrary: tb c r b)
  case (Cons i is')
  obtain tb1 c1 r1 b1 where st: "close_all_step f i (tb, c, r, b) = (tb1, c1, r1, b1)"
    by (metis prod_cases4)
  have i: "i < ht_limit tb" using Cons.prems(3) by simp
  have ok1: "handles_ok tb1" "ht_limit tb1 = ht_limit tb"
    using close_all_step_ok [OF st Cons.prems(2) i] by auto
  have gen: "slot_generation (ht_slots tb1 ! k) = slot_generation (ht_slots tb ! k) \<or>
    k = i \<and> slot_generation (ht_slots tb1 ! k) = next_generation (slot_generation (ht_slots tb ! k))"
    if "k < 128" for k
    using close_all_step_table [OF st Cons.prems(2) i] that
    by (auto simp: retire_slot_generation handles_okD(4) [OF Cons.prems(2)] split: if_splits)
  have "\<forall>k < NATIVE_HANDLE_LIMIT.
    slot_generation (ht_slots tb' ! k) = slot_generation (ht_slots tb1 ! k) \<or>
    k \<in> set is' \<and> slot_generation (ht_slots tb' ! k) = next_generation (slot_generation (ht_slots tb1 ! k))"
    using Cons.prems(1,3,4) ok1 by (intro Cons.IH [of tb1 c1 r1 b1]) (simp_all add: st)
  with gen Cons.prems(4) show ?case by (metis distinct.simps(2) list.set_intros)
qed simp

lemma close_all_impl_step:
  assumes "close_all_impl (Some tb) f c r = (s, tb', c', r')" "handles_ok tb"
  obtains u where "tb' = Some u" "handles_ok u" "generation_moves tb u"
proof -
  obtain report1 where "report1 = map_option (\<lambda>_. native_handle_close_report_reset
             \<lparr>cr_active_handles_before := ht_active_handles tb,
              cr_active_objects_before := ht_active_objects tb\<rparr>) r" by simp
  moreover obtain u c1 r1 b1 where run: "fold (close_all_step f) [0 ..< ht_limit tb] (tb, c, report1, False)
      = (u, c1, r1, b1)"
    by (metis prod_cases4)
  ultimately have "tb' = Some u"
    using assms(1) unfolding close_all_impl_eq [OF assms(2)] by (simp add: Let_def)
  moreover have "handles_ok u" using close_all_fold_ok [OF run assms(2)] by simp
  moreover have "generation_moves tb u"
    using close_all_fold_generation [OF run assms(2)] by (auto simp: generation_moves_def)
  ultimately show thesis by (rule that)
qed

lemma handle_step_ok:
  assumes "handles_ok (fst st)"
  shows "handles_ok (fst (handle_step x st))" "generation_moves (fst st) (fst (handle_step x st))"
proof -
  obtain tb c where st: "st = (tb, c)" by (cases st)
  have ok: "handles_ok tb" using assms st by simp
  have "handles_ok (fst (handle_step x (tb, c))) \<and> generation_moves tb (fst (handle_step x (tb, c)))"
  proof (cases x)
    case (Handle_install t r)
    then show ?thesis using install_step [OF _ ok] by (simp, metis option.sel prod.collapse)
  next
    case (Handle_duplicate h)
    then show ?thesis using duplicate_step [OF _ ok] by (simp, metis option.sel prod.collapse)
  next
    case (Handle_close h f)
    then show ?thesis
      by (auto split: prod.splits elim!: close_step [OF _ ok])
  next
    case (Handle_close_with_report h f)
    then show ?thesis
      by (auto split: prod.splits elim!: close_with_report_step [OF _ ok])
  next
    case (Handle_close_all f)
    then show ?thesis
      by (auto simp: native_handle_close_all_def split: prod.splits elim!: close_all_impl_step [OF _ ok])
  next
    case (Handle_close_all_diagnostics f)
    then show ?thesis
      by (auto simp: native_handle_close_all_diagnostics_def split: prod.splits
          elim!: close_all_impl_step [OF _ ok])
  qed
  then show "handles_ok (fst (handle_step x st))" "generation_moves (fst st) (fst (handle_step x st))"
    by (simp_all add: st)
qed

definition handle_issue :: "native_handle_table \<times> 'c \<Rightarrow> nat \<Rightarrow> u32" where
  "handle_issue st i = slot_generation (ht_slots (fst st) ! i)"

interpretation handle_tokens: generation_table handle_step
  "\<lambda>st. handles_ok (fst st)" "{..< NATIVE_HANDLE_LIMIT}" handle_issue
proof
  fix s :: "native_handle_table \<times> 'c" and x i
  assume "handles_ok (fst s)" "i \<in> {..< NATIVE_HANDLE_LIMIT}"
  then show "handle_issue (handle_step x s) i = handle_issue s i \<or>
    handle_issue (handle_step x s) i = next_generation (handle_issue s i)"
    using handle_step_ok(2) [of s x] by (simp add: handle_issue_def generation_moves_def)
qed (rule handle_step_ok)

section \<open>The census of a close-all report\<close>

lemma with_type_summary_fields [simp]:
  "cr_attempted_handles (with_type_summary t f r) = cr_attempted_handles r"
  "cr_callback_attempts (with_type_summary t f r) = cr_callback_attempts r"
  "cr_closed_resources (with_type_summary t f r) = cr_closed_resources r"
  "cr_consumed_error_resources (with_type_summary t f r) = cr_consumed_error_resources r"
  "cr_retained_resources (with_type_summary t f r) = cr_retained_resources r"
  "cr_duplicate_references (with_type_summary t f r) = cr_duplicate_references r"
  "cr_stale_entries (with_type_summary t f r) = cr_stale_entries r"
  "cr_invalid_entries (with_type_summary t f r) = cr_invalid_entries r"
  "cr_retired_handles (with_type_summary t f r) = cr_retired_handles r"
  "cr_omitted_entries (with_type_summary t f r) = cr_omitted_entries r"
  "cr_active_handles_before (with_type_summary t f r) = cr_active_handles_before r"
  "cr_active_objects_before (with_type_summary t f r) = cr_active_objects_before r"
  "cr_truncated (with_type_summary t f r) = cr_truncated r"
  by (simp_all add: with_type_summary_def)

lemma report_outcome_fields [simp]:
  "cr_attempted_handles (report_outcome k r) = cr_attempted_handles r"
  "cr_callback_attempts (report_outcome k r) = cr_callback_attempts r"
  "cr_retired_handles (report_outcome k r) = cr_retired_handles r"
  "cr_omitted_entries (report_outcome k r) = cr_omitted_entries r"
  "cr_active_handles_before (report_outcome k r) = cr_active_handles_before r"
  "cr_active_objects_before (report_outcome k r) = cr_active_objects_before r"
  "cr_truncated (report_outcome k r) = cr_truncated r"
  by (cases k; simp)+

lemma report_record_fields [simp]:
  "cr_attempted_handles (report_record r h t j n k b) = inc16 (cr_attempted_handles r)"
  "cr_callback_attempts (report_record r h t j n k b) = cr_callback_attempts r"
  "cr_retired_handles (report_record r h t j n k b) =
     (if b then inc16 (cr_retired_handles r) else cr_retired_handles r)"
  "cr_omitted_entries (report_record r h t j n k b) =
     (if cr_attempted_handles r < 32 then cr_omitted_entries r else inc16 (cr_omitted_entries r))"
  "cr_truncated (report_record r h t j n k b) \<longleftrightarrow> cr_truncated r \<or> 32 \<le> cr_attempted_handles r"
  "cr_active_handles_before (report_record r h t j n k b) = cr_active_handles_before r"
  "cr_active_objects_before (report_record r h t j n k b) = cr_active_objects_before r"
  by (auto simp: report_record_def Let_def)

lemma report_record_counts [simp]:
  "cr_closed_resources (report_record r h t j n k b) =
     (if k = NATIVE_HANDLE_CLOSE_OUTCOME_CLOSED then inc16 (cr_closed_resources r)
      else cr_closed_resources r)"
  "cr_consumed_error_resources (report_record r h t j n k b) =
     (if k = NATIVE_HANDLE_CLOSE_OUTCOME_CONSUMED_ERROR then inc16 (cr_consumed_error_resources r)
      else cr_consumed_error_resources r)"
  "cr_retained_resources (report_record r h t j n k b) =
     (if k = NATIVE_HANDLE_CLOSE_OUTCOME_RETAINED then inc16 (cr_retained_resources r)
      else cr_retained_resources r)"
  "cr_duplicate_references (report_record r h t j n k b) =
     (if k = NATIVE_HANDLE_CLOSE_OUTCOME_DUPLICATE then inc16 (cr_duplicate_references r)
      else cr_duplicate_references r)"
  "cr_stale_entries (report_record r h t j n k b) =
     (if k = NATIVE_HANDLE_CLOSE_OUTCOME_STALE then inc16 (cr_stale_entries r)
      else cr_stale_entries r)"
  "cr_invalid_entries (report_record r h t j n k b) =
     (if k = NATIVE_HANDLE_CLOSE_OUTCOME_INVALID then inc16 (cr_invalid_entries r)
      else cr_invalid_entries r)"
  by (cases k; simp add: report_record_def Let_def)+

definition count_callback :: "u8 \<Rightarrow> native_handle_close_report \<Rightarrow> native_handle_close_report" where
  "count_callback t r = with_type_summary t
     (\<lambda>s. s\<lparr>ts_callback_attempts := inc16 (ts_callback_attempts s)\<rparr>)
     (r\<lparr>cr_callback_attempts := inc16 (cr_callback_attempts r)\<rparr>)"

text \<open>The outcome of closing a slot that refers to \<open>ob\<close>, and closing a slot in terms of it.\<close>

definition close_outcome ::
    "native_handle_object \<Rightarrow> 'c native_handle_close_fn option \<Rightarrow> 'c \<Rightarrow> native_handle_close_outcome" where
  "close_outcome ob f c =
     (if obj_references ob > 1 then NATIVE_HANDLE_CLOSE_OUTCOME_DUPLICATE
      else case f of
        None \<Rightarrow> NATIVE_HANDLE_CLOSE_OUTCOME_CLOSED
      | Some g \<Rightarrow>
          (case fst (g (obj_type ob) (obj_resource ob) c) of
             NATIVE_RESOURCE_CLOSED \<Rightarrow> NATIVE_HANDLE_CLOSE_OUTCOME_CLOSED
           | NATIVE_RESOURCE_CLOSED_WITH_ERROR \<Rightarrow> NATIVE_HANDLE_CLOSE_OUTCOME_CONSUMED_ERROR
           | _ \<Rightarrow> NATIVE_HANDLE_CLOSE_OUTCOME_RETAINED))"

definition close_calls :: "native_handle_object \<Rightarrow> 'c native_handle_close_fn option \<Rightarrow> bool" where
  "close_calls ob f \<longleftrightarrow> obj_references ob \<le> 1 \<and> f \<noteq> None"

definition close_record ::
    "native_handle_table \<Rightarrow> nat \<Rightarrow> 'c native_handle_close_fn option \<Rightarrow> 'c \<Rightarrow>
     native_handle_close_report \<Rightarrow> native_handle_close_report" where
  "close_record tb i f c r =
     (let slot = ht_slots tb ! i; j = slot_object_index slot; ob = ht_objects tb ! j;
          k = close_outcome ob f c in
      report_record (if close_calls ob f then count_callback (obj_type ob) r else r)
        (encode_handle i (slot_type slot) (slot_generation slot)) (obj_type ob) j
        (obj_references ob) k (k \<noteq> NATIVE_HANDLE_CLOSE_OUTCOME_RETAINED))"

lemma close_valid_slot_eq:
  "close_valid_slot tb i f c r =
     (let slot = ht_slots tb ! i; j = slot_object_index slot; ob = ht_objects tb ! j;
          k = close_outcome ob f c in
      (if k = NATIVE_HANDLE_CLOSE_OUTCOME_CONSUMED_ERROR \<or> k = NATIVE_HANDLE_CLOSE_OUTCOME_RETAINED
         then NATIVE_HANDLE_CLOSE_FAILED else NATIVE_HANDLE_OK,
       if k = NATIVE_HANDLE_CLOSE_OUTCOME_RETAINED then tb else retire_slot tb i j,
       if close_calls ob f then snd (the f (obj_type ob) (obj_resource ob) c) else c,
       map_option (close_record tb i f c) r))"
  by (cases r)
     (auto simp: close_valid_slot_def Let_def close_outcome_def close_calls_def count_callback_def
        close_record_def split: option.splits prod.splits native_resource_close_result.splits)

lemma count_callback_fields [simp]:
  "cr_callback_attempts (count_callback t r) = inc16 (cr_callback_attempts r)"
  "cr_attempted_handles (count_callback t r) = cr_attempted_handles r"
  "cr_closed_resources (count_callback t r) = cr_closed_resources r"
  "cr_consumed_error_resources (count_callback t r) = cr_consumed_error_resources r"
  "cr_retained_resources (count_callback t r) = cr_retained_resources r"
  "cr_duplicate_references (count_callback t r) = cr_duplicate_references r"
  "cr_stale_entries (count_callback t r) = cr_stale_entries r"
  "cr_invalid_entries (count_callback t r) = cr_invalid_entries r"
  "cr_retired_handles (count_callback t r) = cr_retired_handles r"
  "cr_omitted_entries (count_callback t r) = cr_omitted_entries r"
  "cr_active_handles_before (count_callback t r) = cr_active_handles_before r"
  "cr_active_objects_before (count_callback t r) = cr_active_objects_before r"
  "cr_truncated (count_callback t r) = cr_truncated r"
  by (simp_all add: count_callback_def)

text \<open>The balance of the report after the loop has visited the slots below \<open>k\<close>.\<close>

definition close_census ::
    "bool \<Rightarrow> nat \<Rightarrow> native_handle_table \<Rightarrow> native_handle_close_report \<Rightarrow> bool \<Rightarrow> bool" where
  "close_census callback k tb r failed \<longleftrightarrow>
     cr_active_handles_before r \<le> NATIVE_HANDLE_LIMIT \<and>
     cr_attempted_handles r + count_if slot_active (drop k (ht_slots tb)) = cr_active_handles_before r \<and>
     cr_retired_handles r + ht_active_handles tb = cr_active_handles_before r \<and>
     cr_attempted_handles r = cr_retired_handles r + cr_retained_resources r \<and>
     cr_retired_handles r = cr_duplicate_references r + cr_closed_resources r +
       cr_consumed_error_resources r \<and>
     cr_closed_resources r + cr_consumed_error_resources r + ht_active_objects tb =
       cr_active_objects_before r \<and>
     cr_callback_attempts r =
       (if callback then cr_closed_resources r + cr_consumed_error_resources r + cr_retained_resources r
        else 0) \<and>
     (\<not> callback \<longrightarrow> cr_retained_resources r = 0 \<and> cr_consumed_error_resources r = 0) \<and>
     cr_stale_entries r = 0 \<and> cr_invalid_entries r = 0 \<and>
     cr_omitted_entries r = cr_attempted_handles r - NATIVE_HANDLE_CLOSE_REPORT_CAPACITY \<and>
     (cr_truncated r \<longleftrightarrow> cr_attempted_handles r > NATIVE_HANDLE_CLOSE_REPORT_CAPACITY) \<and>
     (failed \<longleftrightarrow> cr_retained_resources r + cr_consumed_error_resources r > 0)"

lemma retire_slot_counts:
  assumes ok: "handles_ok tb" and i: "i < NATIVE_HANDLE_LIMIT" and act: "slot_active (ht_slots tb ! i)"
    and j: "j = slot_object_index (ht_slots tb ! i)"
  shows "ht_active_handles tb = Suc (ht_active_handles (retire_slot tb i j))"
    "ht_active_objects tb = ht_active_objects (retire_slot tb i j) +
       of_bool (obj_references (ht_objects tb ! j) \<le> 1)"
    "count_if slot_active (drop (Suc i) (ht_slots (retire_slot tb i j))) =
       count_if slot_active (drop (Suc i) (ht_slots tb))"
proof -
  note D = handles_okD [OF ok]
  note A = active_slotD [OF ok i act j]
  have j': "j < 128" using A(3) D(3) by simp
  have "0 < ht_active_handles tb" "ht_active_handles tb < 65535"
    "0 < ht_active_objects tb" "ht_active_objects tb < 65535"
    "obj_references (ht_objects tb ! j) < 65535"
    using count_if_pos [of i "ht_slots tb" slot_active] count_if_pos [of j "ht_objects tb" obj_active]
      i act j' A(4,7) D count_bound by auto
  then show "ht_active_handles tb = Suc (ht_active_handles (retire_slot tb i j))"
    "ht_active_objects tb = ht_active_objects (retire_slot tb i j) +
       of_bool (obj_references (ht_objects tb ! j) \<le> 1)"
    using A(6) by (auto simp: retire_slot_def Let_def no_wrap)
  show "count_if slot_active (drop (Suc i) (ht_slots (retire_slot tb i j))) =
       count_if slot_active (drop (Suc i) (ht_slots tb))"
    by (simp add: retire_slot_def Let_def)
qed

lemma close_outcome_cases:
  "(close_outcome ob f c = NATIVE_HANDLE_CLOSE_OUTCOME_DUPLICATE \<and> \<not> close_calls ob f \<and>
      \<not> obj_references ob \<le> 1) \<or>
   (close_outcome ob f c = NATIVE_HANDLE_CLOSE_OUTCOME_CLOSED \<and> (close_calls ob f \<longleftrightarrow> f \<noteq> None) \<and>
      obj_references ob \<le> 1) \<or>
   (close_outcome ob f c = NATIVE_HANDLE_CLOSE_OUTCOME_CONSUMED_ERROR \<and> close_calls ob f \<and> f \<noteq> None \<and>
      obj_references ob \<le> 1) \<or>
   (close_outcome ob f c = NATIVE_HANDLE_CLOSE_OUTCOME_RETAINED \<and> close_calls ob f \<and> f \<noteq> None)"
  by (auto simp: close_outcome_def close_calls_def
      split: option.splits native_resource_close_result.splits)

lemma close_record_fields:
  assumes census: "close_census callback i tb r b"
    and "k = close_outcome ob f c" "ob = ht_objects tb ! slot_object_index (ht_slots tb ! i)"
    and "R = close_record tb i f c r"
  shows "cr_attempted_handles R = Suc (cr_attempted_handles r)"
    "cr_active_handles_before R = cr_active_handles_before r"
    "cr_active_objects_before R = cr_active_objects_before r"
    "cr_stale_entries R = cr_stale_entries r" "cr_invalid_entries R = cr_invalid_entries r"
    "cr_omitted_entries R = Suc (cr_attempted_handles r) - 32"
    "cr_truncated R \<longleftrightarrow> 32 < Suc (cr_attempted_handles r)"
    "cr_callback_attempts R = cr_callback_attempts r + of_bool (close_calls ob f)"
    "cr_retired_handles R = cr_retired_handles r + of_bool (k \<noteq> NATIVE_HANDLE_CLOSE_OUTCOME_RETAINED)"
    "cr_retained_resources R = cr_retained_resources r + of_bool (k = NATIVE_HANDLE_CLOSE_OUTCOME_RETAINED)"
    "cr_closed_resources R = cr_closed_resources r + of_bool (k = NATIVE_HANDLE_CLOSE_OUTCOME_CLOSED)"
    "cr_consumed_error_resources R =
       cr_consumed_error_resources r + of_bool (k = NATIVE_HANDLE_CLOSE_OUTCOME_CONSUMED_ERROR)"
    "cr_duplicate_references R =
       cr_duplicate_references r + of_bool (k = NATIVE_HANDLE_CLOSE_OUTCOME_DUPLICATE)"
proof -
  have "inc16 n = Suc n" if "n \<le> cr_active_handles_before r" for n
    using that census by (simp add: close_census_def no_wrap)
  then have small: "inc16 (cr_attempted_handles r) = Suc (cr_attempted_handles r)"
    "inc16 (cr_retired_handles r) = Suc (cr_retired_handles r)"
    "inc16 (cr_retained_resources r) = Suc (cr_retained_resources r)"
    "inc16 (cr_closed_resources r) = Suc (cr_closed_resources r)"
    "inc16 (cr_consumed_error_resources r) = Suc (cr_consumed_error_resources r)"
    "inc16 (cr_duplicate_references r) = Suc (cr_duplicate_references r)"
    "inc16 (cr_callback_attempts r) = Suc (cr_callback_attempts r)"
    and omitted: "32 \<le> cr_attempted_handles r \<Longrightarrow>
      inc16 (cr_omitted_entries r) = Suc (cr_attempted_handles r) - 32"
    "cr_attempted_handles r < 32 \<Longrightarrow> cr_omitted_entries r = 0"
    "cr_truncated r \<longleftrightarrow> 32 < cr_attempted_handles r"
    using census by (auto simp: close_census_def)
  show "cr_attempted_handles R = Suc (cr_attempted_handles r)"
    "cr_active_handles_before R = cr_active_handles_before r"
    "cr_active_objects_before R = cr_active_objects_before r"
    "cr_stale_entries R = cr_stale_entries r" "cr_invalid_entries R = cr_invalid_entries r"
    "cr_omitted_entries R = Suc (cr_attempted_handles r) - 32"
    "cr_truncated R \<longleftrightarrow> 32 < Suc (cr_attempted_handles r)"
    "cr_callback_attempts R = cr_callback_attempts r + of_bool (close_calls ob f)"
    "cr_retired_handles R = cr_retired_handles r + of_bool (k \<noteq> NATIVE_HANDLE_CLOSE_OUTCOME_RETAINED)"
    "cr_retained_resources R = cr_retained_resources r + of_bool (k = NATIVE_HANDLE_CLOSE_OUTCOME_RETAINED)"
    "cr_closed_resources R = cr_closed_resources r + of_bool (k = NATIVE_HANDLE_CLOSE_OUTCOME_CLOSED)"
    "cr_consumed_error_resources R =
       cr_consumed_error_resources r + of_bool (k = NATIVE_HANDLE_CLOSE_OUTCOME_CONSUMED_ERROR)"
    "cr_duplicate_references R =
       cr_duplicate_references r + of_bool (k = NATIVE_HANDLE_CLOSE_OUTCOME_DUPLICATE)"
    unfolding assms(4) close_record_def Let_def
    using close_outcome_cases [of ob f c] assms(2,3) by (auto simp: small omitted)
qed

lemma close_census_step:
  assumes ok: "handles_ok tb" and i: "i < ht_limit tb"
    and census: "close_census (f \<noteq> None) i tb r b"
    and step: "close_all_step f i (tb, c, Some r, b) = (tb', c', r', b')"
  shows "\<exists>r1. r' = Some r1 \<and> close_census (f \<noteq> None) (Suc i) tb' r1 b' \<and>
    cr_active_handles_before r1 = cr_active_handles_before r \<and>
    cr_active_objects_before r1 = cr_active_objects_before r"
proof -
  note D = handles_okD [OF ok]
  have i': "i < 128" using i D(3) by simp
  have split: "drop i (ht_slots tb) = ht_slots tb ! i # drop (Suc i) (ht_slots tb)"
    using i' D(4) by (simp add: Cons_nth_drop_Suc)
  show ?thesis
  proof (cases "slot_active (ht_slots tb ! i)")
    case False
    then show ?thesis
      using step census split by (auto simp: close_all_step_cases [OF ok i] close_census_def)
  next
    case True
    let ?j = "slot_object_index (ht_slots tb ! i)"
    let ?k = "close_outcome (ht_objects tb ! ?j) f c"
    note C = retire_slot_counts [OF ok i' True refl]
    let ?ob = "ht_objects tb ! ?j"
    define R where "R = close_record tb i f c r"
    have result: "r' = Some R" "tb' = (if ?k = NATIVE_HANDLE_CLOSE_OUTCOME_RETAINED then tb else retire_slot tb i ?j)"
      "b' = (b \<or> ?k = NATIVE_HANDLE_CLOSE_OUTCOME_CONSUMED_ERROR \<or> ?k = NATIVE_HANDLE_CLOSE_OUTCOME_RETAINED)"
      using step True
      by (auto simp: close_all_step_cases [OF ok i] close_valid_slot_eq Let_def R_def split: if_splits)
    note fields = close_record_fields [OF census refl refl R_def]
    have "close_census (f \<noteq> None) (Suc i) tb' R b'"
      using close_outcome_cases [of ?ob f c]
    proof (elim disjE conjE)
      assume k: "?k = NATIVE_HANDLE_CLOSE_OUTCOME_DUPLICATE" "\<not> close_calls ?ob f" "\<not> obj_references ?ob \<le> 1"
      note fields [unfolded k] C [simplified k]
      then show ?thesis
        using census True k unfolding result k(1) close_census_def split by (simp; linarith?)
    next
      assume k: "?k = NATIVE_HANDLE_CLOSE_OUTCOME_CLOSED" "close_calls ?ob f = (f \<noteq> None)" "obj_references ?ob \<le> 1"
      note fields [unfolded k] C [simplified k]
      then show ?thesis
        using census True k unfolding result k(1) close_census_def split by (simp; linarith?)
    next
      assume k: "?k = NATIVE_HANDLE_CLOSE_OUTCOME_CONSUMED_ERROR" "close_calls ?ob f" "f \<noteq> None" "obj_references ?ob \<le> 1"
      note fields [unfolded k] C [simplified k]
      then show ?thesis
        using census True k unfolding result k(1) close_census_def split by (simp; linarith?)
    next
      assume k: "?k = NATIVE_HANDLE_CLOSE_OUTCOME_RETAINED" "close_calls ?ob f" "f \<noteq> None"
      note fields [unfolded k]
      then show ?thesis
        using census True k unfolding result k(1) close_census_def split by (simp; linarith?)
    qed
    then show ?thesis using result(1) fields(2,3) by blast
  qed
qed

lemma close_census_fold:
  assumes "fold (close_all_step f) [i ..< n] (tb, c, Some r, b) = (tb', c', r', b')"
    "handles_ok tb" "n = ht_limit tb" "i \<le> n" "close_census (f \<noteq> None) i tb r b"
  shows "\<exists>r1. r' = Some r1 \<and> close_census (f \<noteq> None) n tb' r1 b' \<and>
    cr_active_handles_before r1 = cr_active_handles_before r \<and>
    cr_active_objects_before r1 = cr_active_objects_before r"
  using assms
proof (induction "n - i" arbitrary: i tb c r b)
  case (Suc m)
  obtain tb1 c1 o1 b1 where st: "close_all_step f i (tb, c, Some r, b) = (tb1, c1, o1, b1)"
    by (metis prod_cases4)
  have i: "i < ht_limit tb" using Suc.hyps(2) Suc.prems(3) by simp
  obtain r1 where r1: "o1 = Some r1" "close_census (f \<noteq> None) (Suc i) tb1 r1 b1"
    and before: "cr_active_handles_before r1 = cr_active_handles_before r"
      "cr_active_objects_before r1 = cr_active_objects_before r"
    using close_census_step [OF Suc.prems(2) i Suc.prems(5) st] by blast
  have ok1: "handles_ok tb1" "ht_limit tb1 = ht_limit tb"
    using close_all_step_ok [OF st Suc.prems(2) i] by auto
  have "[i ..< n] = i # [Suc i ..< n]" using Suc.hyps(2) by (simp add: upt_conv_Cons)
  then show ?case
    unfolding before [symmetric] using Suc.hyps Suc.prems ok1 r1 st
    by (intro Suc.hyps(1) [of "Suc i" tb1 c1 r1 b1]) auto
qed auto

text \<open>The objects a table keeps alive, with multiplicity.\<close>

definition live_objects :: "native_handle_table \<Rightarrow> (u8 \<times> native_resource) multiset" where
  "live_objects tb = image_mset (\<lambda>ob. (obj_type ob, obj_resource ob))
     (filter_mset obj_active (mset (ht_objects tb)))"

lemma mset_update_split: "i < length xs \<Longrightarrow> mset xs = add_mset (xs ! i) (mset xs - {#xs ! i#})"
  by simp

lemma retire_slot_live:
  assumes ok: "handles_ok tb" and i: "i < NATIVE_HANDLE_LIMIT" and act: "slot_active (ht_slots tb ! i)"
    and j: "j = slot_object_index (ht_slots tb ! i)" and ob: "ob = ht_objects tb ! j"
  shows "live_objects tb = (if obj_references ob \<le> 1 then {#(obj_type ob, obj_resource ob)#} else {#})
    + live_objects (retire_slot tb i j)"
proof -
  note D = handles_okD [OF ok]
  note A = active_slotD [OF ok i act j]
  have j': "j < length (ht_objects tb)" using A(3) D(3,5) by simp
  let ?M = "mset (ht_objects tb) - {#ob#}"
  have before: "mset (ht_objects tb) = add_mset ob ?M" using j' by (simp add: ob)
  have refs: "dec16 (obj_references ob) = obj_references ob - 1"
    using A(6,7) count_bound [OF D(4), of "refers j"] by (simp add: no_wrap ob)
  have after: "mset (ht_objects (retire_slot tb i j)) = add_mset
    (if obj_references ob \<le> 1 then zero_object else ob\<lparr>obj_references := obj_references ob - 1\<rparr>) ?M"
    using A(6) refs j' by (auto simp: retire_slot_def Let_def mset_update ob)
  have "obj_active ob" using A(4) ob by simp
  then show ?thesis
    unfolding live_objects_def after by (subst before) (simp add: zero_object_def)
qed

text \<open>A callback that also keeps a log of the resources it was given.\<close>

fun logged :: "'c native_handle_close_fn \<Rightarrow> ('c \<times> (u8 \<times> native_resource) list) native_handle_close_fn" where
  "logged g t r (c, log) = (case g t r c of (verdict, c') \<Rightarrow> (verdict, c', log @ [(t, r)]))"

definition never_retains :: "'c native_handle_close_fn \<Rightarrow> bool" where
  "never_retains g \<longleftrightarrow>
     (\<forall>t r c. fst (g t r c) \<in> {NATIVE_RESOURCE_CLOSED, NATIVE_RESOURCE_CLOSED_WITH_ERROR})"

lemma close_all_step_log:
  assumes ok: "handles_ok tb" and i: "i < ht_limit tb" and g: "never_retains g"
    and step: "close_all_step (Some (logged g)) i (tb, (c, log), r, b) = (tb', (c', log'), r', b')"
  shows "mset log' + live_objects tb' = mset log + live_objects tb" "\<not> slot_active (ht_slots tb' ! i)"
    "\<And>k. k \<noteq> i \<Longrightarrow> ht_slots tb' ! k = ht_slots tb ! k"
proof -
  have i': "i < 128" using i handles_okD(3) [OF ok] by simp
  let ?j = "slot_object_index (ht_slots tb ! i)"
  let ?ob = "ht_objects tb ! ?j"
  have res: "tb' = retire_slot tb i ?j \<and>
    log' = log @ (if obj_references ?ob \<le> 1 then [(obj_type ?ob, obj_resource ?ob)] else [])"
    if act: "slot_active (ht_slots tb ! i)"
  proof -
    have "fst (g (obj_type ?ob) (obj_resource ?ob) c) \<in>
      {NATIVE_RESOURCE_CLOSED, NATIVE_RESOURCE_CLOSED_WITH_ERROR}"
      using g by (simp add: never_retains_def)
    then show ?thesis
      using step act
      by (auto simp: close_all_step_cases [OF ok i] close_valid_slot_eq Let_def close_outcome_def
          close_calls_def split: if_splits prod.splits)
  qed
  have idle: "tb' = tb \<and> log' = log" if "\<not> slot_active (ht_slots tb ! i)"
    using step that by (simp add: close_all_step_cases [OF ok i])
  show "mset log' + live_objects tb' = mset log + live_objects tb"
    using res idle retire_slot_live [OF ok i' _ refl refl] by (cases "slot_active (ht_slots tb ! i)") auto
  show "\<not> slot_active (ht_slots tb' ! i)"
    using res idle i' handles_okD(4) [OF ok]
    by (cases "slot_active (ht_slots tb ! i)") (auto simp: retire_slot_def Let_def)
  show "ht_slots tb' ! k = ht_slots tb ! k" if "k \<noteq> i" for k
    using res idle that by (cases "slot_active (ht_slots tb ! i)") (auto simp: retire_slot_def Let_def)
qed

lemma close_all_fold_log:
  assumes "fold (close_all_step (Some (logged g))) is (tb, (c, log), r, b) = (tb', (c', log'), r', b')"
    "handles_ok tb" "\<forall>i \<in> set is. i < ht_limit tb" "never_retains g"
  shows "mset log' + live_objects tb' = mset log + live_objects tb \<and>
    (\<forall>k. slot_active (ht_slots tb' ! k) \<longrightarrow> slot_active (ht_slots tb ! k) \<and> k \<notin> set is)"
  using assms(1-3)
proof (induction "is" arbitrary: tb c log r b)
  case (Cons i is')
  obtain tb1 c1 log1 r1 b1 where
    st: "close_all_step (Some (logged g)) i (tb, (c, log), r, b) = (tb1, (c1, log1), r1, b1)"
    by (metis surj_pair)
  have i: "i < ht_limit tb" using Cons.prems(3) by simp
  have ok1: "handles_ok tb1" "ht_limit tb1 = ht_limit tb"
    using close_all_step_ok [OF st Cons.prems(2) i] by auto
  note L = close_all_step_log [OF Cons.prems(2) i assms(4) st]
  have "mset log' + live_objects tb' = mset log1 + live_objects tb1 \<and>
    (\<forall>k. slot_active (ht_slots tb' ! k) \<longrightarrow> slot_active (ht_slots tb1 ! k) \<and> k \<notin> set is')"
    using Cons.prems ok1 st by (intro Cons.IH [of tb1 c1 log1 r1 b1]) auto
  with L show ?case by (metis insert_iff list.simps(15))
qed simp


section \<open>Properties\<close>

lemma resolve_ok_iff:
  assumes "handles_ok tb"
  shows "native_handle_resolve (Some tb) h t True = Inr j \<longleftrightarrow>
    (\<exists>i. decode_slot (Some tb) h = Inr i \<and> (t = 0 \<or> t = slot_type (ht_slots tb ! i)) \<and>
       j = slot_object_index (ht_slots tb ! i))"
proof (cases "decode_slot (Some tb) h")
  case (Inr i)
  have "valid_slot_object tb (ht_slots tb ! i)"
    using active_slotD(8) [OF assms decode_slotD(2,3) [OF Inr assms] refl] .
  with Inr show ?thesis
    by (auto simp: native_handle_resolve_def valid_slot_object_def Let_def)
qed (simp add: native_handle_resolve_def)

lemma decode_slot_cong:
  assumes "ht_slots tb' ! k = ht_slots tb ! k" "decode_slot (Some tb) h = Inr k"
    "ht_initialized tb'" "ht_limit tb' = ht_limit tb"
  shows "decode_slot (Some tb') h = Inr k"
  using assms by (auto simp: decode_slot_def invalid_handle_encoding_def Let_def split: if_splits)

lemma decode_slot_index: "decode_slot (Some tb) h = Inr s \<Longrightarrow> handle_index h - 1 = s"
  by (auto simp: decode_slot_def Let_def split: if_splits)

lemma resolve_inactive:
  assumes "handles_ok tb" "handle_index h - 1 = s" "\<not> slot_active (ht_slots tb ! s)"
  shows "native_handle_resolve (Some tb) h t True = Inl NATIVE_HANDLE_STALE"
  using handles_okD(1-3) [OF assms(1)] assms(2,3)
  by (auto simp: native_handle_resolve_def decode_slot_def Let_def)

lemma run_from_initialize:
  assumes "native_handle_table_initialize (Some t0) limit = (NATIVE_HANDLE_OK, Some tb)"
  shows "handles_ok (fst (handle_run ops (tb, c)))" "handles_ok tb"
proof -
  have lim: "0 < limit" "limit \<le> NATIVE_HANDLE_LIMIT"
    using assms by (auto simp: native_handle_table_initialize_def split: if_splits)
  show "handles_ok tb"
    using initialize_ok [OF lim, of t0] assms by (metis old.prod.inject option.inject)
  then show "handles_ok (fst (handle_run ops (tb, c)))"
    unfolding handle_run_def by (intro handle_tokens.inv_run) simp
qed

text \<open>
  C4. Initialise a table with any admissible limit and make any sequence of install, duplicate,
  close and close-all calls, with any handles and any callbacks. Then \<open>active_handles\<close> and
  \<open>active_objects\<close> count exactly the active slots and objects; every active slot lies below the
  limit and refers to an active object of its own type; and every active object has at least one
  slot and a reference count that is exactly the number of slots that refer to it.
\<close>

theorem handle_table_consistent:
  assumes "native_handle_table_initialize (Some t0) limit = (NATIVE_HANDLE_OK, Some tb)"
    and "u = fst (handle_run ops (tb, c))"
  shows "ht_active_handles u = card {i. i < NATIVE_HANDLE_LIMIT \<and> slot_active (ht_slots u ! i)} \<and>
    ht_active_objects u = card {j. j < NATIVE_HANDLE_LIMIT \<and> obj_active (ht_objects u ! j)} \<and>
    (\<forall>i < NATIVE_HANDLE_LIMIT. slot_active (ht_slots u ! i) \<longrightarrow> i < ht_limit u \<and>
       obj_active (ht_objects u ! slot_object_index (ht_slots u ! i)) \<and>
       obj_type (ht_objects u ! slot_object_index (ht_slots u ! i)) = slot_type (ht_slots u ! i)) \<and>
    (\<forall>j < NATIVE_HANDLE_LIMIT. obj_active (ht_objects u ! j) \<longrightarrow>
       0 < obj_references (ht_objects u ! j) \<and>
       obj_references (ht_objects u ! j) =
         card {i. i < NATIVE_HANDLE_LIMIT \<and> refers j (ht_slots u ! i)})"
proof -
  have ok: "handles_ok u" unfolding assms(2) by (rule run_from_initialize [OF assms(1)])
  note D = handles_okD [OF ok]
  show ?thesis
    using D(7) active_slotD(1,4,5) [OF ok _ _ refl]
    by (auto simp: D(8,9) count_if_card D(4,5) object_ok_def Let_def)
qed

text \<open>
  C8. A handle that \<open>native_handle_install\<close> returns is new and resolves at once: before the call
  the table refused it, after the call it resolves, under its own type or under type 0, to an object
  that holds exactly the installed resource. Every handle that resolved before still resolves to
  the same, unchanged object.
\<close>

theorem handle_install_resolve:
  assumes "handles_ok tb"
    and "native_handle_install (Some tb) t (Some r) (Some h0) = (NATIVE_HANDLE_OK, Some tb', Some h)"
  shows "native_handle_resolve (Some tb) h t True = Inl NATIVE_HANDLE_STALE \<and>
    (\<exists>j. native_handle_resolve (Some tb') h t True = Inr j \<and>
       native_handle_resolve (Some tb') h 0 True = Inr j \<and> obj_resource (ht_objects tb' ! j) = r) \<and>
    (\<forall>h' u k. native_handle_resolve (Some tb) h' u True = Inr k \<longrightarrow>
       native_handle_resolve (Some tb') h' u True = Inr k \<and> ht_objects tb' ! k = ht_objects tb ! k)"
proof -
  obtain i j where ij: "i < ht_limit tb" "j < ht_limit tb"
    "\<not> slot_active (ht_slots tb ! i)" "\<not> obj_active (ht_objects tb ! j)"
    and tb': "tb' = installed tb i j t r"
    and h: "h = encode_handle i t (slot_generation (ht_slots tb ! i))"
    using assms by (auto elim!: install_OK)
  note tb' = tb' [unfolded installed_def] and D = handles_okD [OF assms(1)]
  have len: "i < 128" "j < 128" using ij D(3) by auto
  have ok': "handles_ok tb'" by (rule install_ok [OF assms])
  have "handle_index h - 1 = i" using encode_handle_fields(1) [of i] len by (simp add: h)
  then have stale: "native_handle_resolve (Some tb) h t True = Inl NATIVE_HANDLE_STALE"
    by (rule resolve_inactive [OF assms(1) _ ij(3)])
  have slot': "ht_slots tb' ! i = (ht_slots tb ! i)\<lparr>slot_object_index := j,
       slot_type := t, slot_active := True\<rparr>"
    using len D(4) by (simp add: tb')
  then have "decode_slot (Some tb') h = Inr i"
    using decode_slot_active [OF ok', of i] ij(1) by (simp add: h tb')
  then have new: "native_handle_resolve (Some tb') h t True = Inr j"
    "native_handle_resolve (Some tb') h 0 True = Inr j" "obj_resource (ht_objects tb' ! j) = r"
    using slot' len D(5) by (simp_all add: resolve_ok_iff [OF ok'], simp add: tb')
  have old: "native_handle_resolve (Some tb') h' u True = Inr k \<and> ht_objects tb' ! k = ht_objects tb ! k"
    if res: "native_handle_resolve (Some tb) h' u True = Inr k" for h' u k
  proof -
    obtain m where m: "decode_slot (Some tb) h' = Inr m" "u = 0 \<or> u = slot_type (ht_slots tb ! m)"
      "k = slot_object_index (ht_slots tb ! m)"
      using res by (auto simp: resolve_ok_iff [OF assms(1)])
    note M = decode_slotD(2,3) [OF m(1) assms(1)]
    have kept: "ht_slots tb' ! m = ht_slots tb ! m"
      using M(2) ij(3) by (cases "m = i") (auto simp: tb')
    then have "decode_slot (Some tb') h' = Inr m"
      using m(1) handles_okD(1) [OF ok'] by (rule decode_slot_cong) (simp add: tb')
    moreover have "k \<noteq> j" using active_slotD(4) [OF assms(1) M m(3)] ij(4) by auto
    then have "ht_objects tb' ! k = ht_objects tb ! k" by (simp add: tb')
    ultimately show ?thesis
      using m kept by (auto simp: resolve_ok_iff [OF ok'])
  qed
  show ?thesis
    by (intro conjI exI [of _ j] allI impI stale new)
       (erule old [THEN conjunct1], erule old [THEN conjunct2])
qed

text \<open>
  C9. A duplicate names the same object as its source under a different handle, and the two are
  independent: closing the source with any callback succeeds without calling it, the context is
  left as it was, the source is refused from then on, and the duplicate still resolves to the same
  resource.
\<close>

theorem handle_duplicate_shares:
  assumes "handles_ok tb"
    and "native_handle_duplicate (Some tb) src (Some h0) = (NATIVE_HANDLE_OK, Some tb', Some h)"
  shows "h \<noteq> src \<and> (\<exists>j tb''.
    native_handle_resolve (Some tb) src 0 True = Inr j \<and>
    native_handle_resolve (Some tb') src 0 True = Inr j \<and>
    native_handle_resolve (Some tb') h 0 True = Inr j \<and>
    native_handle_close (Some tb') src f c = (NATIVE_HANDLE_OK, Some tb'', c) \<and>
    native_handle_resolve (Some tb'') src 0 True = Inl NATIVE_HANDLE_STALE \<and>
    native_handle_resolve (Some tb'') h 0 True = Inr j \<and>
    obj_resource (ht_objects tb'' ! j) = obj_resource (ht_objects tb ! j))"
proof -
  obtain s i j where parts: "decode_slot (Some tb) src = Inr s" "i < ht_limit tb"
    "\<not> slot_active (ht_slots tb ! i)" "j = slot_object_index (ht_slots tb ! s)"
    and tb': "tb' = duplicated tb s i j"
    and h: "h = encode_handle i (slot_type (ht_slots tb ! s)) (slot_generation (ht_slots tb ! i))"
    using assms by (auto elim!: duplicate_OK)
  note tb' = tb' [unfolded duplicated_def] and D = handles_okD [OF assms(1)] and S = decode_slotD [OF parts(1) assms(1)]
  note A = active_slotD [OF assms(1) S(2,3) parts(4)]
  have ok': "handles_ok tb'" by (rule duplicate_ok [OF assms])
  have si: "s \<noteq> i" using S(3) parts(3) by auto
  have len: "i < 128" "j < 128" using parts(2) A(3) D(3) by auto
  have slots': "ht_slots tb' ! s = ht_slots tb ! s" "ht_slots tb' ! i = (ht_slots tb ! i)
      \<lparr>slot_object_index := j, slot_type := slot_type (ht_slots tb ! s), slot_active := True\<rparr>"
    using si len D(4) by (auto simp: tb')
  have dec: "decode_slot (Some tb') src = Inr s" "decode_slot (Some tb') h = Inr i"
    using decode_slot_cong [OF slots'(1) parts(1) handles_okD(1) [OF ok']]
      decode_slot_active [OF ok', of i] parts(2) by (auto simp: tb' h slots' [unfolded tb', simplified])
  have refs: "1 < obj_references (ht_objects tb' ! j)" "obj_references (ht_objects tb' ! j) < 65536"
    using A(6,7) count_bound [OF D(4), of "refers j"] len D(5) by (simp_all add: tb' no_wrap)
  let ?u = "retire_slot tb' s j"
  have oku: "handles_ok ?u"
    using retire_slot_ok [OF ok' S(2)] S(3) slots'(1) parts(4) by simp
  have close: "native_handle_close (Some tb') src f c = (NATIVE_HANDLE_OK, Some ?u, c)"
    using active_slotD(8) [OF ok' decode_slotD(2,3) [OF dec(1) ok'] refl] refs dec(1)
    by (simp add: native_handle_close_def close_valid_slot_eq close_outcome_def close_calls_def
        Let_def slots' parts(4))
  have slotsu: "\<not> slot_active (ht_slots ?u ! s)" "ht_slots ?u ! i = ht_slots tb' ! i"
    using S(2) handles_okD(4) [OF ok'] si by (auto simp: retire_slot_def Let_def)
  have stale: "native_handle_resolve (Some ?u) src 0 True = Inl NATIVE_HANDLE_STALE"
    by (rule resolve_inactive [OF oku decode_slot_index [OF dec(1)] slotsu(1)])
  have decu: "decode_slot (Some ?u) h = Inr i"
    using decode_slot_cong [OF slotsu(2) dec(2) handles_okD(1) [OF oku]]
    by (simp add: retire_slot_def Let_def)
  have resource: "obj_resource (ht_objects ?u ! j) = obj_resource (ht_objects tb ! j)"
    using refs len D(5) dec16_exact [of "obj_references (ht_objects tb' ! j)"]
    by (auto simp: retire_slot_def Let_def tb')
  have "h \<noteq> src" using dec si by auto
  moreover have "native_handle_resolve (Some tb) src 0 True = Inr j"
    using parts(1,4) by (simp add: resolve_ok_iff [OF assms(1)])
  moreover have "native_handle_resolve (Some tb') src 0 True = Inr j"
    "native_handle_resolve (Some tb') h 0 True = Inr j"
    using dec parts(4) slots' by (simp_all add: resolve_ok_iff [OF ok'])
  moreover have "native_handle_resolve (Some ?u) h 0 True = Inr j"
    using decu slotsu(2) slots'(2) by (simp add: resolve_ok_iff [OF oku])
  ultimately show ?thesis
    by (intro conjI exI [of _ j] exI [of _ ?u]) (use close stale resource in simp_all)
qed

lemma active_objects_le:
  assumes ok: "handles_ok tb"
  shows "ht_active_objects tb \<le> ht_active_handles tb"
    "\<And>j. j < NATIVE_HANDLE_LIMIT \<Longrightarrow> obj_active (ht_objects tb ! j) \<Longrightarrow> j < ht_limit tb"
proof -
  note D = handles_okD [OF ok]
  let ?S = "{i. i < 128 \<and> slot_active (ht_slots tb ! i)}"
  let ?O = "{j. j < 128 \<and> obj_active (ht_objects tb ! j)}"
  have named: "\<exists>i \<in> ?S. slot_object_index (ht_slots tb ! i) = j"
    if "j < 128" "obj_active (ht_objects tb ! j)" for j
  proof -
    have "count_if (refers j) (ht_slots tb) \<noteq> 0"
      using D(7) [OF that(1)] that(2) by (auto simp: object_ok_def Let_def)
    then show ?thesis by (auto simp: count_if_zero_iff refers_def in_set_conv_nth D(4))
  qed
  then have "?O \<subseteq> (\<lambda>i. slot_object_index (ht_slots tb ! i)) ` ?S" by fastforce
  then have "card ?O \<le> card ?S" by (intro surj_card_le) auto
  then show "ht_active_objects tb \<le> ht_active_handles tb"
    using D(4,5,8,9) by (simp add: count_if_card)
  show "j < ht_limit tb" if "j < 128" "obj_active (ht_objects tb ! j)" for j
    using named [OF that] active_slotD(3) [OF ok _ _ refl] by auto
qed

text \<open>
  C10. Installing into a consistent table fails for two reasons only, a type the header does not name
  and a table whose handles are all in use; there is never a free handle without a free object. A
  refused install leaves the table as it was and reports the invalid handle.
\<close>

theorem handle_install_status:
  assumes "handles_ok tb"
  shows "fst (native_handle_install (Some tb) t (Some r) (Some h0)) =
    (if \<not> valid_type t then NATIVE_HANDLE_BAD_TYPE
     else if ht_active_handles tb < ht_limit tb then NATIVE_HANDLE_OK else NATIVE_HANDLE_FULL) \<and>
    (fst (native_handle_install (Some tb) t (Some r) (Some h0)) \<noteq> NATIVE_HANDLE_OK \<longrightarrow>
     snd (native_handle_install (Some tb) t (Some r) (Some h0)) = (Some tb, Some RSD_HANDLE_INVALID))"
proof -
  note D = handles_okD [OF assms]
  have slots: "count_if slot_active (take (ht_limit tb) (ht_slots tb)) = ht_active_handles tb"
    using count_take_limit [OF D(4,3), of slot_active] active_slotD(1) [OF assms _ _ refl] D(8) by simp
  have objs: "count_if obj_active (take (ht_limit tb) (ht_objects tb)) = ht_active_objects tb"
    using count_take_limit [OF D(5,3), of obj_active] active_objects_le(2) [OF assms] D(9) by simp
  have len: "length (take (ht_limit tb) (ht_slots tb)) = ht_limit tb"
    "length (take (ht_limit tb) (ht_objects tb)) = ht_limit tb" using D(3-5) by simp_all
  show ?thesis
  proof (cases "ht_active_handles tb < ht_limit tb")
    case True
    obtain i j where "first_index (\<lambda>s. \<not> slot_active s) (take (ht_limit tb) (ht_slots tb)) = Some i"
      "first_index (\<lambda>ob. \<not> obj_active ob) (take (ht_limit tb) (ht_objects tb)) = Some j"
      using first_index_not_full [of slot_active "take (ht_limit tb) (ht_slots tb)"]
        first_index_not_full [of obj_active "take (ht_limit tb) (ht_objects tb)"]
        True active_objects_le(1) [OF assms] slots objs len by (metis le_less_trans)
    then show ?thesis using True D(1) by (simp add: native_handle_install_def)
  next
    case False
    then have "count_if slot_active (take (ht_limit tb) (ht_slots tb)) = ht_limit tb"
      using slots count_if_le [of slot_active "take (ht_limit tb) (ht_slots tb)"] len by simp
    then have "first_index (\<lambda>s. \<not> slot_active s) (take (ht_limit tb) (ht_slots tb)) = None"
      using count_if_full_iff [of slot_active "take (ht_limit tb) (ht_slots tb)"] len
      by (simp add: first_index_None_iff)
    then show ?thesis using False D(1) by (simp add: native_handle_install_def)
  qed
qed

lemma close_OK:
  assumes "native_handle_close (Some tb) h f c = (NATIVE_HANDLE_OK, Some tb', c')"
  obtains s where "decode_slot (Some tb) h = Inr s"
    "tb' = retire_slot tb s (slot_object_index (ht_slots tb ! s))"
  using assms
  by (auto simp: native_handle_close_def Let_def close_valid_slot_eq split: sum.splits if_splits)

text \<open>
  C5. A handle that has been closed stays closed. After a successful \<open>native_handle_close\<close> and any
  further sequence of fewer than \<open>2 ^ 32 - 2\<close> operations on the table, also ones that hand the
  same slot out again, resolving, closing and duplicating the old handle are all refused as stale,
  and the refused calls change neither the table nor the callback context.
\<close>

theorem handle_closed_stays_stale:
  assumes "handles_ok tb"
    and "native_handle_close (Some tb) h f c = (NATIVE_HANDLE_OK, Some tb', c')"
    and "length ops < 2 ^ 32 - 2" and "u = fst (handle_run ops (tb', c'))"
  shows "native_handle_resolve (Some u) h t True = Inl NATIVE_HANDLE_STALE \<and>
    native_handle_close (Some u) h g d = (NATIVE_HANDLE_STALE, Some u, d) \<and>
    native_handle_duplicate (Some u) h (Some h0) =
      (NATIVE_HANDLE_STALE, Some u, Some RSD_HANDLE_INVALID)"
proof -
  obtain s where s: "decode_slot (Some tb) h = Inr s"
    and tb': "tb' = retire_slot tb s (slot_object_index (ht_slots tb ! s))"
    using assms(2) by (rule close_OK)
  note S = decode_slotD [OF s assms(1)]
  have ok': "handles_ok tb'" unfolding tb' by (rule retire_slot_ok [OF assms(1) S(2,3) refl])
  have gen: "handle_issue (tb', c') s = next_generation (handle_generation h)"
    using S(2,4) handles_okD(4) [OF assms(1)] by (simp add: handle_issue_def tb' retire_slot_generation)
  have "handle_generation h \<noteq> 0"
    using handles_okD(6) [OF assms(1) S(2)] S(1,4) by (simp add: slot_ok_def Let_def)
  then have "handle_issue (fold handle_step ops (tb', c')) s \<noteq> handle_generation h"
    using ok' S(2) assms(3) by (intro handle_tokens.retired_not_issued [OF _ _ gen]) auto
  then have "slot_generation (ht_slots u ! s) \<noteq> handle_generation h"
    by (simp add: assms(4) handle_run_def handle_issue_def)
  moreover have "handles_ok u"
    unfolding assms(4) handle_run_def using ok' by (intro handle_tokens.inv_run) simp
  ultimately have "decode_slot (Some u) h = Inl NATIVE_HANDLE_STALE"
    using decode_slot_index [OF s] handles_okD(1-3) [of u] by (simp add: decode_slot_def Let_def)
  then show ?thesis
    by (simp add: native_handle_resolve_def native_handle_close_def native_handle_duplicate_def)
qed


text \<open>
  C7. The report of a close-all adds up. Every handle that was active is attempted exactly once and is
  either retired or retained; the retired ones are the duplicate references, the resources closed
  and the resources consumed with an error; the handles still active afterwards are the retained
  ones; a callback, when there is one, is attempted once for every resource closed, consumed or
  retained. No entry is reported stale or invalid, the entries beyond the report's capacity are
  counted as omitted, the call fails exactly when some resource was retained or consumed with an
  error, and it is retryable exactly when some resource was retained.
\<close>

theorem handle_close_all_balance:
  assumes "handles_ok tb"
    and "native_handle_close_all_diagnostics (Some tb) f c (Some r0) = (s, Some tb', c', Some r)"
  shows "handles_ok tb' \<and>
    cr_attempted_handles r = ht_active_handles tb \<and>
    cr_attempted_handles r = cr_retired_handles r + cr_retained_resources r \<and>
    cr_retired_handles r =
      cr_duplicate_references r + cr_closed_resources r + cr_consumed_error_resources r \<and>
    ht_active_handles tb' = cr_retained_resources r \<and>
    ht_active_objects tb' + cr_closed_resources r + cr_consumed_error_resources r = ht_active_objects tb \<and>
    cr_callback_attempts r = (if f = None then 0
      else cr_closed_resources r + cr_consumed_error_resources r + cr_retained_resources r) \<and>
    cr_stale_entries r = 0 \<and> cr_invalid_entries r = 0 \<and>
    cr_omitted_entries r = cr_attempted_handles r - NATIVE_HANDLE_CLOSE_REPORT_CAPACITY \<and>
    (s = NATIVE_HANDLE_OK \<longleftrightarrow> cr_retained_resources r = 0 \<and> cr_consumed_error_resources r = 0) \<and>
    (cr_retryable r \<longleftrightarrow> cr_retained_resources r \<noteq> 0)"
proof -
  note D = handles_okD [OF assms(1)]
  let ?r1 = "native_handle_close_report_reset\<lparr>cr_active_handles_before := ht_active_handles tb,
    cr_active_objects_before := ht_active_objects tb\<rparr>"
  obtain u c1 o1 b1 where run: "fold (close_all_step f) [0 ..< ht_limit tb] (tb, c, Some ?r1, False)
      = (u, c1, o1, b1)"
    by (metis prod_cases4)
  have "close_census (f \<noteq> None) 0 tb ?r1 False"
    using count_if_le [of slot_active "ht_slots tb"] D(4,8)
    by (simp add: close_census_def native_handle_close_report_reset_def)
  then obtain r1 where r1: "o1 = Some r1" and census: "close_census (f \<noteq> None) (ht_limit tb) u r1 b1"
    and before: "cr_active_handles_before r1 = ht_active_handles tb"
      "cr_active_objects_before r1 = ht_active_objects tb"
    using close_census_fold [OF run assms(1) refl] by auto
  have u: "handles_ok u" "ht_limit u = ht_limit tb" using close_all_fold_ok [OF run assms(1)] by auto
  have none: "count_if slot_active (drop (ht_limit tb) (ht_slots u)) = 0"
    using count_drop_limit [OF handles_okD(4,3) [OF u(1)], of slot_active]
      active_slotD(1) [OF u(1) _ _ refl] u(2) by simp
  have "u = tb'" "s = (if b1 then NATIVE_HANDLE_CLOSE_FAILED else NATIVE_HANDLE_OK)"
    "r = report_flags (report_after u s r1)"
    using assms(2) run r1
    by (auto simp: native_handle_close_all_diagnostics_def close_all_impl_eq [OF assms(1)] Let_def)
  then show ?thesis
    using census none before u(1)
    by (auto simp: close_census_def report_flags_def report_after_def)
qed

text \<open>
  C6. Closing all handles with a callback that always consumes what it is given closes every live
  resource exactly once, whatever the sharing between handles: the multiset of (type, resource)
  pairs passed to the callback is the multiset of the table's live objects, and afterwards no slot
  and no object is active.
\<close>

theorem handle_close_all_once:
  assumes "handles_ok tb" "never_retains g"
    and "native_handle_close_all (Some tb) (Some (logged g)) (c, []) = (s, Some tb', (c', log))"
  shows "mset log = live_objects tb \<and> ht_active_handles tb' = 0 \<and> ht_active_objects tb' = 0 \<and>
    (\<forall>i < NATIVE_HANDLE_LIMIT. \<not> slot_active (ht_slots tb' ! i))"
proof -
  obtain r1 b1 where run: "fold (close_all_step (Some (logged g))) [0 ..< ht_limit tb] (tb, (c, []), None, False)
      = (tb', (c', log), r1, b1)"
    using assms(3) by (auto simp: native_handle_close_all_def close_all_impl_eq [OF assms(1)]
        Let_def split: prod.splits)
  have ok': "handles_ok tb'" "ht_limit tb' = ht_limit tb"
    using close_all_fold_ok [OF run assms(1)] by auto
  have log: "mset log + live_objects tb' = live_objects tb"
    and gone: "\<And>k. slot_active (ht_slots tb' ! k) \<Longrightarrow> \<not> k < ht_limit tb"
    using close_all_fold_log [OF run assms(1) _ assms(2)] by auto
  have idle: "\<not> slot_active (ht_slots tb' ! i)" if "i < NATIVE_HANDLE_LIMIT" for i
    using gone active_slotD(1) [OF ok'(1) that _ refl] ok'(2) by auto
  note D = handles_okD [OF ok'(1)]
  have handles: "ht_active_handles tb' = 0"
    using idle by (auto simp: D(8) count_if_zero_iff in_set_conv_nth D(4))
  then have objects: "ht_active_objects tb' = 0" using active_objects_le(1) [OF ok'(1)] by simp
  then have "filter_mset obj_active (mset (ht_objects tb')) = {#}"
    by (simp add: D(9) count_if_zero_iff flip: mset_filter)
  then have "live_objects tb' = {#}" by (simp add: live_objects_def)
  with log handles objects idle show ?thesis by simp
qed


section \<open>Witnesses\<close>

text \<open>A table of two handles, and the same table with one file installed.\<close>

abbreviation demo_resource :: native_resource where
  "demo_resource \<equiv> [0x5341504F5445, 0, 0, 0]"

definition blank_table :: native_handle_table where
  "blank_table = \<lparr>ht_slots = replicate NATIVE_HANDLE_LIMIT empty_slot,
     ht_objects = replicate NATIVE_HANDLE_LIMIT zero_object, ht_limit = 0, ht_active_handles = 0,
     ht_active_objects = 0, ht_initialized = False\<rparr>"

definition demo_table :: native_handle_table where
  "demo_table = the (snd (native_handle_table_initialize (Some blank_table) 2))"

definition demo_installed :: native_handle_table where
  "demo_installed = installed demo_table 0 0 RSD_HANDLE_FILE demo_resource"

lemma demo_initialize:
  "native_handle_table_initialize (Some blank_table) 2 = (NATIVE_HANDLE_OK, Some demo_table)"
  by (simp add: demo_table_def native_handle_table_initialize_def)

lemmas demo_ok = run_from_initialize(2) [OF demo_initialize]

lemma valid_type_file: "valid_type RSD_HANDLE_FILE"
  by (simp add: valid_type_def word_le_nat_alt)

lemma demo_install:
  "native_handle_install (Some demo_table) RSD_HANDLE_FILE (Some demo_resource) (Some 0) =
     (NATIVE_HANDLE_OK, Some demo_installed, Some (encode_handle 0 RSD_HANDLE_FILE 1))"
  by (simp add: native_handle_install_def demo_installed_def installed_def demo_table_def
      native_handle_table_initialize_def valid_type_file take_map empty_slot_def zero_object_def
      upt_rec numeral_2_eq_2)

lemmas demo_installed_ok = install_ok [OF demo_ok demo_install]

lemma demo_duplicate:
  obtains tb h where "native_handle_duplicate (Some demo_installed) (encode_handle 0 RSD_HANDLE_FILE 1)
      (Some 0) = (NATIVE_HANDLE_OK, Some tb, Some h)"
proof -
  have slot: "ht_slots demo_installed ! 0 = \<lparr>slot_generation = 1, slot_object_index = 0,
      slot_type = RSD_HANDLE_FILE, slot_active = True\<rparr>"
    "ht_limit demo_installed = 2" "ht_active_handles demo_installed = 1"
    "ht_objects demo_installed ! 0 = \<lparr>obj_resource = demo_resource, obj_references = 1,
       obj_type = RSD_HANDLE_FILE, obj_active = True\<rparr>"
    "first_index (\<lambda>s. \<not> slot_active s) (take 2 (ht_slots demo_installed)) = Some 1"
    by (simp_all add: demo_installed_def installed_def demo_table_def native_handle_table_initialize_def
        empty_slot_def inc16_def take_update_swap take_map upt_rec numeral_2_eq_2)
  have "decode_slot (Some demo_installed) (encode_handle 0 RSD_HANDLE_FILE 1) = Inr 0"
    using decode_slot_active [OF demo_installed_ok, of 0] by (simp add: slot)
  then show thesis
    by (intro that) (simp add: native_handle_duplicate_def slot)
qed


theorem handle_table_consistent_witness:
  "let u = fst (handle_run [Handle_install RSD_HANDLE_FILE demo_resource,
         Handle_close_all (None :: unit native_handle_close_fn option)] (demo_table, ()))
   in ht_active_handles u = card {i. i < NATIVE_HANDLE_LIMIT \<and> slot_active (ht_slots u ! i)}"
  unfolding Let_def by (rule handle_table_consistent [OF demo_initialize refl, THEN conjunct1])

theorem handle_install_status_witness:
  "handles_ok demo_table \<and>
   fst (native_handle_install (Some demo_table) 0 (Some demo_resource) (Some 0)) = NATIVE_HANDLE_BAD_TYPE"
  using handle_install_status [OF demo_ok, of 0 demo_resource 0] demo_ok by (simp add: valid_type_def)

theorem handle_install_resolve_witness:
  "\<exists>j. native_handle_resolve (Some demo_installed) (encode_handle 0 RSD_HANDLE_FILE 1) RSD_HANDLE_FILE True
     = Inr j \<and> obj_resource (ht_objects demo_installed ! j) = demo_resource"
  using handle_install_resolve [OF demo_ok demo_install] by blast

theorem handle_duplicate_shares_witness:
  "\<exists>tb h. native_handle_duplicate (Some demo_installed) (encode_handle 0 RSD_HANDLE_FILE 1) (Some 0)
     = (NATIVE_HANDLE_OK, Some tb, Some h) \<and> h \<noteq> encode_handle 0 RSD_HANDLE_FILE 1"
proof -
  obtain tb h where dup: "native_handle_duplicate (Some demo_installed)
      (encode_handle 0 RSD_HANDLE_FILE 1) (Some 0) = (NATIVE_HANDLE_OK, Some tb, Some h)"
    by (rule demo_duplicate)
  show ?thesis using handle_duplicate_shares [OF demo_installed_ok dup, of None "()"] dup by blast
qed

lemma demo_close:
  obtains tb where "native_handle_close (Some demo_installed) (encode_handle 0 RSD_HANDLE_FILE 1)
      (None :: unit native_handle_close_fn option) () = (NATIVE_HANDLE_OK, Some tb, ())"
proof -
  have slot: "ht_slots demo_installed ! 0 = \<lparr>slot_generation = 1, slot_object_index = 0,
      slot_type = RSD_HANDLE_FILE, slot_active = True\<rparr>" "ht_limit demo_installed = 2"
    "ht_objects demo_installed ! 0 = \<lparr>obj_resource = demo_resource, obj_references = 1,
       obj_type = RSD_HANDLE_FILE, obj_active = True\<rparr>"
    by (simp_all add: demo_installed_def installed_def demo_table_def native_handle_table_initialize_def
        empty_slot_def upt_rec)
  have "decode_slot (Some demo_installed) (encode_handle 0 RSD_HANDLE_FILE 1) = Inr 0"
    using decode_slot_active [OF demo_installed_ok, of 0] by (simp add: slot)
  then show thesis
    by (intro that) (simp add: native_handle_close_def valid_slot_object_def close_valid_slot_eq
      close_outcome_def close_calls_def slot)
qed

theorem handle_closed_stays_stale_witness:
  "\<exists>tb. native_handle_close (Some demo_installed) (encode_handle 0 RSD_HANDLE_FILE 1)
      (None :: unit native_handle_close_fn option) () = (NATIVE_HANDLE_OK, Some tb, ()) \<and>
    native_handle_resolve (Some (fst (handle_run [Handle_install RSD_HANDLE_FILE demo_resource] (tb, ()))))
      (encode_handle 0 RSD_HANDLE_FILE 1) 0 True = Inl NATIVE_HANDLE_STALE"
proof -
  obtain tb where tb: "native_handle_close (Some demo_installed) (encode_handle 0 RSD_HANDLE_FILE 1)
      (None :: unit native_handle_close_fn option) () = (NATIVE_HANDLE_OK, Some tb, ())"
    by (rule demo_close)
  have "length [Handle_install RSD_HANDLE_FILE demo_resource :: unit handle_op] < 2 ^ 32 - 2" by simp
  note stale = handle_closed_stays_stale [OF demo_installed_ok tb this refl, of 0 None "()" 0]
  show ?thesis by (intro exI [of _ tb] conjI tb stale [THEN conjunct1])
qed

lemma close_all_returns:
  assumes "handles_ok tb"
  obtains s tb' c' r where
    "native_handle_close_all_diagnostics (Some tb) f c (Some r0) = (s, Some tb', c', Some r)"
proof -
  let ?r1 = "native_handle_close_report_reset\<lparr>cr_active_handles_before := ht_active_handles tb,
    cr_active_objects_before := ht_active_objects tb\<rparr>"
  obtain u c1 o1 b1 where run: "fold (close_all_step f) [0 ..< ht_limit tb] (tb, c, Some ?r1, False)
      = (u, c1, o1, b1)"
    by (metis prod_cases4)
  have "close_census (f \<noteq> None) 0 tb ?r1 False"
    using count_if_le [of slot_active "ht_slots tb"] handles_okD(4,8) [OF assms]
    by (simp add: close_census_def native_handle_close_report_reset_def)
  then obtain r1 where "o1 = Some r1" using close_census_fold [OF run assms refl] by auto
  with run that show thesis
    by (simp add: native_handle_close_all_diagnostics_def close_all_impl_eq [OF assms] Let_def)
qed

theorem handle_close_all_balance_witness:
  "\<exists>s tb' r. native_handle_close_all_diagnostics (Some demo_installed)
      (None :: unit native_handle_close_fn option) () (Some native_handle_close_report_reset) =
      (s, Some tb', (), Some r) \<and> cr_attempted_handles r = ht_active_handles demo_installed"
proof -
  obtain s tb' c' r where call: "native_handle_close_all_diagnostics (Some demo_installed)
      (None :: unit native_handle_close_fn option) () (Some native_handle_close_report_reset) =
      (s, Some tb', c', Some r)"
    by (rule close_all_returns [OF demo_installed_ok])
  show ?thesis using handle_close_all_balance [OF demo_installed_ok call] call by auto
qed

theorem handle_close_all_once_witness:
  "\<exists>s tb' c' log. native_handle_close_all (Some demo_installed)
      (Some (logged (\<lambda>t r (c :: unit). (NATIVE_RESOURCE_CLOSED, c)))) ((), []) =
      (s, Some tb', (c', log)) \<and> mset log = live_objects demo_installed"
proof -
  let ?g = "\<lambda>(t :: u8) (r :: native_resource) (c :: unit). (NATIVE_RESOURCE_CLOSED, c)"
  have g: "never_retains ?g" by (simp add: never_retains_def)
  obtain s tb' c' log where call:
    "native_handle_close_all (Some demo_installed) (Some (logged ?g)) ((), []) = (s, Some tb', (c', log))"
    using close_all_impl_eq [OF demo_installed_ok, of "Some (logged ?g)" "((), [])" None]
    by (auto simp: native_handle_close_all_def Let_def split: prod.splits)
  show ?thesis using handle_close_all_once [OF demo_installed_ok g call] call by blast
qed

text \<open>
  C11. The handle encoding is a bijection between its fields and the words the kernel accepts: for a
  slot index below 65535 the index, type and generation are read back unchanged and the reserved
  byte is zero, and every word with a nonzero index field and a zero reserved byte is the encoding
  of its own fields.
\<close>

theorem handle_encoding_roundtrip:
  "(index < 65535 \<longrightarrow>
     handle_index (encode_handle index t g) = index + 1 \<and> handle_type (encode_handle index t g) = t \<and>
     handle_reserved (encode_handle index t g) = 0 \<and> handle_generation (encode_handle index t g) = g) \<and>
   (handle_index h \<noteq> 0 \<and> handle_reserved h = 0 \<longrightarrow>
     encode_handle (handle_index h - 1) (handle_type h) (handle_generation h) = h)"
  using encode_handle_fields [of index t g] encode_decode [of h] by blast

theorem handle_encoding_roundtrip_witness:
  "handle_index (encode_handle 5 RSD_HANDLE_FILE 7) = 6 \<and>
   encode_handle (handle_index 0x0000000700010006 - 1) (handle_type 0x0000000700010006)
     (handle_generation 0x0000000700010006) = 0x0000000700010006"
proof -
  have "handle_index 0x0000000700010006 \<noteq> 0" "handle_reserved 0x0000000700010006 = 0"
    by (simp_all add: handle_index_def handle_reserved_def)
  then show ?thesis
    using handle_encoding_roundtrip [of 5 RSD_HANDLE_FILE 7 "0x0000000700010006"] by simp
qed

end
