(* ===== verification/Multiboot.thy ===== *)
theory Multiboot
  imports Prelude
begin

text \<open>
  The Multiboot2 information parser, \<open>src/kernel/multiboot2.c\<close>. The loader's block is read from
  physical memory, a function from addresses to bytes, through the identity map; packed struct
  fields are little-endian loads. Pointers into the block are addresses, \<open>None\<close> being NULL. The
  parser's context is a record, and a call returns its status with the context it leaves.
\<close>

section \<open>Data\<close>

type_synonym memory = "nat \<Rightarrow> u8"

abbreviation (input) MULTIBOOT2_BOOT_MAGIC :: nat where "MULTIBOOT2_BOOT_MAGIC \<equiv> 0x36D76289"
abbreviation (input) MULTIBOOT2_TAG_ALIGNMENT :: nat where "MULTIBOOT2_TAG_ALIGNMENT \<equiv> 8"
abbreviation (input) MULTIBOOT2_MAX_INFORMATION_SIZE :: nat where
  "MULTIBOOT2_MAX_INFORMATION_SIZE \<equiv> 16 * 1024 * 1024"
abbreviation (input) RSD_EARLY_PHYSICAL_LIMIT :: nat where "RSD_EARLY_PHYSICAL_LIMIT \<equiv> 0x100000000"
abbreviation (input) MULTIBOOT2_TAG_END :: nat where "MULTIBOOT2_TAG_END \<equiv> 0"
abbreviation (input) MULTIBOOT2_TAG_COMMAND_LINE :: nat where "MULTIBOOT2_TAG_COMMAND_LINE \<equiv> 1"
abbreviation (input) MULTIBOOT2_TAG_BOOT_LOADER_NAME :: nat where "MULTIBOOT2_TAG_BOOT_LOADER_NAME \<equiv> 2"
abbreviation (input) MULTIBOOT2_TAG_MODULE :: nat where "MULTIBOOT2_TAG_MODULE \<equiv> 3"
abbreviation (input) MULTIBOOT2_TAG_MEMORY_MAP :: nat where "MULTIBOOT2_TAG_MEMORY_MAP \<equiv> 6"
abbreviation (input) MULTIBOOT2_TAG_FRAMEBUFFER :: nat where "MULTIBOOT2_TAG_FRAMEBUFFER \<equiv> 8"
abbreviation (input) MULTIBOOT2_TAG_ACPI_OLD :: nat where "MULTIBOOT2_TAG_ACPI_OLD \<equiv> 14"
abbreviation (input) MULTIBOOT2_TAG_ACPI_NEW :: nat where "MULTIBOOT2_TAG_ACPI_NEW \<equiv> 15"
abbreviation (input) MULTIBOOT2_MEMORY_AVAILABLE :: nat where "MULTIBOOT2_MEMORY_AVAILABLE \<equiv> 1"
abbreviation (input) MULTIBOOT2_FRAMEBUFFER_COMMON_SIZE :: nat where
  "MULTIBOOT2_FRAMEBUFFER_COMMON_SIZE \<equiv> 32"
abbreviation (input) MULTIBOOT2_FRAMEBUFFER_RGB_SIZE :: nat where "MULTIBOOT2_FRAMEBUFFER_RGB_SIZE \<equiv> 38"
abbreviation (input) MULTIBOOT2_FRAMEBUFFER_TYPE_RGB :: nat where "MULTIBOOT2_FRAMEBUFFER_TYPE_RGB \<equiv> 1"
abbreviation (input) BOOT_FRAMEBUFFER_BITS_PER_PIXEL :: nat where "BOOT_FRAMEBUFFER_BITS_PER_PIXEL \<equiv> 32"
abbreviation (input) BOOT_FRAMEBUFFER_BYTES_PER_PIXEL :: nat where "BOOT_FRAMEBUFFER_BYTES_PER_PIXEL \<equiv> 4"
abbreviation (input) ACPI_RSDP_V1_SIZE :: nat where "ACPI_RSDP_V1_SIZE \<equiv> 20"
abbreviation (input) ACPI_RSDP_V2_SIZE :: nat where "ACPI_RSDP_V2_SIZE \<equiv> 36"

datatype (plugins only: code size) boot_status =
    BOOT_STATUS_OK
  | BOOT_STATUS_NULL_CONTEXT
  | BOOT_STATUS_BAD_MAGIC
  | BOOT_STATUS_NULL_INFORMATION
  | BOOT_STATUS_MISALIGNED_INFORMATION
  | BOOT_STATUS_INFORMATION_TOO_SMALL
  | BOOT_STATUS_INFORMATION_TOO_LARGE
  | BOOT_STATUS_INFORMATION_SIZE_MISALIGNED
  | BOOT_STATUS_INFORMATION_OVERFLOW
  | BOOT_STATUS_RESERVED_FIELD_NONZERO
  | BOOT_STATUS_TRUNCATED_TAG
  | BOOT_STATUS_TAG_TOO_SMALL
  | BOOT_STATUS_TAG_OVERFLOW
  | BOOT_STATUS_DUPLICATE_MEMORY_MAP
  | BOOT_STATUS_MEMORY_MAP_TOO_SMALL
  | BOOT_STATUS_MEMORY_ENTRY_TOO_SMALL
  | BOOT_STATUS_MEMORY_ENTRY_VERSION
  | BOOT_STATUS_MEMORY_MAP_REMAINDER
  | BOOT_STATUS_MEMORY_REGION_OVERFLOW
  | BOOT_STATUS_UNSUPPORTED_MODULE
  | BOOT_STATUS_STRING_NOT_TERMINATED
  | BOOT_STATUS_ACPI_TAG_TOO_SMALL
  | BOOT_STATUS_DUPLICATE_ACPI_TAG
  | BOOT_STATUS_BAD_END_TAG
  | BOOT_STATUS_MISSING_END_TAG
  | BOOT_STATUS_MISSING_MEMORY_MAP
  | BOOT_STATUS_DUPLICATE_FRAMEBUFFER
  | BOOT_STATUS_FRAMEBUFFER_TAG_TOO_SMALL
  | BOOT_STATUS_FRAMEBUFFER_NOT_DIRECT_COLOUR
  | BOOT_STATUS_BAD_FRAMEBUFFER_DEPTH
  | BOOT_STATUS_BAD_FRAMEBUFFER_GEOMETRY
  | BOOT_STATUS_BAD_FRAMEBUFFER_PITCH
  | BOOT_STATUS_BAD_FRAMEBUFFER_ADDRESS
  | BOOT_STATUS_BAD_FRAMEBUFFER_CHANNEL
  | BOOT_STATUS_FRAMEBUFFER_OUTSIDE_EARLY_MAP

record boot_framebuffer =
  fb_address :: nat
  fb_pitch :: nat
  fb_width :: nat
  fb_height :: nat
  fb_size :: nat
  fb_bits_per_pixel :: nat
  fb_red_position :: nat
  fb_green_position :: nat
  fb_blue_position :: nat
  fb_present :: bool

record boot_memory_region =
  region_base_address :: nat
  region_length :: nat
  region_type :: nat

record boot_information =
  bi_information_start :: nat
  bi_information_end :: nat
  bi_memory_map :: "nat option"
  bi_acpi_old :: "nat option"
  bi_acpi_new :: "nat option"
  bi_boot_loader_name :: "nat option"
  bi_command_line :: "nat option"
  bi_boot_loader_name_length :: nat
  bi_command_line_length :: nat
  bi_memory_map_entry_count :: nat
  bi_reported_usable_bytes :: nat
  bi_highest_reported_address :: nat
  bi_framebuffer :: boot_framebuffer

section \<open>Reading the block\<close>

definition read_u32 :: "memory \<Rightarrow> nat \<Rightarrow> u32" where
  "read_u32 mem a = ucast (mem a) OR push_bit 8 (ucast (mem (a + 1))) OR
     push_bit 16 (ucast (mem (a + 2))) OR push_bit 24 (ucast (mem (a + 3)))"

definition read_u64 :: "memory \<Rightarrow> nat \<Rightarrow> u64" where
  "read_u64 mem a = ucast (read_u32 mem a) OR push_bit 32 (ucast (read_u32 mem (a + 4)))"

definition load8 :: "memory \<Rightarrow> nat \<Rightarrow> nat" where "load8 mem a = unat (mem a)"
definition load32 :: "memory \<Rightarrow> nat \<Rightarrow> nat" where "load32 mem a = unat (read_u32 mem a)"
definition load64 :: "memory \<Rightarrow> nat \<Rightarrow> nat" where "load64 mem a = unat (read_u64 mem a)"

text \<open>The fields of \<open>struct multiboot2_tag\<close> and of a memory-map tag at an address.\<close>

abbreviation tag_type :: "memory \<Rightarrow> nat \<Rightarrow> nat" where "tag_type mem tag \<equiv> load32 mem tag"
abbreviation tag_size :: "memory \<Rightarrow> nat \<Rightarrow> nat" where "tag_size mem tag \<equiv> load32 mem (tag + 4)"
abbreviation map_entry_size :: "memory \<Rightarrow> nat \<Rightarrow> nat" where "map_entry_size mem mmap \<equiv> load32 mem (mmap + 8)"
abbreviation map_entry_version :: "memory \<Rightarrow> nat \<Rightarrow> nat" where
  "map_entry_version mem mmap \<equiv> load32 mem (mmap + 12)"

definition range_fits :: "nat \<Rightarrow> nat \<Rightarrow> nat \<Rightarrow> bool" where
  "range_fits offset len total_size \<longleftrightarrow> offset \<le> total_size \<and> len \<le> total_size - offset"

definition align_tag_size :: "nat \<Rightarrow> nat" where
  "align_tag_size n = add64 n 7 AND not64 7"

definition boot_information_reset :: boot_information where
  "boot_information_reset =
     \<lparr>bi_information_start = 0, bi_information_end = 0, bi_memory_map = None, bi_acpi_old = None,
      bi_acpi_new = None, bi_boot_loader_name = None, bi_command_line = None,
      bi_boot_loader_name_length = 0, bi_command_line_length = 0, bi_memory_map_entry_count = 0,
      bi_reported_usable_bytes = 0, bi_highest_reported_address = 0,
      bi_framebuffer = \<lparr>fb_address = 0, fb_pitch = 0, fb_width = 0, fb_height = 0, fb_size = 0,
        fb_bits_per_pixel = 0, fb_red_position = 0, fb_green_position = 0, fb_blue_position = 0,
        fb_present = False\<rparr>\<rparr>"

text \<open>The scan for the terminating zero; \<open>None\<close> when the tag ends first.\<close>

definition string_length_within :: "memory \<Rightarrow> nat \<Rightarrow> nat \<Rightarrow> nat option" where
  "string_length_within mem tag n =
     (if n \<le> 8 then None
      else first_index (\<lambda>index. mem (tag + index) = 0) [8 ..< n])"

definition boot_information_region_at ::
    "memory \<Rightarrow> boot_information option \<Rightarrow> nat \<Rightarrow> boot_memory_region option" where
  "boot_information_region_at mem context index =
     (case context of
        None \<Rightarrow> None
      | Some c \<Rightarrow>
          (case bi_memory_map c of
             None \<Rightarrow> None
           | Some mmap \<Rightarrow>
               if index \<ge> bi_memory_map_entry_count c then None
               else
                 (let entry = mmap + 16 + mul64 index (map_entry_size mem mmap) in
                  Some \<lparr>region_base_address = load64 mem entry,
                        region_length = load64 mem (entry + 8),
                        region_type = load32 mem (entry + 16)\<rparr>)))"

section \<open>The memory map\<close>

text \<open>The loop of \<open>validate_memory_map\<close>, over the indices still to visit.\<close>

primrec validate_regions ::
    "memory \<Rightarrow> nat list \<Rightarrow> boot_information \<Rightarrow> boot_status \<times> boot_information" where
  "validate_regions mem [] c = (BOOT_STATUS_OK, c)"
| "validate_regions mem (index # rest) c =
     (case boot_information_region_at mem (Some c) index of
        None \<Rightarrow> (BOOT_STATUS_TRUNCATED_TAG, c)
      | Some region \<Rightarrow>
          if region_length region > UINT64_MAX - region_base_address region
            then (BOOT_STATUS_MEMORY_REGION_OVERFLOW, c)
          else
            (let region_end = add64 (region_base_address region) (region_length region);
                 c1 = (if region_end > bi_highest_reported_address c
                       then c\<lparr>bi_highest_reported_address := region_end\<rparr> else c);
                 c2 = (if region_type region = MULTIBOOT2_MEMORY_AVAILABLE
                       then if region_length region > UINT64_MAX - bi_reported_usable_bytes c1
                            then c1\<lparr>bi_reported_usable_bytes := UINT64_MAX\<rparr>
                            else c1\<lparr>bi_reported_usable_bytes :=
                                   add64 (bi_reported_usable_bytes c1) (region_length region)\<rparr>
                       else c1)
             in validate_regions mem rest c2))"

definition validate_memory_map ::
    "memory \<Rightarrow> nat \<Rightarrow> boot_information \<Rightarrow> boot_status \<times> boot_information" where
  "validate_memory_map mem mmap c =
     (if tag_size mem mmap < 16 then (BOOT_STATUS_MEMORY_MAP_TOO_SMALL, c)
      else if map_entry_size mem mmap < 24 then (BOOT_STATUS_MEMORY_ENTRY_TOO_SMALL, c)
      else if map_entry_version mem mmap \<noteq> 0 then (BOOT_STATUS_MEMORY_ENTRY_VERSION, c)
      else
        (let payload_size = tag_size mem mmap - 16 in
         if payload_size mod map_entry_size mem mmap \<noteq> 0 then (BOOT_STATUS_MEMORY_MAP_REMAINDER, c)
         else
           (let entry_count = payload_size div map_entry_size mem mmap in
            validate_regions mem [0 ..< entry_count]
              (c\<lparr>bi_memory_map := Some mmap, bi_memory_map_entry_count := entry_count\<rparr>))))"

section \<open>The framebuffer\<close>

definition channel_malformed :: "nat \<Rightarrow> nat \<Rightarrow> bool" where
  "channel_malformed position mask_size \<longleftrightarrow>
     mask_size \<noteq> 8 \<or> position mod 8 \<noteq> 0 \<or> position \<ge> BOOT_FRAMEBUFFER_BITS_PER_PIXEL"

definition decode_framebuffer ::
    "memory \<Rightarrow> nat \<Rightarrow> boot_framebuffer \<Rightarrow> boot_status \<times> boot_framebuffer" where
  "decode_framebuffer mem tag fb =
     (if tag_size mem tag < MULTIBOOT2_FRAMEBUFFER_COMMON_SIZE
        then (BOOT_STATUS_FRAMEBUFFER_TAG_TOO_SMALL, fb)
      else
        (let address = load64 mem (tag + 8); pitch = load32 mem (tag + 16);
             width = load32 mem (tag + 20); height = load32 mem (tag + 24);
             depth = load8 mem (tag + 28); kind = load8 mem (tag + 29) in
         if kind \<noteq> MULTIBOOT2_FRAMEBUFFER_TYPE_RGB
           then (BOOT_STATUS_FRAMEBUFFER_NOT_DIRECT_COLOUR, fb)
         else if tag_size mem tag < MULTIBOOT2_FRAMEBUFFER_RGB_SIZE
           then (BOOT_STATUS_FRAMEBUFFER_TAG_TOO_SMALL, fb)
         else if depth \<noteq> BOOT_FRAMEBUFFER_BITS_PER_PIXEL then (BOOT_STATUS_BAD_FRAMEBUFFER_DEPTH, fb)
         else if width = 0 \<or> height = 0 then (BOOT_STATUS_BAD_FRAMEBUFFER_GEOMETRY, fb)
         else if pitch < mul64 width BOOT_FRAMEBUFFER_BYTES_PER_PIXEL \<or>
                 pitch mod BOOT_FRAMEBUFFER_BYTES_PER_PIXEL \<noteq> 0
           then (BOOT_STATUS_BAD_FRAMEBUFFER_PITCH, fb)
         else if address = 0 \<or> address mod BOOT_FRAMEBUFFER_BYTES_PER_PIXEL \<noteq> 0
           then (BOOT_STATUS_BAD_FRAMEBUFFER_ADDRESS, fb)
         else
           (let size = mul64 pitch height in
            if size = 0 \<or> size > RSD_EARLY_PHYSICAL_LIMIT \<or> address > RSD_EARLY_PHYSICAL_LIMIT - size
              then (BOOT_STATUS_FRAMEBUFFER_OUTSIDE_EARLY_MAP, fb)
            else
              (let red = load8 mem (tag + 32); green = load8 mem (tag + 34);
                   blue = load8 mem (tag + 36) in
               if channel_malformed red (load8 mem (tag + 33)) \<or>
                  channel_malformed green (load8 mem (tag + 35)) \<or>
                  channel_malformed blue (load8 mem (tag + 37))
                 then (BOOT_STATUS_BAD_FRAMEBUFFER_CHANNEL, fb)
               else if red = green \<or> green = blue \<or> red = blue
                 then (BOOT_STATUS_BAD_FRAMEBUFFER_CHANNEL, fb)
               else (BOOT_STATUS_OK,
                 fb\<lparr>fb_red_position := red, fb_green_position := green, fb_blue_position := blue,
                    fb_address := address, fb_pitch := pitch, fb_width := width, fb_height := height,
                    fb_size := size, fb_bits_per_pixel := depth, fb_present := True\<rparr>)))))"

section \<open>The tags\<close>

text \<open>What the loop body does with one tag that is not the end tag.\<close>

definition parse_tag :: "memory \<Rightarrow> nat \<Rightarrow> boot_information \<Rightarrow> boot_status \<times> boot_information" where
  "parse_tag mem tag c =
     (let type = tag_type mem tag; size = tag_size mem tag in
      if type = MULTIBOOT2_TAG_MEMORY_MAP then
        (if bi_memory_map c \<noteq> None then (BOOT_STATUS_DUPLICATE_MEMORY_MAP, c)
         else validate_memory_map mem tag c)
      else if type = MULTIBOOT2_TAG_MODULE then (BOOT_STATUS_UNSUPPORTED_MODULE, c)
      else if type = MULTIBOOT2_TAG_ACPI_OLD \<or> type = MULTIBOOT2_TAG_ACPI_NEW then
        (let minimum_payload = (if type = MULTIBOOT2_TAG_ACPI_NEW then ACPI_RSDP_V2_SIZE
                                else ACPI_RSDP_V1_SIZE);
             destination = (if type = MULTIBOOT2_TAG_ACPI_NEW then bi_acpi_new c else bi_acpi_old c) in
         if size < 8 + minimum_payload then (BOOT_STATUS_ACPI_TAG_TOO_SMALL, c)
         else if destination \<noteq> None then (BOOT_STATUS_DUPLICATE_ACPI_TAG, c)
         else (BOOT_STATUS_OK,
           if type = MULTIBOOT2_TAG_ACPI_NEW then c\<lparr>bi_acpi_new := Some tag\<rparr>
           else c\<lparr>bi_acpi_old := Some tag\<rparr>))
      else if type = MULTIBOOT2_TAG_FRAMEBUFFER then
        (if fb_present (bi_framebuffer c) then (BOOT_STATUS_DUPLICATE_FRAMEBUFFER, c)
         else
           (let (status, fb) = decode_framebuffer mem tag (bi_framebuffer c) in
            (status, c\<lparr>bi_framebuffer := fb\<rparr>)))
      else if type = MULTIBOOT2_TAG_BOOT_LOADER_NAME \<or> type = MULTIBOOT2_TAG_COMMAND_LINE then
        (case string_length_within mem tag size of
           None \<Rightarrow> (BOOT_STATUS_STRING_NOT_TERMINATED, c)
         | Some string_length \<Rightarrow> (BOOT_STATUS_OK,
             if type = MULTIBOOT2_TAG_BOOT_LOADER_NAME
             then c\<lparr>bi_boot_loader_name := Some (tag + 8),
                    bi_boot_loader_name_length := string_length\<rparr>
             else c\<lparr>bi_command_line := Some (tag + 8), bi_command_line_length := string_length\<rparr>))
      else (BOOT_STATUS_OK, c))"

text \<open>
  The \<open>while\<close> loop. The Boolean is \<open>found_end\<close>. It ends because every turn that goes on advances the
  offset by at least the size of a tag header.
\<close>

function parse_tags ::
    "memory \<Rightarrow> nat \<Rightarrow> nat \<Rightarrow> nat \<Rightarrow> boot_information \<Rightarrow> boot_status \<times> bool \<times> boot_information" where
  "parse_tags mem base total_size offset c =
     (if \<not> offset < total_size then (BOOT_STATUS_OK, False, c)
      else if \<not> range_fits offset 8 total_size then (BOOT_STATUS_TRUNCATED_TAG, False, c)
      else
        (let tag = base + offset; size = tag_size mem tag in
         if size < 8 then (BOOT_STATUS_TAG_TOO_SMALL, False, c)
         else if \<not> range_fits offset size total_size then (BOOT_STATUS_TAG_OVERFLOW, False, c)
         else if tag_type mem tag = MULTIBOOT2_TAG_END then
           (if size \<noteq> 8 \<or> offset + size \<noteq> total_size then (BOOT_STATUS_BAD_END_TAG, False, c)
            else (BOOT_STATUS_OK, True, c))
         else
           (case parse_tag mem tag c of (status, c') \<Rightarrow>
              if status \<noteq> BOOT_STATUS_OK then (status, False, c')
              else
                (let aligned_size = align_tag_size size in
                 if aligned_size < size \<or> \<not> range_fits offset aligned_size total_size
                   then (BOOT_STATUS_TAG_OVERFLOW, False, c')
                 else parse_tags mem base total_size (offset + aligned_size) c'))))"
  by pat_completeness auto
termination
  by (relation "measure (\<lambda>(mem, base, total_size, offset, c). total_size - offset)") auto

declare parse_tags.simps [simp del]

definition boot_information_parse ::
    "memory \<Rightarrow> nat \<Rightarrow> nat \<Rightarrow> boot_information option \<Rightarrow> boot_status \<times> boot_information option" where
  "boot_information_parse mem magic information_address context =
     (case context of
        None \<Rightarrow> (BOOT_STATUS_NULL_CONTEXT, None)
      | Some _ \<Rightarrow>
          (let c = boot_information_reset in
           if magic \<noteq> MULTIBOOT2_BOOT_MAGIC then (BOOT_STATUS_BAD_MAGIC, Some c)
           else if information_address = 0 then (BOOT_STATUS_NULL_INFORMATION, Some c)
           else if information_address AND (MULTIBOOT2_TAG_ALIGNMENT - 1) \<noteq> 0
             then (BOOT_STATUS_MISALIGNED_INFORMATION, Some c)
           else if information_address > RSD_EARLY_PHYSICAL_LIMIT - 8
             then (BOOT_STATUS_INFORMATION_TOO_LARGE, Some c)
           else
             (let total_size = load32 mem information_address in
              if total_size < 8 + 8 then (BOOT_STATUS_INFORMATION_TOO_SMALL, Some c)
              else if total_size > MULTIBOOT2_MAX_INFORMATION_SIZE
                then (BOOT_STATUS_INFORMATION_TOO_LARGE, Some c)
              else if total_size AND (MULTIBOOT2_TAG_ALIGNMENT - 1) \<noteq> 0
                then (BOOT_STATUS_INFORMATION_SIZE_MISALIGNED, Some c)
              else if information_address > UINT64_MAX - total_size
                then (BOOT_STATUS_INFORMATION_OVERFLOW, Some c)
              else if add64 information_address total_size > RSD_EARLY_PHYSICAL_LIMIT
                then (BOOT_STATUS_INFORMATION_TOO_LARGE, Some c)
              else if load32 mem (information_address + 4) \<noteq> 0
                then (BOOT_STATUS_RESERVED_FIELD_NONZERO, Some c)
              else
                (let c1 = c\<lparr>bi_information_start := information_address,
                            bi_information_end := add64 information_address total_size\<rparr>;
                     (status, found_end, c2) = parse_tags mem information_address total_size 8 c1
                 in if status \<noteq> BOOT_STATUS_OK then (status, Some c2)
                    else if \<not> found_end then (BOOT_STATUS_MISSING_END_TAG, Some c2)
                    else if bi_memory_map c2 = None then (BOOT_STATUS_MISSING_MEMORY_MAP, Some c2)
                    else (BOOT_STATUS_OK, Some c2)))))"

section \<open>The memory map that a parse accepts\<close>

lemma load64_bound: "load64 mem a < 2 ^ 64"
  using unsigned_less [of "read_u64 mem a"] by (simp add: load64_def)

lemma load32_bound: "load32 mem a < 2 ^ 32"
  using unsigned_less [of "read_u32 mem a"] by (simp add: load32_def)

lemma region_bounds:
  assumes "boot_information_region_at mem c i = Some r"
  shows "region_base_address r < 2 ^ 64" "region_length r < 2 ^ 64"
  using assms load64_bound by (auto simp: boot_information_region_at_def Let_def
      split: option.splits if_splits)

lemma region_at_cong:
  "bi_memory_map c = bi_memory_map d \<Longrightarrow> bi_memory_map_entry_count c = bi_memory_map_entry_count d \<Longrightarrow>
    boot_information_region_at mem (Some c) i = boot_information_region_at mem (Some d) i"
  by (simp add: boot_information_region_at_def split: option.split)

definition boot_regions :: "memory \<Rightarrow> boot_information \<Rightarrow> boot_memory_region list" where
  "boot_regions mem c = map (\<lambda>i. the (boot_information_region_at mem (Some c) i))
     [0 ..< bi_memory_map_entry_count c]"

definition region_end :: "boot_memory_region \<Rightarrow> nat" where
  "region_end r = region_base_address r + region_length r"

definition usable_length :: "boot_memory_region \<Rightarrow> nat" where
  "usable_length r = (if region_type r = MULTIBOOT2_MEMORY_AVAILABLE then region_length r else 0)"

text \<open>What the loop over the regions leaves.\<close>

definition account_region :: "boot_memory_region \<Rightarrow> boot_information \<Rightarrow> boot_information" where
  "account_region r c = c\<lparr>bi_highest_reported_address := max (bi_highest_reported_address c) (region_end r),
     bi_reported_usable_bytes := min UINT64_MAX (bi_reported_usable_bytes c + usable_length r)\<rparr>"

lemma account_region_fields [simp]:
  "bi_memory_map (account_region r c) = bi_memory_map c"
  "bi_memory_map_entry_count (account_region r c) = bi_memory_map_entry_count c"
  "bi_information_start (account_region r c) = bi_information_start c"
  "bi_information_end (account_region r c) = bi_information_end c"
  "bi_framebuffer (account_region r c) = bi_framebuffer c"
  by (simp_all add: account_region_def)

lemma validate_regions_Cons:
  assumes "boot_information_region_at mem (Some c) i = Some r" "bi_reported_usable_bytes c \<le> UINT64_MAX"
  shows "validate_regions mem (i # rest) c =
    (if region_end r \<le> UINT64_MAX then validate_regions mem rest (account_region r c)
     else (BOOT_STATUS_MEMORY_REGION_OVERFLOW, c))"
proof -
  note B = region_bounds [OF assms(1)]
  have fits: "region_length r \<le> UINT64_MAX - region_base_address r \<longleftrightarrow> region_end r \<le> UINT64_MAX"
    using B by (auto simp: UINT64_MAX_def region_end_def)
  have "add64 (region_base_address r) (region_length r) = region_end r" if "region_end r \<le> UINT64_MAX"
    using that by (simp add: region_end_def UINT64_MAX_def no_wrap)
  moreover have "add64 (bi_reported_usable_bytes c) (region_length r) =
      bi_reported_usable_bytes c + region_length r"
    if "region_length r \<le> UINT64_MAX - bi_reported_usable_bytes c"
    using that assms(2) by (simp add: UINT64_MAX_def no_wrap)
  ultimately show ?thesis
    using assms fits
    by (auto simp: Let_def account_region_def usable_length_def not_less max_def min_def
        intro!: arg_cong [of _ _ "validate_regions mem rest"] boot_information.equality)
qed

declare validate_regions.simps(2) [simp del]

lemma usable_bounded: "bi_reported_usable_bytes (account_region r c) \<le> UINT64_MAX"
  by (simp add: account_region_def)

lemma validate_regions_OK:
  assumes "validate_regions mem is c = (BOOT_STATUS_OK, c')" "bi_memory_map c \<noteq> None"
    "\<forall>i \<in> set is. i < bi_memory_map_entry_count c" "bi_reported_usable_bytes c \<le> UINT64_MAX"
  shows "c' = fold account_region (map (\<lambda>i. the (boot_information_region_at mem (Some c) i)) is) c \<and>
    (\<forall>i \<in> set is. region_end (the (boot_information_region_at mem (Some c) i)) \<le> UINT64_MAX)"
  using assms
proof (induction "is" arbitrary: c)
  case (Cons i is')
  obtain r where r: "boot_information_region_at mem (Some c) i = Some r"
    using Cons.prems(2,3) by (auto simp: boot_information_region_at_def Let_def)
  note step = validate_regions_Cons [OF r Cons.prems(4), of is']
  have rend: "region_end r \<le> UINT64_MAX"
    using Cons.prems(1) step by (auto split: if_splits)
  have same: "boot_information_region_at mem (Some (account_region r c)) =
      boot_information_region_at mem (Some c)"
    by (rule ext, rule region_at_cong) simp_all
  have "validate_regions mem is' (account_region r c) = (BOOT_STATUS_OK, c')"
    using Cons.prems(1) step rend by simp
  from Cons.IH [OF this] Cons.prems(2,3) usable_bounded [of r c]
  show ?case by (simp add: same r rend)
qed simp

lemma fold_account_fields:
  "bi_memory_map (fold account_region rs c) = bi_memory_map c"
  "bi_memory_map_entry_count (fold account_region rs c) = bi_memory_map_entry_count c"
  "bi_information_start (fold account_region rs c) = bi_information_start c"
  "bi_information_end (fold account_region rs c) = bi_information_end c"
  "bi_framebuffer (fold account_region rs c) = bi_framebuffer c"
  "bi_highest_reported_address (fold account_region rs c) =
     fold max (map region_end rs) (bi_highest_reported_address c)"
  by (induction rs arbitrary: c) (simp_all add: account_region_def max.commute)

lemma fold_account_usable:
  "bi_reported_usable_bytes c \<le> UINT64_MAX \<Longrightarrow>
    bi_reported_usable_bytes (fold account_region rs c) =
     min UINT64_MAX (bi_reported_usable_bytes c + sum_list (map usable_length rs))"
  by (induction rs arbitrary: c) (auto simp: account_region_def min_def)

text \<open>The memory map of a context is complete and its totals are right.\<close>

definition map_accounted :: "memory \<Rightarrow> boot_information \<Rightarrow> bool" where
  "map_accounted mem c \<longleftrightarrow>
     (case bi_memory_map c of
        None \<Rightarrow> bi_highest_reported_address c = 0 \<and> bi_reported_usable_bytes c = 0
      | Some mmap \<Rightarrow>
          24 \<le> map_entry_size mem mmap \<and>
          tag_size mem mmap = 16 + bi_memory_map_entry_count c * map_entry_size mem mmap \<and>
          (\<forall>r \<in> set (boot_regions mem c). region_end r \<le> UINT64_MAX) \<and>
          bi_highest_reported_address c = fold max (map region_end (boot_regions mem c)) 0 \<and>
          bi_reported_usable_bytes c = min UINT64_MAX (sum_list (map usable_length (boot_regions mem c))))"

lemma validate_memory_map_accounted:
  assumes "validate_memory_map mem mmap c = (BOOT_STATUS_OK, c')" "map_accounted mem c"
    "bi_memory_map c = None"
  shows "map_accounted mem c'" "bi_memory_map c' = Some mmap"
    "bi_information_start c' = bi_information_start c" "bi_information_end c' = bi_information_end c"
    "bi_framebuffer c' = bi_framebuffer c"
proof -
  let ?n = "(tag_size mem mmap - 16) div map_entry_size mem mmap"
  let ?c = "c\<lparr>bi_memory_map := Some mmap, bi_memory_map_entry_count := ?n\<rparr>"
  have zero: "bi_highest_reported_address c = 0" "bi_reported_usable_bytes c = 0"
    using assms(2,3) by (auto simp: map_accounted_def)
  have size: "16 \<le> tag_size mem mmap" "24 \<le> map_entry_size mem mmap"
    "(tag_size mem mmap - 16) mod map_entry_size mem mmap = 0"
    and run: "validate_regions mem [0 ..< ?n] ?c = (BOOT_STATUS_OK, c')"
    using assms(1) by (auto simp: validate_memory_map_def Let_def split: if_splits)
  have res: "c' = fold account_region (boot_regions mem ?c) ?c"
    "\<forall>r \<in> set (boot_regions mem ?c). region_end r \<le> UINT64_MAX"
    using validate_regions_OK [OF run] zero by (auto simp: boot_regions_def UINT64_MAX_def)
  have same: "boot_regions mem c' = boot_regions mem ?c"
    using fold_account_fields(1,2) [of "boot_regions mem ?c" ?c] res(1)
    by (auto simp: boot_regions_def intro!: arg_cong [of _ _ the] region_at_cong)
  have total: "tag_size mem mmap = 16 + ?n * map_entry_size mem mmap"
    using size by (metis add_0_right div_mult_mod_eq le_add_diff_inverse)
  have "bi_memory_map_entry_count c' = ?n" "bi_memory_map c' = Some mmap"
    "bi_highest_reported_address c' = fold max (map region_end (boot_regions mem ?c)) 0"
    using res(1) fold_account_fields(1,2,6) [of "boot_regions mem ?c" ?c] zero by auto
  moreover have "bi_reported_usable_bytes c' =
      min UINT64_MAX (sum_list (map usable_length (boot_regions mem ?c)))"
    using res(1) fold_account_usable [of ?c "boot_regions mem ?c"] zero by simp
  ultimately show "map_accounted mem c'"
    using size(2) total res(2) by (simp add: map_accounted_def same)
  show "bi_memory_map c' = Some mmap" "bi_information_start c' = bi_information_start c"
    "bi_information_end c' = bi_information_end c" "bi_framebuffer c' = bi_framebuffer c"
    using res(1) fold_account_fields(1-5) [of "boot_regions mem ?c" ?c] by auto
qed


section \<open>The framebuffer that a parse accepts\<close>

definition framebuffer_ok :: "boot_framebuffer \<Rightarrow> bool" where
  "framebuffer_ok fb \<longleftrightarrow>
     (fb_present fb \<longrightarrow>
        0 < fb_width fb \<and> 0 < fb_height fb \<and> fb_bits_per_pixel fb = 32 \<and>
        4 * fb_width fb \<le> fb_pitch fb \<and> 4 dvd fb_pitch fb \<and> 4 dvd fb_address fb \<and>
        0 < fb_address fb \<and> fb_size fb = fb_pitch fb * fb_height fb \<and>
        fb_address fb + fb_size fb \<le> RSD_EARLY_PHYSICAL_LIMIT \<and>
        fb_red_position fb \<in> {0, 8, 16, 24} \<and> fb_green_position fb \<in> {0, 8, 16, 24} \<and>
        fb_blue_position fb \<in> {0, 8, 16, 24} \<and> fb_red_position fb \<noteq> fb_green_position fb \<and>
        fb_green_position fb \<noteq> fb_blue_position fb \<and> fb_red_position fb \<noteq> fb_blue_position fb)"

lemma channel_positions: "\<not> channel_malformed p m \<Longrightarrow> p \<in> {0, 8, 16, 24}"
proof -
  assume "\<not> channel_malformed p m"
  then have "p mod 8 = 0" "p < 32" by (auto simp: channel_malformed_def)
  then have p: "p = 8 * (p div 8)" and "p div 8 < 4" by auto
  then have "p div 8 = 0 \<or> p div 8 = 1 \<or> p div 8 = 2 \<or> p div 8 = 3" by linarith
  then show ?thesis by (subst p) auto
qed

lemma product_bound: "a < 2 ^ m \<Longrightarrow> b < 2 ^ n \<Longrightarrow> a * b < (2 ^ (m + n) :: nat)"
  by (simp add: power_add mult_strict_mono)

lemma decode_framebuffer_ok:
  assumes "decode_framebuffer mem tag fb = (BOOT_STATUS_OK, fb')"
  shows "framebuffer_ok fb'"
proof -
  have "load32 mem (tag + 20) * 4 < 2 ^ 64" "load32 mem (tag + 16) * load32 mem (tag + 24) < 2 ^ 64"
    using product_bound [OF load32_bound, of 4 32 mem "tag + 20"]
      product_bound [OF load32_bound load32_bound, of mem "tag + 16" mem "tag + 24"] by simp_all
  note exact = this [THEN mul64_exact]
  have acc: "fb' = fb\<lparr>fb_red_position := load8 mem (tag + 32), fb_green_position := load8 mem (tag + 34),
      fb_blue_position := load8 mem (tag + 36), fb_address := load64 mem (tag + 8),
      fb_pitch := load32 mem (tag + 16), fb_width := load32 mem (tag + 20),
      fb_height := load32 mem (tag + 24), fb_size := load32 mem (tag + 16) * load32 mem (tag + 24),
      fb_bits_per_pixel := 32, fb_present := True\<rparr>"
    and geometry: "load32 mem (tag + 20) \<noteq> 0" "load32 mem (tag + 24) \<noteq> 0"
      "load32 mem (tag + 20) * 4 \<le> load32 mem (tag + 16)" "load32 mem (tag + 16) mod 4 = 0"
      "load64 mem (tag + 8) \<noteq> 0" "load64 mem (tag + 8) mod 4 = 0"
      "load32 mem (tag + 16) * load32 mem (tag + 24) \<le> RSD_EARLY_PHYSICAL_LIMIT"
      "load64 mem (tag + 8) \<le> RSD_EARLY_PHYSICAL_LIMIT - load32 mem (tag + 16) * load32 mem (tag + 24)"
    and channels: "\<not> channel_malformed (load8 mem (tag + 32)) (load8 mem (tag + 33))"
      "\<not> channel_malformed (load8 mem (tag + 34)) (load8 mem (tag + 35))"
      "\<not> channel_malformed (load8 mem (tag + 36)) (load8 mem (tag + 37))"
      "load8 mem (tag + 32) \<noteq> load8 mem (tag + 34)" "load8 mem (tag + 34) \<noteq> load8 mem (tag + 36)"
      "load8 mem (tag + 32) \<noteq> load8 mem (tag + 36)"
    using assms
    by (auto simp: decode_framebuffer_def Let_def exact split: if_splits)
  show ?thesis
    unfolding framebuffer_ok_def acc
    using geometry channels channel_positions [OF channels(1)] channel_positions [OF channels(2)]
      channel_positions [OF channels(3)]
    by (simp add: mult.commute dvd_eq_mod_eq_0)
qed

section \<open>The loop over the tags\<close>

definition parse_inv :: "memory \<Rightarrow> boot_information \<Rightarrow> bool" where
  "parse_inv mem c \<longleftrightarrow> map_accounted mem c \<and> framebuffer_ok (bi_framebuffer c)"

lemma map_accounted_cong:
  assumes "bi_memory_map c = bi_memory_map d" "bi_memory_map_entry_count c = bi_memory_map_entry_count d"
    "bi_highest_reported_address c = bi_highest_reported_address d"
    "bi_reported_usable_bytes c = bi_reported_usable_bytes d"
  shows "map_accounted mem c = map_accounted mem d"
proof -
  have "boot_regions mem c = boot_regions mem d"
    using region_at_cong [OF assms(1,2)] assms(2) by (simp add: boot_regions_def)
  then show ?thesis using assms by (simp add: map_accounted_def split: option.split)
qed

text \<open>A tag changes the memory map, the framebuffer, or only pointers that the two do not depend on.\<close>

definition same_findings :: "boot_information \<Rightarrow> boot_information \<Rightarrow> bool" where
  "same_findings c d \<longleftrightarrow>
     bi_memory_map c = bi_memory_map d \<and> bi_memory_map_entry_count c = bi_memory_map_entry_count d \<and>
     bi_highest_reported_address c = bi_highest_reported_address d \<and>
     bi_reported_usable_bytes c = bi_reported_usable_bytes d \<and>
     bi_information_start c = bi_information_start d \<and> bi_information_end c = bi_information_end d"

lemma parse_tag_OK:
  assumes "parse_tag mem tag c = (BOOT_STATUS_OK, c')"
  shows "bi_memory_map c = None \<and> validate_memory_map mem tag c = (BOOT_STATUS_OK, c') \<or>
    same_findings c' c \<and> (bi_framebuffer c' = bi_framebuffer c \<or>
      decode_framebuffer mem tag (bi_framebuffer c) = (BOOT_STATUS_OK, bi_framebuffer c'))"
  using assms
  by (auto simp: parse_tag_def Let_def same_findings_def split: if_splits option.splits prod.splits)

lemma parse_tag_inv:
  assumes "parse_tag mem tag c = (BOOT_STATUS_OK, c')" "parse_inv mem c"
  shows "parse_inv mem c' \<and> bi_information_start c' = bi_information_start c \<and>
    bi_information_end c' = bi_information_end c"
  using parse_tag_OK [OF assms(1)]
proof (elim disjE conjE)
  assume "bi_memory_map c = None" "validate_memory_map mem tag c = (BOOT_STATUS_OK, c')"
  then show ?thesis
    using validate_memory_map_accounted [of mem tag c c'] assms(2) by (simp add: parse_inv_def)
next
  assume same: "same_findings c' c" and "bi_framebuffer c' = bi_framebuffer c"
  then show ?thesis
    using map_accounted_cong [of c' c mem] assms(2) by (simp add: parse_inv_def same_findings_def)
next
  assume same: "same_findings c' c"
    and "decode_framebuffer mem tag (bi_framebuffer c) = (BOOT_STATUS_OK, bi_framebuffer c')"
  then show ?thesis
    using map_accounted_cong [of c' c mem] assms(2) decode_framebuffer_ok
    by (simp add: parse_inv_def same_findings_def)
qed

lemma parse_tags_preserves:
  assumes "parse_tags mem base total_size offset c = (BOOT_STATUS_OK, found, c')" "P c"
    and step: "\<And>tag c c'. base \<le> tag \<Longrightarrow> tag + tag_size mem tag \<le> base + total_size \<Longrightarrow>
      parse_tag mem tag c = (BOOT_STATUS_OK, c') \<Longrightarrow> P c \<Longrightarrow> P c'"
  shows "P c'"
  using assms
proof (induction mem base total_size offset c rule: parse_tags.induct)
  case (1 mem base total_size offset c)
  from 1(2) consider "c' = c"
    | c1 where "parse_tag mem (base + offset) c = (BOOT_STATUS_OK, c1)"
      "parse_tags mem base total_size (offset + align_tag_size (tag_size mem (base + offset))) c1 =
         (BOOT_STATUS_OK, found, c')"
      "offset < total_size" "range_fits offset 8 total_size" "8 \<le> tag_size mem (base + offset)"
      "range_fits offset (tag_size mem (base + offset)) total_size"
      "tag_type mem (base + offset) \<noteq> MULTIBOOT2_TAG_END"
      "tag_size mem (base + offset) \<le> align_tag_size (tag_size mem (base + offset))"
      "range_fits offset (align_tag_size (tag_size mem (base + offset))) total_size"
    by (auto simp: parse_tags.simps [of mem base total_size offset c] Let_def
        split: if_splits prod.splits)
  then show ?case
  proof cases
    case (2 c1)
    have "P c1" using 2(6) by (intro 1(4) [OF _ _ 2(1) 1(3)]) (auto simp: range_fits_def)
    then show ?thesis
      using 2 1(4) by (intro 1(1) [OF _ _ refl refl _ _ _ 2(1) [symmetric] _ refl]) auto
  qed (use 1(3) in simp)
qed

text \<open>What holds of the context while the tags of the block are read.\<close>

definition block_inv :: "memory \<Rightarrow> nat \<Rightarrow> nat \<Rightarrow> boot_information \<Rightarrow> bool" where
  "block_inv mem base total_size c \<longleftrightarrow>
     parse_inv mem c \<and> bi_information_start c = base \<and> bi_information_end c = base + total_size \<and>
     (\<forall>mmap. bi_memory_map c = Some mmap \<longrightarrow> base \<le> mmap \<and> mmap + tag_size mem mmap \<le> base + total_size)"

lemma parse_tag_block_inv:
  assumes "base \<le> tag" "tag + tag_size mem tag \<le> base + total_size"
    "parse_tag mem tag c = (BOOT_STATUS_OK, c')" "block_inv mem base total_size c"
  shows "block_inv mem base total_size c'"
proof -
  have "bi_memory_map c' = bi_memory_map c \<or> bi_memory_map c' = Some tag"
    using parse_tag_OK [OF assms(3)] validate_memory_map_accounted(2) [of mem tag c c'] assms(4)
    by (auto simp: same_findings_def block_inv_def parse_inv_def)
  then show ?thesis
    using parse_tag_inv [OF assms(3)] assms(1,2,4) by (auto simp: block_inv_def)
qed

lemma boot_parse_OK:
  assumes "boot_information_parse mem magic addr context = (BOOT_STATUS_OK, Some c)"
  shows "block_inv mem addr (load32 mem addr) c" "bi_memory_map c \<noteq> None"
    "addr + load32 mem addr \<le> RSD_EARLY_PHYSICAL_LIMIT"
proof -
  let ?c1 = "boot_information_reset\<lparr>bi_information_start := addr,
    bi_information_end := add64 addr (load32 mem addr)\<rparr>"
  from assms have bounds: "addr \<le> RSD_EARLY_PHYSICAL_LIMIT - 8"
    "add64 addr (load32 mem addr) \<le> RSD_EARLY_PHYSICAL_LIMIT"
    and run: "parse_tags mem addr (load32 mem addr) 8 ?c1 = (BOOT_STATUS_OK, True, c)"
    and map: "bi_memory_map c \<noteq> None"
    by (auto simp: boot_information_parse_def Let_def split: option.splits if_splits prod.splits)
  have exact: "add64 addr (load32 mem addr) = addr + load32 mem addr"
    using bounds(1) load32_bound [of mem addr] by (intro add64_exact) simp
  have "block_inv mem addr (load32 mem addr) ?c1"
    by (simp add: block_inv_def parse_inv_def map_accounted_def framebuffer_ok_def
        boot_information_reset_def exact)
  then show "block_inv mem addr (load32 mem addr) c"
    by (rule parse_tags_preserves [OF run]) (rule parse_tag_block_inv)
  show "bi_memory_map c \<noteq> None" by (rule map)
  show "addr + load32 mem addr \<le> RSD_EARLY_PHYSICAL_LIMIT" using bounds(2) exact by simp
qed

section \<open>The parser reads only the block\<close>

definition agree :: "nat \<Rightarrow> nat \<Rightarrow> memory \<Rightarrow> memory \<Rightarrow> bool" where
  "agree lo hi mem mem' \<longleftrightarrow> (\<forall>a. lo \<le> a \<and> a < hi \<longrightarrow> mem a = mem' a)"

lemma agree_loads:
  assumes "agree lo hi mem mem'" "lo \<le> a"
  shows "a < hi \<Longrightarrow> load8 mem a = load8 mem' a" "a + 4 \<le> hi \<Longrightarrow> load32 mem a = load32 mem' a"
    "a + 8 \<le> hi \<Longrightarrow> load64 mem a = load64 mem' a"
  using assms
  by (auto simp: agree_def load8_def load32_def load64_def read_u64_def read_u32_def)

definition map_inside :: "nat \<Rightarrow> nat \<Rightarrow> memory \<Rightarrow> boot_information \<Rightarrow> bool" where
  "map_inside lo hi mem c \<longleftrightarrow>
     (case bi_memory_map c of
        None \<Rightarrow> True
      | Some mmap \<Rightarrow> lo \<le> mmap \<and> 24 \<le> map_entry_size mem mmap \<and>
          mmap + 16 + bi_memory_map_entry_count c * map_entry_size mem mmap \<le> hi \<and>
          bi_memory_map_entry_count c * map_entry_size mem mmap < 2 ^ 32)"

lemma entry_inside:
  assumes "(i :: nat) < n" "24 \<le> s" "m + 16 + n * s \<le> hi"
  shows "m + 16 + i * s + 24 \<le> hi" "i * s \<le> n * s"
proof -
  have "Suc i * s \<le> n * s" using assms(1) by (intro mult_le_mono1) simp
  then show "m + 16 + i * s + 24 \<le> hi" "i * s \<le> n * s" using assms(2,3) unfolding mult_Suc by linarith+
qed

lemma region_at_agree:
  assumes "agree lo hi mem mem'" "map_inside lo hi mem c"
  shows "boot_information_region_at mem (Some c) i = boot_information_region_at mem' (Some c) i"
proof (cases "bi_memory_map c")
  case (Some m)
  note in_map = assms(2) [unfolded map_inside_def Some option.case]
  have es: "map_entry_size mem m = map_entry_size mem' m"
    using in_map by (intro agree_loads(2) [OF assms(1)]) auto
  show ?thesis
  proof (cases "i < bi_memory_map_entry_count c")
    case True
    let ?e = "m + 16 + i * map_entry_size mem m"
    have e: "?e + 24 \<le> hi" "i * map_entry_size mem m < 2 ^ 32"
      using entry_inside [OF True, of "map_entry_size mem m" m hi] in_map by linarith+
    have "mul64 i (map_entry_size mem m) = i * map_entry_size mem m"
      by (rule mul64_exact, rule less_trans [OF e(2)]) simp
    moreover have "load64 mem ?e = load64 mem' ?e" "load64 mem (?e + 8) = load64 mem' (?e + 8)"
      "load32 mem (?e + 16) = load32 mem' (?e + 16)"
      using e(1) in_map by (auto intro!: agree_loads [OF assms(1)])
    ultimately show ?thesis using Some True es by (simp add: boot_information_region_at_def)
  qed (use Some in \<open>simp add: boot_information_region_at_def\<close>)
qed (simp add: boot_information_region_at_def)

lemma map_inside_cong:
  "bi_memory_map c = bi_memory_map d \<Longrightarrow> bi_memory_map_entry_count c = bi_memory_map_entry_count d \<Longrightarrow>
    map_inside lo hi mem c = map_inside lo hi mem d"
  by (simp add: map_inside_def split: option.split)

lemma validate_regions_agree:
  assumes "agree lo hi mem mem'" "map_inside lo hi mem c"
  shows "validate_regions mem is c = validate_regions mem' is c"
  using assms(2)
proof (induction "is" arbitrary: c)
  case (Cons i is')
  have IH: "validate_regions mem is' d = validate_regions mem' is' d"
    if "bi_memory_map d = bi_memory_map c" "bi_memory_map_entry_count d = bi_memory_map_entry_count c" for d
    using Cons map_inside_cong [OF that] by simp
  show ?case
    unfolding validate_regions.simps(2) region_at_agree [OF assms(1) Cons.prems]
    by (auto simp: Let_def IH split: option.split)
qed simp

lemma validate_memory_map_agree:
  assumes "agree lo hi mem mem'" "lo \<le> mmap" "mmap + tag_size mem mmap \<le> hi"
    "tag_size mem mmap = tag_size mem' mmap"
  shows "validate_memory_map mem mmap c = validate_memory_map mem' mmap c"
proof (cases "tag_size mem mmap < 16")
  case False
  have eq: "map_entry_size mem mmap = map_entry_size mem' mmap"
    "map_entry_version mem mmap = map_entry_version mem' mmap"
    using False assms(2,3) by (auto intro!: agree_loads(2) [OF assms(1)])
  let ?n = "(tag_size mem mmap - 16) div map_entry_size mem mmap"
  have "?n * map_entry_size mem mmap \<le> tag_size mem mmap - 16" by simp
  then have "mmap + 16 + ?n * map_entry_size mem mmap \<le> hi" "?n * map_entry_size mem mmap < 2 ^ 32"
    using assms(3) False load32_bound [of mem "mmap + 4"] by linarith+
  then have "map_inside lo hi mem (c\<lparr>bi_memory_map := Some mmap, bi_memory_map_entry_count := ?n\<rparr>)"
    if "24 \<le> map_entry_size mem mmap"
    using that assms(2) by (simp add: map_inside_def)
  then show ?thesis
    using validate_regions_agree [OF assms(1)]
    by (simp add: validate_memory_map_def Let_def eq [symmetric] assms(4) [symmetric])
qed (simp add: validate_memory_map_def assms(4))

lemma decode_framebuffer_agree:
  assumes "agree lo hi mem mem'" "lo \<le> tag" "tag + tag_size mem tag \<le> hi"
    "tag_size mem tag = tag_size mem' tag"
  shows "decode_framebuffer mem tag fb = decode_framebuffer mem' tag fb"
proof (cases "tag_size mem tag < 32")
  case False
  note L = agree_loads [OF assms(1)]
  have common: "load64 mem (tag + 8) = load64 mem' (tag + 8)" "load32 mem (tag + 16) = load32 mem' (tag + 16)"
    "load32 mem (tag + 20) = load32 mem' (tag + 20)" "load32 mem (tag + 24) = load32 mem' (tag + 24)"
    "load8 mem (tag + 28) = load8 mem' (tag + 28)" "load8 mem (tag + 29) = load8 mem' (tag + 29)"
    using False assms(2,3) by (auto intro!: L)
  show ?thesis
  proof (cases "tag_size mem tag < 38")
    case False
    then have "load8 mem (tag + 32) = load8 mem' (tag + 32)" "load8 mem (tag + 33) = load8 mem' (tag + 33)"
      "load8 mem (tag + 34) = load8 mem' (tag + 34)" "load8 mem (tag + 35) = load8 mem' (tag + 35)"
      "load8 mem (tag + 36) = load8 mem' (tag + 36)" "load8 mem (tag + 37) = load8 mem' (tag + 37)"
      using assms(2,3) by (auto intro!: L)
    then show ?thesis by (simp only: decode_framebuffer_def Let_def common assms(4))
  qed (simp add: decode_framebuffer_def Let_def common assms(4) [symmetric])
qed (simp add: decode_framebuffer_def assms(4))

lemma first_index_cong:
  "(\<And>x. x \<in> set xs \<Longrightarrow> P x = Q x) \<Longrightarrow> first_index P xs = first_index Q xs"
  by (induction xs) auto

lemma parse_tag_agree:
  assumes "agree lo hi mem mem'" "lo \<le> tag" "tag + tag_size mem tag \<le> hi" "8 \<le> tag_size mem tag"
  shows "parse_tag mem tag c = parse_tag mem' tag c" "tag_size mem tag = tag_size mem' tag"
    "tag_type mem tag = tag_type mem' tag"
proof -
  show size: "tag_size mem tag = tag_size mem' tag" and type: "tag_type mem tag = tag_type mem' tag"
    using assms(2-4) by (auto intro!: agree_loads [OF assms(1)])
  have "string_length_within mem tag (tag_size mem' tag) = string_length_within mem' tag (tag_size mem' tag)"
    unfolding size [symmetric]
    using assms by (auto simp: string_length_within_def agree_def intro!: first_index_cong)
  then show "parse_tag mem tag c = parse_tag mem' tag c"
    unfolding parse_tag_def validate_memory_map_agree [OF assms(1-3) size]
      decode_framebuffer_agree [OF assms(1-3) size]
    by (simp only: size type Let_def)
qed

lemma parse_tags_agree:
  assumes "agree base (base + total_size) mem mem'"
  shows "parse_tags mem base total_size offset c = parse_tags mem' base total_size offset c"
  using assms
proof (induction mem base total_size offset c rule: parse_tags.induct)
  case (1 mem base total_size offset c)
  let ?tag = "base + offset"
  show ?case
  proof (cases "offset < total_size \<and> range_fits offset 8 total_size")
    case True
    have size: "tag_size mem ?tag = tag_size mem' ?tag"
      using True by (intro agree_loads(2) [OF 1(2)]) (auto simp: range_fits_def)
    show ?thesis
    proof (cases "8 \<le> tag_size mem ?tag \<and> range_fits offset (tag_size mem ?tag) total_size")
      case fits: True
      then have tag: "base \<le> ?tag" "?tag + tag_size mem ?tag \<le> base + total_size" "8 \<le> tag_size mem ?tag"
        by (auto simp: range_fits_def)
      note A = parse_tag_agree [OF 1(2) tag]
      show ?thesis
        using True fits 1(1) [OF _ _ refl refl _ _ _ _ _ refl _ 1(2)]
        by (subst (1 2) parse_tags.simps)
           (auto simp: Let_def A [symmetric] split: prod.split)
    qed (use True size in \<open>simp add: parse_tags.simps Let_def\<close>)
  qed (simp add: parse_tags.simps)
qed


section \<open>Properties\<close>

text \<open>
  C12. The parser reads nothing outside the block the loader handed over. Two memories that agree on
  the header and on the \<open>total_size\<close> bytes the header announces give the same status and the same
  context, so no byte outside the block, however malformed its tags, can influence the result.
\<close>

theorem boot_parse_reads_block_only:
  assumes "agree addr (addr + max 8 (load32 mem addr)) mem mem'"
  shows "boot_information_parse mem magic addr context = boot_information_parse mem' magic addr context"
proof -
  have header: "load32 mem addr = load32 mem' addr" "load32 mem (addr + 4) = load32 mem' (addr + 4)"
    by (auto intro!: agree_loads(2) [OF assms])
  have "agree addr (addr + load32 mem addr) mem mem'"
    using assms by (auto simp: agree_def)
  from parse_tags_agree [OF this]
  have "parse_tags mem addr (load32 mem' addr) offset c = parse_tags mem' addr (load32 mem' addr) offset c"
    for offset c using header(1) by simp
  then show ?thesis
    by (simp only: boot_information_parse_def Let_def header)
qed

text \<open>
  C13. When the parser succeeds, the context describes the memory map faithfully. The map tag lies
  inside the block, its size is exactly its header plus the recorded number of entries; no region
  wraps around the address space; \<open>highest_reported_address\<close> is the greatest region end and
  \<open>reported_usable_bytes\<close> is the total length of the available regions, saturated at the greatest
  64-bit value.
\<close>

theorem boot_parse_memory_map:
  assumes "boot_information_parse mem magic addr context = (BOOT_STATUS_OK, Some c)"
  shows "bi_information_start c = addr \<and> bi_information_end c \<le> RSD_EARLY_PHYSICAL_LIMIT \<and>
    (\<exists>mmap. bi_memory_map c = Some mmap \<and> addr \<le> mmap \<and> 24 \<le> map_entry_size mem mmap \<and>
       mmap + 16 + bi_memory_map_entry_count c * map_entry_size mem mmap \<le> bi_information_end c) \<and>
    (\<forall>r \<in> set (boot_regions mem c). region_end r \<le> UINT64_MAX \<and>
       region_end r \<le> bi_highest_reported_address c) \<and>
    (boot_regions mem c \<noteq> [] \<longrightarrow> bi_highest_reported_address c \<in> region_end ` set (boot_regions mem c)) \<and>
    bi_reported_usable_bytes c = min UINT64_MAX (sum_list (map usable_length (boot_regions mem c)))"
proof -
  note P = boot_parse_OK [OF assms]
  obtain mmap where mmap: "bi_memory_map c = Some mmap" using P(2) by auto
  have acc: "map_accounted mem c" using P(1) by (simp add: block_inv_def parse_inv_def)
  note A = acc [unfolded map_accounted_def mmap option.case]
  let ?ends = "map region_end (boot_regions mem c)"
  have top: "bi_highest_reported_address c = Max (insert 0 (set ?ends))"
    using A Max.set_eq_fold [of 0 ?ends] by (simp add: max.commute)
  have below: "region_end r \<le> bi_highest_reported_address c" if "r \<in> set (boot_regions mem c)" for r
    unfolding top using that by (intro Max_ge) auto
  have "bi_highest_reported_address c \<in> region_end ` set (boot_regions mem c)"
    if "boot_regions mem c \<noteq> []"
  proof -
    have "bi_highest_reported_address c = Max (set ?ends)"
      unfolding top using that by (subst Max_insert) auto
    then show ?thesis using Max_in [of "set ?ends"] that by auto
  qed
  then show ?thesis
    using P mmap A below by (auto simp: block_inv_def)
qed

text \<open>
  C14. A framebuffer that the parser accepts can be drawn on. Every pixel of the visible area, at
  four bytes per pixel and the recorded pitch, is 4-byte aligned and lies inside the recorded
  extent, which itself lies below 4 GiB; the three colour channels are distinct whole bytes of the
  pixel.
\<close>

theorem boot_parse_framebuffer_pixels:
  assumes "boot_information_parse mem magic addr context = (BOOT_STATUS_OK, Some c)"
    and "fb = bi_framebuffer c" and "fb_present fb" and "x < fb_width fb" "y < fb_height fb"
  shows "fb_address fb + y * fb_pitch fb + 4 * x + 4 \<le> fb_address fb + fb_size fb \<and>
    fb_address fb + fb_size fb \<le> RSD_EARLY_PHYSICAL_LIMIT \<and>
    4 dvd fb_address fb + y * fb_pitch fb + 4 * x \<and>
    distinct [fb_red_position fb, fb_green_position fb, fb_blue_position fb] \<and>
    set [fb_red_position fb, fb_green_position fb, fb_blue_position fb] \<subseteq> {0, 8, 16, 24}"
proof -
  have ok: "framebuffer_ok fb"
    using boot_parse_OK(1) [OF assms(1)] assms(2) by (simp add: block_inv_def parse_inv_def)
  note F = ok [unfolded framebuffer_ok_def, rule_format, OF assms(3)]
  have "Suc y * fb_pitch fb \<le> fb_height fb * fb_pitch fb" using assms(5) by (intro mult_le_mono1) simp
  then have "y * fb_pitch fb + fb_pitch fb \<le> fb_size fb" using F by (simp add: mult.commute)
  moreover have "4 * x + 4 \<le> fb_pitch fb" using assms(4) F by linarith
  ultimately have "y * fb_pitch fb + 4 * x + 4 \<le> fb_size fb" by linarith
  moreover have "4 dvd fb_address fb + y * fb_pitch fb + 4 * x" using F by auto
  ultimately show ?thesis using F by auto
qed

section \<open>Witnesses\<close>

text \<open>A block at 0x1000 with one available region, a 2 by 2 framebuffer and the end tag.\<close>

definition demo_block :: "u8 list" where
  "demo_block =
     [96, 0, 0, 0, 0, 0, 0, 0] @
     [6, 0, 0, 0, 40, 0, 0, 0, 24, 0, 0, 0, 0, 0, 0, 0,
      0, 0, 16, 0, 0, 0, 0, 0, 0, 0, 16, 0, 0, 0, 0, 0, 1, 0, 0, 0, 0, 0, 0, 0] @
     [8, 0, 0, 0, 38, 0, 0, 0, 0, 0, 0, 128, 0, 0, 0, 0,
      8, 0, 0, 0, 2, 0, 0, 0, 2, 0, 0, 0, 32, 1, 0, 0, 16, 8, 8, 8, 0, 8, 0, 0] @
     [0, 0, 0, 0, 8, 0, 0, 0]"

definition demo_memory :: memory where
  "demo_memory a = (if 0x1000 \<le> a \<and> a < 0x1060 then demo_block ! (a - 0x1000) else 0)"

lemmas demo_loads = load8_def load32_def load64_def read_u64_def read_u32_def demo_memory_def
  demo_block_def

lemma demo_bytes:
  "load32 demo_memory 4096 = 96" "load32 demo_memory 4100 = 0"
  "load32 demo_memory 4104 = 6" "load32 demo_memory 4108 = 40" "load32 demo_memory 4112 = 24"
  "load32 demo_memory 4116 = 0" "load64 demo_memory 4120 = 0x100000" "load64 demo_memory 4128 = 0x100000"
  "load32 demo_memory 4136 = 1"
  "load32 demo_memory 4144 = 8" "load32 demo_memory 4148 = 38" "load64 demo_memory 4152 = 0x80000000"
  "load32 demo_memory 4160 = 8" "load32 demo_memory 4164 = 2" "load32 demo_memory 4168 = 2"
  "load8 demo_memory 4172 = 32" "load8 demo_memory 4173 = 1" "load8 demo_memory 4176 = 16"
  "load8 demo_memory 4177 = 8" "load8 demo_memory 4178 = 8" "load8 demo_memory 4179 = 8"
  "load8 demo_memory 4180 = 0" "load8 demo_memory 4181 = 8"
  "load32 demo_memory 4184 = 0" "load32 demo_memory 4188 = 8"
  by (simp_all add: demo_loads)


lemmas demo_eval = demo_bytes Let_def range_fits_def align_tag_size_def add64_def not64_def mul64_def
  parse_tag_def validate_memory_map_def validate_regions.simps boot_information_region_at_def
  UINT64_MAX_def decode_framebuffer_def channel_malformed_def

definition demo_context :: boot_information where
  "demo_context = boot_information_reset\<lparr>bi_information_start := 4096, bi_information_end := 4192,
     bi_memory_map := Some 4104, bi_memory_map_entry_count := 1, bi_highest_reported_address := 0x200000,
     bi_reported_usable_bytes := 0x100000,
     bi_framebuffer := \<lparr>fb_address = 0x80000000, fb_pitch = 8, fb_width = 2, fb_height = 2, fb_size = 16,
       fb_bits_per_pixel = 32, fb_red_position = 16, fb_green_position = 8, fb_blue_position = 0,
       fb_present = True\<rparr>\<rparr>"

lemma demo_tags:
  "parse_tags demo_memory 4096 96 8 (boot_information_reset\<lparr>bi_information_start := 4096,
     bi_information_end := 4192\<rparr>) = (BOOT_STATUS_OK, True, demo_context)"
  by (simp add: parse_tags.simps demo_eval boot_information_reset_def demo_context_def)

lemma demo_parse:
  "boot_information_parse demo_memory MULTIBOOT2_BOOT_MAGIC 4096 (Some boot_information_reset) =
     (BOOT_STATUS_OK, Some demo_context)"
  by (simp add: boot_information_parse_def demo_eval demo_tags, simp add: demo_context_def)

theorem boot_parse_reads_block_only_witness:
  "boot_information_parse (demo_memory(0 := 255, 5000 := 7)) MULTIBOOT2_BOOT_MAGIC 4096
     (Some boot_information_reset) = (BOOT_STATUS_OK, Some demo_context)"
proof -
  have "agree 4096 (4096 + max 8 (load32 demo_memory 4096)) demo_memory (demo_memory(0 := 255, 5000 := 7))"
    by (auto simp: agree_def demo_bytes)
  from boot_parse_reads_block_only [OF this] demo_parse show ?thesis by simp
qed

theorem boot_parse_memory_map_witness:
  "boot_information_parse demo_memory MULTIBOOT2_BOOT_MAGIC 4096 (Some boot_information_reset) =
     (BOOT_STATUS_OK, Some demo_context) \<and>
   bi_reported_usable_bytes demo_context =
     min UINT64_MAX (sum_list (map usable_length (boot_regions demo_memory demo_context)))"
  using boot_parse_memory_map [OF demo_parse] demo_parse by blast

theorem boot_parse_framebuffer_pixels_witness:
  "fb_address (bi_framebuffer demo_context) + 1 * fb_pitch (bi_framebuffer demo_context) + 4 * 1 + 4
     \<le> fb_address (bi_framebuffer demo_context) + fb_size (bi_framebuffer demo_context)"
proof -
  have "fb_present (bi_framebuffer demo_context)" "1 < fb_width (bi_framebuffer demo_context)"
    "1 < fb_height (bi_framebuffer demo_context)" by (simp_all add: demo_context_def)
  from boot_parse_framebuffer_pixels [OF demo_parse refl this] show ?thesis by blast
qed

end
