(* ===== verification/Frames.thy ===== *)
theory Frames
  imports Multiboot
begin

text \<open>
  The physical frame allocator, \<open>src/kernel/physical_memory.c\<close>. The two bitmaps are functions from
  byte index to byte, read and written a bit at a time as the code does; a frame is \<^emph>\<open>eligible\<close> when
  the allocator may hand it out and \<^emph>\<open>used\<close> while it is handed out. The file's static variables are
  the record \<open>frame_state\<close>. The linker's \<open>__kernel_start\<close> and \<open>__kernel_end\<close> are parameters of the
  initialisation.
\<close>

section \<open>Data\<close>

abbreviation (input) RSD_PAGE_SIZE :: nat where "RSD_PAGE_SIZE \<equiv> 4096"
abbreviation (input) RSD_LOW_MEMORY_RESERVATION :: nat where "RSD_LOW_MEMORY_RESERVATION \<equiv> 0x100000"
abbreviation (input) FRAME_CONTIGUOUS_ALLOCATION_CAPACITY :: nat where
  "FRAME_CONTIGUOUS_ALLOCATION_CAPACITY \<equiv> 32"

definition FRAME_COUNT :: nat where "FRAME_COUNT = RSD_EARLY_PHYSICAL_LIMIT div RSD_PAGE_SIZE"
definition ISA_DMA_FRAME_LIMIT :: nat where "ISA_DMA_FRAME_LIMIT = 0x1000000 div RSD_PAGE_SIZE"

datatype frame_status =
    FRAME_STATUS_OK
  | FRAME_STATUS_NULL_ARGUMENT
  | FRAME_STATUS_NOT_INITIALIZED
  | FRAME_STATUS_BAD_MEMORY_MAP
  | FRAME_STATUS_RANGE_OVERFLOW
  | FRAME_STATUS_RANGE_OUTSIDE_LIMIT
  | FRAME_STATUS_OUT_OF_MEMORY
  | FRAME_STATUS_UNALIGNED_ADDRESS
  | FRAME_STATUS_FRAME_NOT_ALLOCATABLE
  | FRAME_STATUS_FRAME_IN_USE
  | FRAME_STATUS_DOUBLE_FREE
  | FRAME_STATUS_ZERO_PAGE_COUNT
  | FRAME_STATUS_BAD_ALIGNMENT
  | FRAME_STATUS_ALIGNMENT_UNSATISFIABLE
  | FRAME_STATUS_ADDRESS_BOUND_UNSATISFIED
  | FRAME_STATUS_TOO_MANY_CONTIGUOUS_ALLOCATIONS
  | FRAME_STATUS_BAD_CONTIGUOUS_ALLOCATION

record frame_contiguous_request =
  rq_page_count :: nat
  rq_alignment :: nat
  rq_maximum_physical_address :: nat

record frame_contiguous_allocation =
  fc_physical_base :: nat
  fc_page_count :: nat
  fc_alignment :: nat
  fc_maximum_physical_address :: nat
  fc_identifier :: nat
  fc_active :: bool

record frame_allocator_stats =
  fs_addressable_frames :: nat
  fs_allocatable_frames :: nat
  fs_free_frames :: nat
  fs_allocated_frames :: nat
  fs_reserved_frames :: nat
  fs_highest_allocatable_address :: nat

record contiguous_record =
  cont_physical_base :: nat
  cont_page_count :: nat
  cont_identifier :: nat
  cont_active :: bool

type_synonym bitmap = "nat \<Rightarrow> u8"

record frame_state =
  fa_eligible_bitmap :: bitmap
  fa_used_bitmap :: bitmap
  fa_stats :: frame_allocator_stats
  fa_next_search_index :: nat
  fa_initialized :: bool
  fa_contiguous_records :: "contiguous_record list"
  fa_next_contiguous_identifier :: nat

section \<open>Bitmaps and ranges\<close>

definition bitmap_get :: "bitmap \<Rightarrow> nat \<Rightarrow> bool" where
  "bitmap_get bitmap frame_index \<longleftrightarrow>
     (let mask = push_bit (frame_index mod 8) 1 in bitmap (frame_index div 8) AND mask \<noteq> 0)"

definition bitmap_set :: "bitmap \<Rightarrow> nat \<Rightarrow> bool \<Rightarrow> bitmap" where
  "bitmap_set bitmap frame_index value =
     (let mask = push_bit (frame_index mod 8) 1; byte = bitmap (frame_index div 8) in
      bitmap(frame_index div 8 := (if value then byte OR mask else byte AND NOT mask)))"

definition bitmap_fill :: "u8 \<Rightarrow> bitmap" where
  "bitmap_fill value = (\<lambda>_. value)"

definition checked_range_end :: "nat \<Rightarrow> nat \<Rightarrow> nat option" where
  "checked_range_end base len = (if len > UINT64_MAX - base then None else Some (add64 base len))"

definition power_of_two :: "nat \<Rightarrow> bool" where
  "power_of_two v \<longleftrightarrow> v \<noteq> 0 \<and> v AND (v - 1) = 0"

definition frame_in_contiguous_allocation :: "frame_state \<Rightarrow> nat \<Rightarrow> bool" where
  "frame_in_contiguous_allocation st frame \<longleftrightarrow>
     list_ex (\<lambda>r. let first = cont_physical_base r div RSD_PAGE_SIZE in
               cont_active r \<and> frame \<ge> first \<and> frame - first < cont_page_count r)
       (fa_contiguous_records st)"

text \<open>The two frame bounds are half-open index ranges; the empty range is \<open>(0, 0)\<close>.\<close>

definition available_frame_bounds :: "nat \<Rightarrow> nat \<Rightarrow> frame_status + nat \<times> nat" where
  "available_frame_bounds base len =
     (case checked_range_end base len of
        None \<Rightarrow> Inl FRAME_STATUS_RANGE_OVERFLOW
      | Some end_address \<Rightarrow>
          if len = 0 \<or> base \<ge> RSD_EARLY_PHYSICAL_LIMIT then Inr (0, 0)
          else
            (let clipped_end = (if end_address < RSD_EARLY_PHYSICAL_LIMIT then end_address
                                else RSD_EARLY_PHYSICAL_LIMIT);
                 aligned_base = add64 base 4095 AND not64 4095 in
             if aligned_base \<ge> clipped_end then Inr (0, 0)
             else Inr (aligned_base div RSD_PAGE_SIZE, (clipped_end AND not64 4095) div RSD_PAGE_SIZE)))"

definition covering_frame_bounds :: "nat \<Rightarrow> nat \<Rightarrow> frame_status + nat \<times> nat" where
  "covering_frame_bounds base len =
     (case checked_range_end base len of
        None \<Rightarrow> Inl FRAME_STATUS_RANGE_OVERFLOW
      | Some end_address \<Rightarrow>
          if len = 0 then Inr (0, 0)
          else if base \<ge> RSD_EARLY_PHYSICAL_LIMIT then Inl FRAME_STATUS_RANGE_OUTSIDE_LIMIT
          else
            (let clipped_end = (if end_address < RSD_EARLY_PHYSICAL_LIMIT then end_address
                                else RSD_EARLY_PHYSICAL_LIMIT);
                 past = clipped_end div RSD_PAGE_SIZE in
             Inr (base div RSD_PAGE_SIZE,
                  if clipped_end AND 4095 \<noteq> 0 then past + 1 else past)))"

text \<open>\<open>mark_frames\<close> is the loop of both markers, on the frames below \<open>past_last_frame\<close>.\<close>

definition mark_frames :: "bool \<Rightarrow> bool \<Rightarrow> nat \<Rightarrow> nat \<Rightarrow> frame_state \<Rightarrow> frame_state" where
  "mark_frames eligible used first_frame past_last_frame st =
     fold (\<lambda>frame st. st\<lparr>fa_eligible_bitmap := bitmap_set (fa_eligible_bitmap st) frame eligible,
                         fa_used_bitmap := bitmap_set (fa_used_bitmap st) frame used\<rparr>)
       [first_frame ..< past_last_frame] st"

definition mark_available_frames :: "nat \<Rightarrow> nat \<Rightarrow> frame_state \<Rightarrow> frame_state" where
  "mark_available_frames = mark_frames True False"

definition mark_reserved_frames :: "nat \<Rightarrow> nat \<Rightarrow> frame_state \<Rightarrow> frame_state" where
  "mark_reserved_frames = mark_frames False True"

definition reserve_internal :: "nat \<Rightarrow> nat \<Rightarrow> frame_state \<Rightarrow> frame_status \<times> frame_state" where
  "reserve_internal base len st =
     (case covering_frame_bounds base len of
        Inl status \<Rightarrow> (status, st)
      | Inr (first_frame, past_last_frame) \<Rightarrow>
          (FRAME_STATUS_OK, mark_reserved_frames first_frame past_last_frame st))"

text \<open>One turn of the counting loop; the counters cannot exceed the number of turns.\<close>

definition count_frame :: "frame_state \<Rightarrow> nat \<Rightarrow> frame_allocator_stats \<Rightarrow> frame_allocator_stats" where
  "count_frame st frame stats =
     (if \<not> bitmap_get (fa_eligible_bitmap st) frame
        then stats\<lparr>fs_reserved_frames := fs_reserved_frames stats + 1\<rparr>
      else
        (let stats1 = stats\<lparr>fs_allocatable_frames := fs_allocatable_frames stats + 1,
                            fs_highest_allocatable_address := (frame + 1) * RSD_PAGE_SIZE\<rparr> in
         if bitmap_get (fa_used_bitmap st) frame
           then stats1\<lparr>fs_allocated_frames := fs_allocated_frames stats1 + 1\<rparr>
         else stats1\<lparr>fs_free_frames := fs_free_frames stats1 + 1\<rparr>))"

definition recompute_stats :: "frame_state \<Rightarrow> frame_state" where
  "recompute_stats st =
     st\<lparr>fa_stats := fold (count_frame st) [0 ..< FRAME_COUNT]
          \<lparr>fs_addressable_frames = FRAME_COUNT, fs_allocatable_frames = 0, fs_free_frames = 0,
           fs_allocated_frames = 0, fs_reserved_frames = 0, fs_highest_allocatable_address = 0\<rparr>\<rparr>"

section \<open>Initialisation\<close>

text \<open>One pass over the memory map: \<open>available\<close> is the kind of region the pass is about.\<close>

primrec apply_regions ::
    "memory \<Rightarrow> boot_information \<Rightarrow> bool \<Rightarrow> nat list \<Rightarrow> frame_state \<Rightarrow> frame_status \<times> frame_state" where
  "apply_regions mem context wanted [] st = (FRAME_STATUS_OK, st)"
| "apply_regions mem context wanted (index # rest) st =
     (case boot_information_region_at mem (Some context) index of
        None \<Rightarrow> (FRAME_STATUS_BAD_MEMORY_MAP, st)
      | Some region \<Rightarrow>
          (let available = (region_type region = MULTIBOOT2_MEMORY_AVAILABLE) in
           if wanted \<noteq> available then apply_regions mem context wanted rest st
           else if available then
             (case available_frame_bounds (region_base_address region) (region_length region) of
                Inl status \<Rightarrow> (status, st)
              | Inr (first_frame, past_last_frame) \<Rightarrow>
                  apply_regions mem context wanted rest
                    (mark_available_frames first_frame past_last_frame st))
           else
             (case covering_frame_bounds (region_base_address region) (region_length region) of
                Inl status \<Rightarrow>
                  if status = FRAME_STATUS_RANGE_OUTSIDE_LIMIT
                  then apply_regions mem context wanted rest st else (status, st)
              | Inr (first_frame, past_last_frame) \<Rightarrow>
                  apply_regions mem context wanted rest
                    (mark_reserved_frames first_frame past_last_frame st))))"

definition apply_memory_map ::
    "memory \<Rightarrow> boot_information \<Rightarrow> frame_state \<Rightarrow> frame_status \<times> frame_state" where
  "apply_memory_map mem context st =
     (let indices = [0 ..< bi_memory_map_entry_count context];
          (status, st1) = apply_regions mem context True indices st in
      if status \<noteq> FRAME_STATUS_OK then (status, st1)
      else apply_regions mem context False indices st1)"

definition empty_record :: contiguous_record where
  "empty_record = \<lparr>cont_physical_base = 0, cont_page_count = 0, cont_identifier = 0, cont_active = False\<rparr>"

definition frame_allocator_initialize ::
    "memory \<Rightarrow> nat \<Rightarrow> nat \<Rightarrow> boot_information option \<Rightarrow> frame_state \<Rightarrow> frame_status \<times> frame_state" where
  "frame_allocator_initialize mem kernel_start kernel_end context st =
     (case context of
        None \<Rightarrow> (FRAME_STATUS_NULL_ARGUMENT, st)
      | Some c \<Rightarrow>
          if bi_memory_map c = None then (FRAME_STATUS_NULL_ARGUMENT, st)
          else
            (let st0 = st\<lparr>fa_initialized := False, fa_next_search_index := 0,
                          fa_next_contiguous_identifier := 1,
                          fa_eligible_bitmap := bitmap_fill 0, fa_used_bitmap := bitmap_fill 255,
                          fa_contiguous_records :=
                            replicate FRAME_CONTIGUOUS_ALLOCATION_CAPACITY empty_record\<rparr>;
                 (status1, st1) = apply_memory_map mem c st0 in
             if status1 \<noteq> FRAME_STATUS_OK then (status1, st1)
             else
               (let (status2, st2) = reserve_internal 0 RSD_LOW_MEMORY_RESERVATION st1 in
                if status2 \<noteq> FRAME_STATUS_OK then (status2, st2)
                else if kernel_end < kernel_start then (FRAME_STATUS_RANGE_OVERFLOW, st2)
                else
                  (let (status3, st3) = reserve_internal kernel_start (sub64 kernel_end kernel_start) st2 in
                   if status3 \<noteq> FRAME_STATUS_OK then (status3, st3)
                   else
                     (let (status4, st4) = reserve_internal (bi_information_start c)
                            (sub64 (bi_information_end c) (bi_information_start c)) st3 in
                      if status4 \<noteq> FRAME_STATUS_OK then (status4, st4)
                      else
                        (let st5 = recompute_stats st4 in
                         if fs_free_frames (fa_stats st5) = 0 then (FRAME_STATUS_OUT_OF_MEMORY, st5)
                         else (FRAME_STATUS_OK,
                           st5\<lparr>fa_next_search_index := RSD_LOW_MEMORY_RESERVATION div RSD_PAGE_SIZE,
                               fa_initialized := True\<rparr>)))))))"

section \<open>Single frames\<close>

definition frame_free :: "frame_state \<Rightarrow> nat \<Rightarrow> bool" where
  "frame_free st frame \<longleftrightarrow>
     bitmap_get (fa_eligible_bitmap st) frame \<and> \<not> bitmap_get (fa_used_bitmap st) frame"

text \<open>One pass of the search: circular from the search index within \<open>[first, past)\<close>.\<close>

definition search_pass :: "frame_state \<Rightarrow> nat \<Rightarrow> nat \<Rightarrow> nat option" where
  "search_pass st first past =
     (let count = past - first;
          start = (if fa_next_search_index st \<ge> first \<and> fa_next_search_index st < past
                   then fa_next_search_index st else first) in
      find (frame_free st) (map (\<lambda>step. first + (start - first + step) mod count) [0 ..< count]))"

definition take_frame :: "frame_state \<Rightarrow> nat \<Rightarrow> frame_state" where
  "take_frame st frame =
     st\<lparr>fa_used_bitmap := bitmap_set (fa_used_bitmap st) frame True,
        fa_stats := (fa_stats st)
          \<lparr>fs_free_frames := sub64 (fs_free_frames (fa_stats st)) 1,
           fs_allocated_frames := add64 (fs_allocated_frames (fa_stats st)) 1\<rparr>,
        fa_next_search_index :=
          (if frame + 1 = FRAME_COUNT then ISA_DMA_FRAME_LIMIT else frame + 1)\<rparr>"

text \<open>The address is what the call stores through its argument.\<close>

definition frame_allocate ::
    "nat option \<Rightarrow> frame_state \<Rightarrow> frame_status \<times> nat option \<times> frame_state" where
  "frame_allocate physical_address st =
     (if physical_address = None then (FRAME_STATUS_NULL_ARGUMENT, None, st)
      else if \<not> fa_initialized st then (FRAME_STATUS_NOT_INITIALIZED, physical_address, st)
      else if fs_free_frames (fa_stats st) = 0 then (FRAME_STATUS_OUT_OF_MEMORY, physical_address, st)
      else
        (case search_pass st ISA_DMA_FRAME_LIMIT FRAME_COUNT of
           Some frame \<Rightarrow> (FRAME_STATUS_OK, Some (frame * RSD_PAGE_SIZE), take_frame st frame)
         | None \<Rightarrow>
             (case search_pass st 0 ISA_DMA_FRAME_LIMIT of
                Some frame \<Rightarrow> (FRAME_STATUS_OK, Some (frame * RSD_PAGE_SIZE), take_frame st frame)
              | None \<Rightarrow> (FRAME_STATUS_OUT_OF_MEMORY, physical_address, st))))"

definition frame_release :: "nat \<Rightarrow> frame_state \<Rightarrow> frame_status \<times> frame_state" where
  "frame_release physical_address st =
     (if \<not> fa_initialized st then (FRAME_STATUS_NOT_INITIALIZED, st)
      else if physical_address AND 4095 \<noteq> 0 then (FRAME_STATUS_UNALIGNED_ADDRESS, st)
      else if physical_address \<ge> RSD_EARLY_PHYSICAL_LIMIT then (FRAME_STATUS_RANGE_OUTSIDE_LIMIT, st)
      else
        (let frame = physical_address div RSD_PAGE_SIZE in
         if \<not> bitmap_get (fa_eligible_bitmap st) frame then (FRAME_STATUS_FRAME_NOT_ALLOCATABLE, st)
         else if \<not> bitmap_get (fa_used_bitmap st) frame then (FRAME_STATUS_DOUBLE_FREE, st)
         else if frame_in_contiguous_allocation st frame then (FRAME_STATUS_FRAME_IN_USE, st)
         else (FRAME_STATUS_OK,
           st\<lparr>fa_used_bitmap := bitmap_set (fa_used_bitmap st) frame False,
              fa_stats := (fa_stats st)
                \<lparr>fs_free_frames := add64 (fs_free_frames (fa_stats st)) 1,
                 fs_allocated_frames := sub64 (fs_allocated_frames (fa_stats st)) 1\<rparr>,
              fa_next_search_index :=
                (if frame < fa_next_search_index st then frame else fa_next_search_index st)\<rparr>)))"

section \<open>Contiguous runs\<close>

definition set_used :: "bool \<Rightarrow> nat \<Rightarrow> nat \<Rightarrow> bitmap \<Rightarrow> bitmap" where
  "set_used used first page_count bitmap =
     fold (\<lambda>offset bitmap. bitmap_set bitmap (first + offset) used) [0 ..< page_count] bitmap"

definition cleared_contiguous :: frame_contiguous_allocation where
  "cleared_contiguous = \<lparr>fc_physical_base = 0, fc_page_count = 0, fc_alignment = 0,
     fc_maximum_physical_address = 0, fc_identifier = 0, fc_active = False\<rparr>"

definition contiguous_fits :: "frame_state \<Rightarrow> frame_contiguous_request \<Rightarrow> nat \<Rightarrow> bool" where
  "contiguous_fits st request first \<longleftrightarrow>
     mul64 first RSD_PAGE_SIZE AND (rq_alignment request - 1) = 0 \<and>
     list_all (\<lambda>offset. frame_free st (first + offset)) [0 ..< rq_page_count request]"

definition next_identifier :: "nat \<Rightarrow> nat" where
  "next_identifier n = (if add64 n 1 = 0 then 1 else add64 n 1)"

text \<open>The checks on a request, in order, and the frame index its address bound ends at.\<close>

definition contiguous_past_frame :: "frame_contiguous_request \<Rightarrow> nat" where
  "contiguous_past_frame rq =
     (let bound = (if rq_maximum_physical_address rq = UINT64_MAX then UINT64_MAX
                   else rq_maximum_physical_address rq + 1);
          bound_end = (if bound > RSD_EARLY_PHYSICAL_LIMIT then RSD_EARLY_PHYSICAL_LIMIT else bound)
      in bound_end div RSD_PAGE_SIZE)"

definition contiguous_request_status :: "frame_contiguous_request \<Rightarrow> frame_status" where
  "contiguous_request_status rq =
     (if rq_page_count rq = 0 then FRAME_STATUS_ZERO_PAGE_COUNT
      else if \<not> power_of_two (rq_alignment rq) \<or> rq_alignment rq < RSD_PAGE_SIZE \<or>
              rq_alignment rq mod RSD_PAGE_SIZE \<noteq> 0
        then FRAME_STATUS_BAD_ALIGNMENT
      else if rq_alignment rq > RSD_EARLY_PHYSICAL_LIMIT \<or>
              rq_alignment rq > rq_maximum_physical_address rq +
                (if rq_maximum_physical_address rq \<noteq> UINT64_MAX then 1 else 0)
        then FRAME_STATUS_ALIGNMENT_UNSATISFIABLE
      else if rq_page_count rq > UINT64_MAX div RSD_PAGE_SIZE then FRAME_STATUS_RANGE_OVERFLOW
      else
        (let len = mul64 (rq_page_count rq) RSD_PAGE_SIZE in
         if len = 0 \<or> rq_maximum_physical_address rq < len - 1
           then FRAME_STATUS_ADDRESS_BOUND_UNSATISFIED
         else if contiguous_past_frame rq < rq_page_count rq
           then FRAME_STATUS_ADDRESS_BOUND_UNSATISFIED
         else FRAME_STATUS_OK))"

text \<open>What the call hands out and leaves when it takes the run at \<open>first\<close> into record \<open>k\<close>.\<close>

definition contiguous_handle :: "frame_state \<Rightarrow> frame_contiguous_request \<Rightarrow> nat \<Rightarrow> frame_contiguous_allocation" where
  "contiguous_handle st rq first =
     \<lparr>fc_physical_base = mul64 first RSD_PAGE_SIZE, fc_page_count = rq_page_count rq,
      fc_alignment = rq_alignment rq, fc_maximum_physical_address = rq_maximum_physical_address rq,
      fc_identifier = fa_next_contiguous_identifier st, fc_active = True\<rparr>"

definition take_contiguous ::
    "frame_state \<Rightarrow> frame_contiguous_request \<Rightarrow> nat \<Rightarrow> nat \<Rightarrow> frame_state" where
  "take_contiguous st rq k first =
     st\<lparr>fa_used_bitmap := set_used True first (rq_page_count rq) (fa_used_bitmap st),
        fa_contiguous_records := (fa_contiguous_records st)[k :=
          \<lparr>cont_physical_base = mul64 first RSD_PAGE_SIZE, cont_page_count = rq_page_count rq,
           cont_identifier = fa_next_contiguous_identifier st, cont_active = True\<rparr>],
        fa_next_contiguous_identifier := next_identifier (fa_next_contiguous_identifier st),
        fa_stats := (fa_stats st)
          \<lparr>fs_free_frames := sub64 (fs_free_frames (fa_stats st)) (rq_page_count rq),
           fs_allocated_frames := add64 (fs_allocated_frames (fa_stats st)) (rq_page_count rq)\<rparr>,
        fa_next_search_index :=
          (if first + rq_page_count rq \<ge> FRAME_COUNT then 0 else first + rq_page_count rq)\<rparr>"

definition frame_allocate_contiguous ::
    "frame_contiguous_request option \<Rightarrow> frame_contiguous_allocation option \<Rightarrow> frame_state \<Rightarrow>
     frame_status \<times> frame_contiguous_allocation option \<times> frame_state" where
  "frame_allocate_contiguous request allocation st =
     (case (request, allocation) of
        (Some rq, Some _) \<Rightarrow>
          if \<not> fa_initialized st then (FRAME_STATUS_NOT_INITIALIZED, Some cleared_contiguous, st)
          else if contiguous_request_status rq \<noteq> FRAME_STATUS_OK
            then (contiguous_request_status rq, Some cleared_contiguous, st)
          else
            (case first_index (\<lambda>r. \<not> cont_active r) (fa_contiguous_records st) of
               None \<Rightarrow> (FRAME_STATUS_TOO_MANY_CONTIGUOUS_ALLOCATIONS, Some cleared_contiguous, st)
             | Some k \<Rightarrow>
                 (case find (contiguous_fits st rq)
                         [0 ..< contiguous_past_frame rq - rq_page_count rq + 1] of
                    None \<Rightarrow> (FRAME_STATUS_OUT_OF_MEMORY, Some cleared_contiguous, st)
                  | Some first \<Rightarrow>
                      (FRAME_STATUS_OK, Some (contiguous_handle st rq first),
                       take_contiguous st rq k first)))
      | _ \<Rightarrow> (FRAME_STATUS_NULL_ARGUMENT, allocation, st))"

definition frame_release_contiguous ::
    "frame_contiguous_allocation option \<Rightarrow> frame_state \<Rightarrow>
     frame_status \<times> frame_contiguous_allocation option \<times> frame_state" where
  "frame_release_contiguous allocation st =
     (case allocation of
        None \<Rightarrow> (FRAME_STATUS_NULL_ARGUMENT, None, st)
      | Some a \<Rightarrow>
          if \<not> fa_initialized st then (FRAME_STATUS_NOT_INITIALIZED, Some a, st)
          else if \<not> fc_active a then (FRAME_STATUS_DOUBLE_FREE, Some a, st)
          else
            (case first_index (\<lambda>r. cont_active r \<and> cont_identifier r = fc_identifier a)
                    (fa_contiguous_records st) of
               None \<Rightarrow> (FRAME_STATUS_DOUBLE_FREE, Some a, st)
             | Some k \<Rightarrow>
                 (let r = fa_contiguous_records st ! k;
                      first = cont_physical_base r div RSD_PAGE_SIZE in
                  if cont_physical_base r \<noteq> fc_physical_base a \<or> cont_page_count r \<noteq> fc_page_count a
                    then (FRAME_STATUS_BAD_CONTIGUOUS_ALLOCATION, Some a, st)
                  else if list_ex (\<lambda>offset. \<not> bitmap_get (fa_eligible_bitmap st) (first + offset) \<or>
                                            \<not> bitmap_get (fa_used_bitmap st) (first + offset))
                            [0 ..< cont_page_count r]
                    then (FRAME_STATUS_BAD_CONTIGUOUS_ALLOCATION, Some a, st)
                  else
                    (FRAME_STATUS_OK, Some (a\<lparr>fc_active := False\<rparr>),
                     st\<lparr>fa_used_bitmap := set_used False first (cont_page_count r) (fa_used_bitmap st),
                        fa_stats := (fa_stats st)
                          \<lparr>fs_free_frames := add64 (fs_free_frames (fa_stats st)) (cont_page_count r),
                           fs_allocated_frames :=
                             sub64 (fs_allocated_frames (fa_stats st)) (cont_page_count r)\<rparr>,
                        fa_next_search_index :=
                          (if first < fa_next_search_index st then first else fa_next_search_index st),
                        fa_contiguous_records := (fa_contiguous_records st)[k :=
                          r\<lparr>cont_active := False\<rparr>]\<rparr>))))"

section \<open>Reserving at run time\<close>

definition frame_reserve_range :: "nat \<Rightarrow> nat \<Rightarrow> frame_state \<Rightarrow> frame_status \<times> frame_state" where
  "frame_reserve_range base_address len st =
     (if \<not> fa_initialized st then (FRAME_STATUS_NOT_INITIALIZED, st)
      else
        (case covering_frame_bounds base_address len of
           Inl status \<Rightarrow> (status, st)
         | Inr (first_frame, past_last_frame) \<Rightarrow>
             if list_ex (\<lambda>frame. bitmap_get (fa_eligible_bitmap st) frame \<and>
                                 bitmap_get (fa_used_bitmap st) frame) [first_frame ..< past_last_frame]
               then (FRAME_STATUS_FRAME_IN_USE, st)
             else (FRAME_STATUS_OK,
               recompute_stats (mark_reserved_frames first_frame past_last_frame st))))"

definition frame_range_overlaps_allocatable_memory :: "frame_state \<Rightarrow> nat \<Rightarrow> nat \<Rightarrow> bool" where
  "frame_range_overlaps_allocatable_memory st base_address len =
     (case checked_range_end base_address len of
        None \<Rightarrow> False
      | Some range_end \<Rightarrow>
          if \<not> fa_initialized st \<or> len = 0 then False
          else if base_address \<ge> RSD_EARLY_PHYSICAL_LIMIT then False
          else
            (let end_address = (if range_end > RSD_EARLY_PHYSICAL_LIMIT then RSD_EARLY_PHYSICAL_LIMIT
                                else range_end);
                 past = end_address div RSD_PAGE_SIZE;
                 past_last_frame = (if end_address AND 4095 \<noteq> 0 then past + 1 else past) in
             list_ex (bitmap_get (fa_eligible_bitmap st))
               [base_address div RSD_PAGE_SIZE ..< past_last_frame]))"

section \<open>Bitmaps as sets of frames\<close>

lemma bitmap_get_iff: "bitmap_get bitmap i \<longleftrightarrow> bit (bitmap (i div 8)) (i mod 8)"
  by (simp add: bitmap_get_def Let_def push_bit_of_1 and_exp_eq_0_iff_not_bit)

lemma bitmap_get_set [simp]:
  "bitmap_get (bitmap_set bitmap i v) j = (if i = j then v else bitmap_get bitmap j)"
proof -
  have "i mod 8 < 8" "j mod 8 < 8" by simp_all
  moreover have "i = j \<longleftrightarrow> i div 8 = j div 8 \<and> i mod 8 = j mod 8"
    by (metis div_mult_mod_eq)
  ultimately show ?thesis
    by (auto simp: bitmap_get_iff bitmap_set_def Let_def push_bit_of_1 bit_simps)
qed

lemma bitmap_get_fill: "\<not> bitmap_get (bitmap_fill 0) i" "bitmap_get (bitmap_fill 255) i"
proof -
  show "\<not> bitmap_get (bitmap_fill 0) i" by (simp add: bitmap_get_iff bitmap_fill_def)
  have "(255 :: u8) = mask 8" by (simp add: mask_eq_exp_minus_1)
  moreover have "i mod 8 < 8" by simp
  ultimately show "bitmap_get (bitmap_fill 255) i"
    unfolding bitmap_get_iff bitmap_fill_def by (simp only: bit_simps) simp
qed

abbreviation eligible :: "frame_state \<Rightarrow> nat \<Rightarrow> bool" where
  "eligible st \<equiv> bitmap_get (fa_eligible_bitmap st)"

abbreviation used :: "frame_state \<Rightarrow> nat \<Rightarrow> bool" where
  "used st \<equiv> bitmap_get (fa_used_bitmap st)"

lemma set_used_get:
  "bitmap_get (set_used u first n bitmap) f =
     (if first \<le> f \<and> f < first + n then u else bitmap_get bitmap f)"
  unfolding set_used_def by (induction n) auto

text \<open>Marking a range of frames, over any list of frames.\<close>

definition mark_list :: "bool \<Rightarrow> bool \<Rightarrow> nat list \<Rightarrow> frame_state \<Rightarrow> frame_state" where
  "mark_list e u fs st =
     fold (\<lambda>frame st. st\<lparr>fa_eligible_bitmap := bitmap_set (fa_eligible_bitmap st) frame e,
                         fa_used_bitmap := bitmap_set (fa_used_bitmap st) frame u\<rparr>) fs st"

lemma mark_list_simps [simp]:
  "mark_list e u [] st = st"
  "mark_list e u (f # fs) st = mark_list e u fs
     (st\<lparr>fa_eligible_bitmap := bitmap_set (fa_eligible_bitmap st) f e,
         fa_used_bitmap := bitmap_set (fa_used_bitmap st) f u\<rparr>)"
  by (simp_all add: mark_list_def)

lemma mark_list_fields [simp]:
  "fa_stats (mark_list e u fs st) = fa_stats st"
  "fa_next_search_index (mark_list e u fs st) = fa_next_search_index st"
  "fa_initialized (mark_list e u fs st) = fa_initialized st"
  "fa_contiguous_records (mark_list e u fs st) = fa_contiguous_records st"
  "fa_next_contiguous_identifier (mark_list e u fs st) = fa_next_contiguous_identifier st"
  by (induction fs arbitrary: st) simp_all

lemma mark_list_get:
  "eligible (mark_list e u fs st) f = (if f \<in> set fs then e else eligible st f)"
  "used (mark_list e u fs st) f = (if f \<in> set fs then u else used st f)"
  by (induction fs arbitrary: st) simp_all

lemma mark_frames_eq: "mark_frames e u a b st = mark_list e u [a ..< b] st"
  by (simp add: mark_frames_def mark_list_def)

lemma mark_reserved_eq: "mark_reserved_frames a b st = mark_list False True [a ..< b] st"
  by (simp add: mark_reserved_frames_def mark_frames_eq)

lemma mark_available_eq: "mark_available_frames a b st = mark_list True False [a ..< b] st"
  by (simp add: mark_available_frames_def mark_frames_eq)

section \<open>The invariant\<close>

definition frames_with :: "(nat \<Rightarrow> bool) \<Rightarrow> nat set" where
  "frames_with P = {f. f < FRAME_COUNT \<and> P f}"

definition stats_of :: "frame_state \<Rightarrow> frame_allocator_stats" where
  "stats_of st =
     \<lparr>fs_addressable_frames = FRAME_COUNT,
      fs_allocatable_frames = card (frames_with (eligible st)),
      fs_free_frames = card (frames_with (frame_free st)),
      fs_allocated_frames = card (frames_with (\<lambda>f. eligible st f \<and> used st f)),
      fs_reserved_frames = card (frames_with (\<lambda>f. \<not> eligible st f)),
      fs_highest_allocatable_address =
        (if frames_with (eligible st) = {} then 0 else (Max (frames_with (eligible st)) + 1) * 4096)\<rparr>"

lemma card_below_Suc: "card {f. f < Suc n \<and> P f} = card {f. f < n \<and> P f} + (if P n then 1 else 0)"
proof -
  have "{f. f < Suc n \<and> P f} = (if P n then insert n {f. f < n \<and> P f} else {f. f < n \<and> P f})"
    by (auto simp: less_Suc_eq)
  then show ?thesis by simp
qed

lemma Max_below_Suc:
  "(if {f. f < Suc n \<and> P f} = {} then 0 else (Max {f. f < Suc n \<and> P f} + 1) * c) =
    (if P n then (n + 1) * c
     else if {f. f < n \<and> P f} = {} then 0 else (Max {f. f < n \<and> P f} + 1) * (c :: nat))"
proof -
  have "{f. f < Suc n \<and> P f} = (if P n then insert n {f. f < n \<and> P f} else {f. f < n \<and> P f})"
    by (auto simp: less_Suc_eq)
  moreover have "Max (insert n {f. f < n \<and> P f}) = n"
    by (rule Max_eqI) auto
  ultimately show ?thesis
    by (cases "P n") (simp_all only: if_True if_False insert_not_empty)
qed

lemma count_frames_fold:
  "fold (count_frame st) [0 ..< n]
     \<lparr>fs_addressable_frames = N, fs_allocatable_frames = 0, fs_free_frames = 0,
      fs_allocated_frames = 0, fs_reserved_frames = 0, fs_highest_allocatable_address = 0\<rparr> =
     \<lparr>fs_addressable_frames = N,
      fs_allocatable_frames = card {f. f < n \<and> eligible st f},
      fs_free_frames = card {f. f < n \<and> frame_free st f},
      fs_allocated_frames = card {f. f < n \<and> eligible st f \<and> used st f},
      fs_reserved_frames = card {f. f < n \<and> \<not> eligible st f},
      fs_highest_allocatable_address =
        (if {f. f < n \<and> eligible st f} = {} then 0 else (Max {f. f < n \<and> eligible st f} + 1) * 4096)\<rparr>"
proof (induction n)
  case (Suc n)
  show ?case
    unfolding upt_Suc_append [OF le0] fold_append comp_apply Suc.IH Max_below_Suc card_below_Suc
    by (simp add: count_frame_def frame_free_def)
qed simp

lemma recompute_stats_eq: "recompute_stats st = st\<lparr>fa_stats := stats_of st\<rparr>"
  by (simp add: recompute_stats_def count_frames_fold stats_of_def frames_with_def)

text \<open>The frames of a contiguous record.\<close>

definition record_frames :: "contiguous_record \<Rightarrow> nat set" where
  "record_frames r = {cont_physical_base r div 4096 ..< cont_physical_base r div 4096 + cont_page_count r}"

definition records_ok :: "frame_state \<Rightarrow> bool" where
  "records_ok st \<longleftrightarrow>
     length (fa_contiguous_records st) = FRAME_CONTIGUOUS_ALLOCATION_CAPACITY \<and>
     (\<forall>r \<in> set (fa_contiguous_records st). cont_active r \<longrightarrow>
        4096 dvd cont_physical_base r \<and>
        (\<forall>f \<in> record_frames r. f < FRAME_COUNT \<and> eligible st f \<and> used st f)) \<and>
     (\<forall>i < FRAME_CONTIGUOUS_ALLOCATION_CAPACITY. \<forall>j < i.
        cont_active (fa_contiguous_records st ! i) \<longrightarrow> cont_active (fa_contiguous_records st ! j) \<longrightarrow>
        record_frames (fa_contiguous_records st ! i) \<inter> record_frames (fa_contiguous_records st ! j) = {})"

definition frames_ok :: "frame_state \<Rightarrow> bool" where
  "frames_ok st \<longleftrightarrow> (fa_initialized st \<longrightarrow> fa_stats st = stats_of st \<and> records_ok st)"

lemma in_contiguous_iff:
  "frame_in_contiguous_allocation st f \<longleftrightarrow>
     (\<exists>r \<in> set (fa_contiguous_records st). cont_active r \<and> f \<in> record_frames r)"
  by (auto simp: frame_in_contiguous_allocation_def list_ex_iff Let_def record_frames_def)

lemma finite_frames_with [simp]: "finite (frames_with P)"
  by (simp add: frames_with_def)

lemma card_frames_with: "card (frames_with P) \<le> FRAME_COUNT"
proof -
  have "card (frames_with P) \<le> card {..< FRAME_COUNT}"
    by (intro card_mono) (auto simp: frames_with_def)
  then show ?thesis by simp
qed

lemma FRAME_COUNT_eq: "FRAME_COUNT = 1048576" "ISA_DMA_FRAME_LIMIT = 4096"
  by (simp_all add: FRAME_COUNT_def ISA_DMA_FRAME_LIMIT_def)

section \<open>Taking and giving back sets of frames\<close>

lemma stats_take:
  assumes "fa_eligible_bitmap st' = fa_eligible_bitmap st"
    and "\<And>f. used st' f \<longleftrightarrow> used st f \<or> f \<in> A"
    and "A \<subseteq> frames_with (frame_free st)"
  shows "stats_of st' = (stats_of st)
    \<lparr>fs_free_frames := fs_free_frames (stats_of st) - card A,
     fs_allocated_frames := fs_allocated_frames (stats_of st) + card A\<rparr>"
    and "card A \<le> fs_free_frames (stats_of st)"
proof -
  have fin: "finite A" using assms(3) by (rule finite_subset) simp
  have "frames_with (frame_free st') = frames_with (frame_free st) - A"
    using assms by (auto simp: frames_with_def frame_free_def)
  then have "card (frames_with (frame_free st')) = card (frames_with (frame_free st)) - card A"
    using fin assms(3) by (simp add: card_Diff_subset)
  moreover have "frames_with (\<lambda>f. eligible st' f \<and> used st' f) =
      frames_with (\<lambda>f. eligible st f \<and> used st f) \<union> A"
    using assms by (auto simp: frames_with_def frame_free_def)
  then have "card (frames_with (\<lambda>f. eligible st' f \<and> used st' f)) =
      card (frames_with (\<lambda>f. eligible st f \<and> used st f)) + card A"
    using fin assms(3) by (auto simp: frames_with_def frame_free_def intro!: card_Un_disjoint)
  ultimately show "stats_of st' = (stats_of st)
    \<lparr>fs_free_frames := fs_free_frames (stats_of st) - card A,
     fs_allocated_frames := fs_allocated_frames (stats_of st) + card A\<rparr>"
    using assms(1) by (simp add: stats_of_def)
  show "card A \<le> fs_free_frames (stats_of st)"
    using assms(3) by (simp add: stats_of_def card_mono)
qed

lemma stats_give:
  assumes "fa_eligible_bitmap st' = fa_eligible_bitmap st"
    and "\<And>f. used st' f \<longleftrightarrow> used st f \<and> f \<notin> A"
    and "A \<subseteq> frames_with (\<lambda>f. eligible st f \<and> used st f)"
  shows "stats_of st' = (stats_of st)
    \<lparr>fs_free_frames := fs_free_frames (stats_of st) + card A,
     fs_allocated_frames := fs_allocated_frames (stats_of st) - card A\<rparr>"
    and "card A \<le> fs_allocated_frames (stats_of st)"
proof -
  have fin: "finite A" using assms(3) by (rule finite_subset) simp
  have "frames_with (frame_free st') = frames_with (frame_free st) \<union> A"
    using assms by (auto simp: frames_with_def frame_free_def)
  then have "card (frames_with (frame_free st')) = card (frames_with (frame_free st)) + card A"
    using fin assms(3) by (auto simp: frames_with_def frame_free_def intro!: card_Un_disjoint)
  moreover have "frames_with (\<lambda>f. eligible st' f \<and> used st' f) =
      frames_with (\<lambda>f. eligible st f \<and> used st f) - A"
    using assms by (auto simp: frames_with_def)
  then have "card (frames_with (\<lambda>f. eligible st' f \<and> used st' f)) =
      card (frames_with (\<lambda>f. eligible st f \<and> used st f)) - card A"
    using fin assms(3) by (simp add: card_Diff_subset)
  ultimately show "stats_of st' = (stats_of st)
    \<lparr>fs_free_frames := fs_free_frames (stats_of st) + card A,
     fs_allocated_frames := fs_allocated_frames (stats_of st) - card A\<rparr>"
    using assms(1) by (simp add: stats_of_def)
  show "card A \<le> fs_allocated_frames (stats_of st)"
    using assms(3) by (simp add: stats_of_def card_mono)
qed

lemma stats_bounds:
  "fs_free_frames (stats_of st) \<le> 1048576" "fs_allocated_frames (stats_of st) \<le> 1048576"
  "fs_free_frames (stats_of st) + fs_allocated_frames (stats_of st) = fs_allocatable_frames (stats_of st)"
  "fs_allocatable_frames (stats_of st) + fs_reserved_frames (stats_of st) = FRAME_COUNT"
proof -
  show "fs_free_frames (stats_of st) \<le> 1048576" "fs_allocated_frames (stats_of st) \<le> 1048576"
    using card_frames_with by (simp_all add: stats_of_def FRAME_COUNT_eq)
  have "frames_with (eligible st) = frames_with (frame_free st) \<union> frames_with (\<lambda>f. eligible st f \<and> used st f)"
    by (auto simp: frames_with_def frame_free_def)
  moreover have "frames_with (frame_free st) \<inter> frames_with (\<lambda>f. eligible st f \<and> used st f) = {}"
    by (auto simp: frames_with_def frame_free_def)
  ultimately show "fs_free_frames (stats_of st) + fs_allocated_frames (stats_of st) =
      fs_allocatable_frames (stats_of st)"
    by (simp add: stats_of_def card_Un_disjoint)
  have "{..< FRAME_COUNT} = frames_with (eligible st) \<union> frames_with (\<lambda>f. \<not> eligible st f)"
    "frames_with (eligible st) \<inter> frames_with (\<lambda>f. \<not> eligible st f) = {}"
    by (auto simp: frames_with_def)
  then show "fs_allocatable_frames (stats_of st) + fs_reserved_frames (stats_of st) = FRAME_COUNT"
    by (metis (no_types, lifting) card_Un_disjoint card_lessThan finite_frames_with
        frame_allocator_stats.select_convs(2,5) stats_of_def)
qed

text \<open>The contiguous records survive any change that keeps their frames used.\<close>

lemma records_ok_keep:
  assumes "records_ok st" "fa_contiguous_records st' = fa_contiguous_records st"
    and "\<And>f. frame_in_contiguous_allocation st f \<Longrightarrow> eligible st' f \<and> used st' f"
  shows "records_ok st'"
  using assms unfolding records_ok_def in_contiguous_iff by auto

section \<open>The search\<close>

lemma rotation_image:
  assumes "0 < (n :: nat)"
  shows "(\<lambda>s. (k + s) mod n) ` {0 ..< n} = {0 ..< n}"
proof (intro equalityI subsetI)
  fix y assume y: "y \<in> {0 ..< n}"
  let ?s = "(y + (n - k mod n)) mod n"
  have "(k + ?s) mod n = (k mod n + (y + (n - k mod n))) mod n" by (simp add: mod_simps)
  also have "k mod n + (y + (n - k mod n)) = y + n"
    using mod_less_divisor [OF assms, of k] by linarith
  also have "(y + n) mod n = y" using y by simp
  finally show "y \<in> (\<lambda>s. (k + s) mod n) ` {0 ..< n}"
    using assms by (intro image_eqI [of _ _ ?s]) auto
qed (use assms in auto)

lemma search_pass_set:
  assumes "first < past"
  shows "set (map (\<lambda>step. first + (start - first + step) mod (past - first)) [0 ..< past - first]) =
    {first ..< past}"
proof -
  have "set (map (\<lambda>step. first + (start - first + step) mod (past - first)) [0 ..< past - first]) =
      (+) first ` ((\<lambda>s. (start - first + s) mod (past - first)) ` {0 ..< past - first})"
    by (simp add: image_image)
  also have "\<dots> = (+) first ` {0 ..< past - first}"
    using rotation_image [of "past - first" "start - first"] assms by simp
  also have "\<dots> = {first ..< past}" using assms by simp
  finally show ?thesis .
qed

lemma search_pass_Some:
  assumes "search_pass st first past = Some f" "first < past"
  shows "first \<le> f \<and> f < past \<and> frame_free st f"
proof -
  have "f \<in> {first ..< past} \<and> frame_free st f"
    using assms(1) search_pass_set [OF assms(2)] unfolding search_pass_def Let_def find_Some_iff
    by (metis nth_mem)
  then show ?thesis by auto
qed

lemma search_pass_None:
  assumes "search_pass st first past = None" "first < past" "first \<le> f" "f < past"
  shows "\<not> frame_free st f"
  using assms(1,3,4) unfolding search_pass_def Let_def find_None_iff search_pass_set [OF assms(2)]
  by simp

section \<open>Every operation keeps the invariant\<close>

lemma FRAME_COUNT_pass: "ISA_DMA_FRAME_LIMIT < FRAME_COUNT" "0 < ISA_DMA_FRAME_LIMIT"
  by (simp_all add: FRAME_COUNT_eq)

lemma frame_allocate_OK:
  assumes "frame_allocate p st = (FRAME_STATUS_OK, a, st')"
  obtains f where "fa_initialized st" "f < FRAME_COUNT" "frame_free st f" "a = Some (f * 4096)"
    "st' = take_frame st f"
    "\<And>g. ISA_DMA_FRAME_LIMIT \<le> g \<Longrightarrow> g < FRAME_COUNT \<Longrightarrow> frame_free st g \<Longrightarrow> ISA_DMA_FRAME_LIMIT \<le> f"
proof (cases "search_pass st ISA_DMA_FRAME_LIMIT FRAME_COUNT")
  case (Some f)
  then show thesis
    using that [of f] search_pass_Some [OF Some FRAME_COUNT_pass(1)] assms
    by (auto simp: frame_allocate_def split: if_splits)
next
  case None
  then obtain f where f: "search_pass st 0 ISA_DMA_FRAME_LIMIT = Some f"
    using assms by (auto simp: frame_allocate_def split: if_splits option.splits)
  have "f < FRAME_COUNT" "frame_free st f"
    using search_pass_Some [OF f FRAME_COUNT_pass(2)] FRAME_COUNT_pass(1) by auto
  with None f that [of f] search_pass_None [OF None FRAME_COUNT_pass(1)] assms show thesis
    by (auto simp: frame_allocate_def split: if_splits)
qed

lemma frame_allocate_refused:
  assumes "frame_allocate p st = (s, a, st')" "s \<noteq> FRAME_STATUS_OK"
  shows "st' = st" "a = p"
  using assms by (auto simp: frame_allocate_def split: if_splits option.splits)

lemma frames_okD:
  assumes "frames_ok st" "fa_initialized st"
  shows "fa_stats st = stats_of st" "records_ok st"
  using assms by (auto simp: frames_ok_def)

lemma contiguous_not_free: "records_ok st \<Longrightarrow> frame_in_contiguous_allocation st f \<Longrightarrow>
    f < FRAME_COUNT \<and> eligible st f \<and> used st f"
  by (auto simp: records_ok_def in_contiguous_iff)

lemma take_frame_ok:
  assumes "frames_ok st" "fa_initialized st" "f < FRAME_COUNT" "frame_free st f"
  shows "frames_ok (take_frame st f)"
proof -
  note S = frames_okD [OF assms(1,2)]
  have bits: "fa_eligible_bitmap (take_frame st f) = fa_eligible_bitmap st"
    "\<And>g. used (take_frame st f) g \<longleftrightarrow> used st g \<or> g \<in> {f}"
    by (auto simp: take_frame_def)
  have "{f} \<subseteq> frames_with (frame_free st)" using assms(3,4) by (simp add: frames_with_def)
  note G = stats_take [OF bits this]
  have "sub64 (fs_free_frames (stats_of st)) 1 = fs_free_frames (stats_of st) - 1"
    "add64 (fs_allocated_frames (stats_of st)) 1 = fs_allocated_frames (stats_of st) + 1"
    using G(2) stats_bounds(1,2) [of st] by (simp_all add: no_wrap)
  then have "fa_stats (take_frame st f) = stats_of (take_frame st f)"
    unfolding G(1) by (simp add: take_frame_def S(1))
  moreover have "records_ok (take_frame st f)"
  proof (rule records_ok_keep [OF S(2)])
    show "eligible (take_frame st f) g \<and> used (take_frame st f) g"
      if "frame_in_contiguous_allocation st g" for g
      using contiguous_not_free [OF S(2) that] bits by simp
  qed (simp add: take_frame_def)
  ultimately show ?thesis by (simp add: frames_ok_def)
qed

lemma frame_release_OK:
  assumes "frame_release p st = (FRAME_STATUS_OK, st')" "f = p div 4096"
  shows "fa_initialized st" "4096 dvd p" "f < FRAME_COUNT" "eligible st f" "used st f"
    "\<not> frame_in_contiguous_allocation st f"
    "st' = st\<lparr>fa_used_bitmap := bitmap_set (fa_used_bitmap st) f False,
              fa_stats := (fa_stats st)
                \<lparr>fs_free_frames := add64 (fs_free_frames (fa_stats st)) 1,
                 fs_allocated_frames := sub64 (fs_allocated_frames (fa_stats st)) 1\<rparr>,
              fa_next_search_index :=
                (if f < fa_next_search_index st then f else fa_next_search_index st)\<rparr>"
proof -
  have mask: "p AND 4095 = p mod 4096" for p :: nat using and_low_mask [of p 12] by simp
  show "fa_initialized st" "4096 dvd p" "eligible st f" "used st f"
    "\<not> frame_in_contiguous_allocation st f"
    "st' = st\<lparr>fa_used_bitmap := bitmap_set (fa_used_bitmap st) f False,
              fa_stats := (fa_stats st)
                \<lparr>fs_free_frames := add64 (fs_free_frames (fa_stats st)) 1,
                 fs_allocated_frames := sub64 (fs_allocated_frames (fa_stats st)) 1\<rparr>,
              fa_next_search_index :=
                (if f < fa_next_search_index st then f else fa_next_search_index st)\<rparr>"
    using assms by (auto simp: frame_release_def Let_def mask mod_eq_0_iff_dvd split: if_splits)
  have "p < RSD_EARLY_PHYSICAL_LIMIT"
    using assms by (auto simp: frame_release_def Let_def split: if_splits)
  then show "f < FRAME_COUNT" unfolding assms(2) FRAME_COUNT_eq by simp
qed

lemma frame_release_refused:
  assumes "frame_release p st = (s, st')" "s \<noteq> FRAME_STATUS_OK"
  shows "st' = st"
  using assms by (auto simp: frame_release_def Let_def split: if_splits)

lemma frame_release_ok:
  assumes "frames_ok st" "frame_release p st = (s, st')"
  shows "frames_ok st'"
proof (cases "s = FRAME_STATUS_OK")
  case True
  let ?f = "p div 4096"
  note R = frame_release_OK [OF assms(2) [unfolded True] refl]
  note S = frames_okD [OF assms(1) R(1)]
  have bits: "fa_eligible_bitmap st' = fa_eligible_bitmap st"
    "\<And>g. used st' g \<longleftrightarrow> used st g \<and> g \<notin> {?f}" "fa_contiguous_records st' = fa_contiguous_records st"
    by (auto simp: R(7))
  have "{?f} \<subseteq> frames_with (\<lambda>f. eligible st f \<and> used st f)"
    using R(3-5) by (simp add: frames_with_def)
  note G = stats_give [OF bits(1,2) this]
  have "add64 (fs_free_frames (stats_of st)) 1 = fs_free_frames (stats_of st) + 1"
    "sub64 (fs_allocated_frames (stats_of st)) 1 = fs_allocated_frames (stats_of st) - 1"
    using G(2) stats_bounds(1,2) [of st] by (simp_all add: no_wrap)
  then have "fa_stats st' = stats_of st'"
    unfolding G(1) by (simp add: R(7) S(1))
  moreover have "records_ok st'"
  proof (rule records_ok_keep [OF S(2) bits(3)])
    show "eligible st' g \<and> used st' g" if "frame_in_contiguous_allocation st g" for g
      using contiguous_not_free [OF S(2) that] that bits R(6) by auto
  qed
  ultimately show ?thesis by (simp add: frames_ok_def)
qed (use assms frame_release_refused in auto)

section \<open>Contiguous runs keep the invariant\<close>

lemma power_of_two_iff: "power_of_two v \<longleftrightarrow> (\<exists>k. v = 2 ^ k)"
proof
  assume "power_of_two v"
  then have v: "0 < v" "v AND (v - 1) = 0" by (auto simp: power_of_two_def)
  show "\<exists>k. v = 2 ^ k"
    using v
  proof (induction v rule: less_induct)
    case (less v)
    show ?case
    proof (cases "even v")
      case True
      then obtain w where w: "v = 2 * w" by (elim evenE)
      have "0 < w" using less.prems w by simp
      moreover have "w AND (w - 1) = 0"
      proof -
        have "(2 * w) AND (2 * w - 1) = 2 * (w AND (w - 1))"
        proof -
          have "2 * w - 1 = 2 * (w - 1) + 1" using \<open>0 < w\<close> by simp
          then show ?thesis
            by (simp only: and_rec [of "2 * w" "2 * (w - 1) + 1"]) simp
        qed
        then show ?thesis using less.prems(2) w by simp
      qed
      ultimately obtain k where "w = 2 ^ k" using less.IH [of w] w by auto
      then show ?thesis using w by (intro exI [of _ "Suc k"]) simp
    next
      case False
      then obtain w where w: "v = 2 * w + 1" by (elim oddE)
      have "(2 * w + 1) AND (2 * w) = 2 * w" by (simp only: and_rec [of "2 * w + 1" "2 * w"]) simp
      then have "w = 0" using less.prems(2) w by simp
      then show ?thesis using w by (intro exI [of _ 0]) simp
    qed
  qed
next
  assume "\<exists>k. v = 2 ^ k"
  then obtain k where "v = 2 ^ k" ..
  then show "power_of_two v"
    unfolding power_of_two_def using and_low_mask [of "2 ^ k" k] by simp
qed

lemma contiguous_past_frame_bounds:
  "contiguous_past_frame q \<le> FRAME_COUNT"
  "contiguous_past_frame q * 4096 \<le> rq_maximum_physical_address q + 1"
proof -
  define bound where "bound = (if rq_maximum_physical_address q = UINT64_MAX then UINT64_MAX
    else rq_maximum_physical_address q + 1)"
  have "contiguous_past_frame q = min bound 4294967296 div 4096"
    by (simp add: contiguous_past_frame_def Let_def min_def bound_def)
  moreover have "bound \<le> rq_maximum_physical_address q + 1" by (simp add: bound_def)
  ultimately show "contiguous_past_frame q \<le> FRAME_COUNT"
    "contiguous_past_frame q * 4096 \<le> rq_maximum_physical_address q + 1"
    unfolding FRAME_COUNT_eq by linarith+
qed

lemma contiguous_request_status_OK:
  assumes "contiguous_request_status q = FRAME_STATUS_OK"
  shows "0 < rq_page_count q" "power_of_two (rq_alignment q)" "4096 \<le> rq_alignment q"
    "rq_page_count q \<le> contiguous_past_frame q"
  using assms by (auto simp: contiguous_request_status_def Let_def split: if_splits)

lemma frame_allocate_contiguous_OK:
  assumes "frame_allocate_contiguous rq al st = (FRAME_STATUS_OK, a, st')"
  obtains q k first where "rq = Some q" "fa_initialized st"
    "contiguous_request_status q = FRAME_STATUS_OK"
    "k < length (fa_contiguous_records st)" "\<not> cont_active (fa_contiguous_records st ! k)"
    "contiguous_fits st q first" "first + rq_page_count q \<le> FRAME_COUNT"
    "first * 4096 + rq_page_count q * 4096 \<le> rq_maximum_physical_address q + 1"
    "mul64 first 4096 = first * 4096"
    "a = Some (contiguous_handle st q first)" "st' = take_contiguous st q k first"
    "\<forall>g < first. \<not> contiguous_fits st q g"
proof -
  from assms obtain q k first where q: "rq = Some q" "fa_initialized st"
    "contiguous_request_status q = FRAME_STATUS_OK"
    "first_index (\<lambda>r. \<not> cont_active r) (fa_contiguous_records st) = Some k"
    "find (contiguous_fits st q) [0 ..< contiguous_past_frame q - rq_page_count q + 1] = Some first"
    "a = Some (contiguous_handle st q first)" "st' = take_contiguous st q k first"
    by (auto simp: frame_allocate_contiguous_def split: if_splits option.splits)
  have scan: "first \<le> contiguous_past_frame q - rq_page_count q" "contiguous_fits st q first"
    "\<forall>g < first. \<not> contiguous_fits st q g"
    using q(5) unfolding find_Some_iff by (auto simp del: upt_Suc)
  note C = contiguous_request_status_OK [OF q(3)] and B = contiguous_past_frame_bounds [of q]
  have fit: "first + rq_page_count q \<le> contiguous_past_frame q" using scan(1) C(4) by linarith
  then have "(first + rq_page_count q) * 4096 \<le> contiguous_past_frame q * 4096" by (rule mult_le_mono1)
  then have bounds: "first * 4096 + rq_page_count q * 4096 \<le> rq_maximum_physical_address q + 1"
    "first + rq_page_count q \<le> FRAME_COUNT"
    using B fit by (auto simp: algebra_simps)
  have "mul64 first 4096 = first * 4096"
    using bounds(2) by (intro mul64_exact) (simp add: FRAME_COUNT_eq)
  then show thesis
    using that [of q k first] q scan bounds first_index_SomeD [OF q(4)] by blast
qed

lemma contiguous_fitsD:
  assumes "contiguous_fits st q first" "first + rq_page_count q \<le> FRAME_COUNT"
  shows "{first ..< first + rq_page_count q} \<subseteq> frames_with (frame_free st)"
    "mul64 first 4096 AND (rq_alignment q - 1) = 0"
proof -
  have "frame_free st f" if "first \<le> f" "f < first + rq_page_count q" for f
    using assms(1) that by (auto simp: contiguous_fits_def list_all_iff dest!: bspec [of _ _ "f - first"])
  then show "{first ..< first + rq_page_count q} \<subseteq> frames_with (frame_free st)"
    using assms(2) by (auto simp: frames_with_def)
  show "mul64 first 4096 AND (rq_alignment q - 1) = 0" using assms(1) by (simp add: contiguous_fits_def)
qed

lemma frame_allocate_contiguous_refused:
  assumes "frame_allocate_contiguous rq al st = (s, a, st')" "s \<noteq> FRAME_STATUS_OK"
  shows "st' = st"
  using assms by (auto simp: frame_allocate_contiguous_def split: if_splits option.splits)

text \<open>Adding a record whose frames were free, and retiring a record.\<close>

lemma records_ok_add:
  assumes "records_ok st" "k < length (fa_contiguous_records st)" "4096 dvd cont_physical_base r"
    "fa_contiguous_records st' = (fa_contiguous_records st)[k := r]"
    "fa_eligible_bitmap st' = fa_eligible_bitmap st"
    "\<And>f. used st' f \<longleftrightarrow> used st f \<or> f \<in> record_frames r"
    "record_frames r \<subseteq> frames_with (frame_free st)"
  shows "records_ok st'"
proof -
  have len: "length (fa_contiguous_records st) = 32" using assms(1) by (simp add: records_ok_def)
  have free: "f < FRAME_COUNT" "eligible st f" "\<not> used st f" if "f \<in> record_frames r" for f
    using assms(7) that by (auto simp: frames_with_def frame_free_def)
  have old: "4096 dvd cont_physical_base c" "f < FRAME_COUNT \<and> eligible st f \<and> used st f"
    if "c \<in> set (fa_contiguous_records st)" "cont_active c" "f \<in> record_frames c" for c f
    using assms(1) that by (auto simp: records_ok_def)
  have disjoint: "record_frames c \<inter> record_frames r = {}"
    if "c \<in> set (fa_contiguous_records st)" "cont_active c" for c
    using old(2) [OF that] free(3) by auto
  have "4096 dvd cont_physical_base c \<and> (\<forall>f \<in> record_frames c. f < FRAME_COUNT \<and> eligible st' f \<and> used st' f)"
    if "c \<in> set ((fa_contiguous_records st)[k := r])" "cont_active c" for c
    using set_update_subset_insert [of "fa_contiguous_records st" k r] that assms(1,3,5,6) free(1,2)
    by (auto simp: records_ok_def)
  moreover have "record_frames ((fa_contiguous_records st)[k := r] ! i) \<inter>
      record_frames ((fa_contiguous_records st)[k := r] ! j) = {}"
    if "i < 32" "j < i" "cont_active ((fa_contiguous_records st)[k := r] ! i)"
      "cont_active ((fa_contiguous_records st)[k := r] ! j)" for i j
    using that assms(1) disjoint [of "fa_contiguous_records st ! i"] disjoint [of "fa_contiguous_records st ! j"]
    by (auto simp: records_ok_def nth_list_update [OF assms(2)] len split: if_splits)
  ultimately show ?thesis by (simp add: records_ok_def assms(4) len)
qed

lemma frame_allocate_contiguous_ok:
  assumes ok: "frames_ok st" and call: "frame_allocate_contiguous rq al st = (s, a, st')"
  shows "frames_ok st'"
proof (cases "s = FRAME_STATUS_OK")
  case True
  obtain q k first where P: "fa_initialized st" "k < length (fa_contiguous_records st)"
    "contiguous_fits st q first" "first + rq_page_count q \<le> FRAME_COUNT"
    "st' = take_contiguous st q k first" "mul64 first 4096 = first * 4096" and "rq = Some q"
    using call [unfolded True] by (rule frame_allocate_contiguous_OK)
  let ?A = "{first ..< first + rq_page_count q}"
  let ?r = "\<lparr>cont_physical_base = first * 4096, cont_page_count = rq_page_count q,
          cont_identifier = fa_next_contiguous_identifier st, cont_active = True\<rparr>"
  note S = frames_okD [OF ok P(1)] and A = contiguous_fitsD(1) [OF P(3,4)]
  have bits: "fa_eligible_bitmap st' = fa_eligible_bitmap st" "\<And>g. used st' g \<longleftrightarrow> used st g \<or> g \<in> ?A"
    "fa_contiguous_records st' = (fa_contiguous_records st)[k := ?r]"
    by (auto simp: P(5,6) take_contiguous_def set_used_get)
  note G = stats_take [OF bits(1,2) A]
  have "sub64 (fs_free_frames (stats_of st)) (rq_page_count q) = fs_free_frames (stats_of st) - card ?A"
    "add64 (fs_allocated_frames (stats_of st)) (rq_page_count q) = fs_allocated_frames (stats_of st) + card ?A"
    using G(2) stats_bounds(1,2) [of st] by (simp_all add: no_wrap)
  then have "fa_stats st' = stats_of st'" unfolding G(1) by (simp add: P(5) take_contiguous_def S(1))
  moreover have "record_frames ?r = ?A" by (simp add: record_frames_def)
  then have "records_ok st'"
    using bits A by (intro records_ok_add [OF S(2) P(2) _ bits(3,1)]) simp_all
  ultimately show ?thesis by (simp add: frames_ok_def)
qed (use ok frame_allocate_contiguous_refused [OF call] in simp)

lemma frame_release_contiguous_OK:
  assumes "frame_release_contiguous al st = (FRAME_STATUS_OK, a', st')"
  obtains a k r where "al = Some a" "a' = Some (a\<lparr>fc_active := False\<rparr>)" "fa_initialized st"
    "k < length (fa_contiguous_records st)" "r = fa_contiguous_records st ! k" "cont_active r"
    "cont_identifier r = fc_identifier a"
    "cont_physical_base r = fc_physical_base a" "cont_page_count r = fc_page_count a"
    "fa_eligible_bitmap st' = fa_eligible_bitmap st"
    "\<And>f. used st' f \<longleftrightarrow> used st f \<and> f \<notin> record_frames r"
    "fa_stats st' = (fa_stats st)
       \<lparr>fs_free_frames := add64 (fs_free_frames (fa_stats st)) (cont_page_count r),
        fs_allocated_frames := sub64 (fs_allocated_frames (fa_stats st)) (cont_page_count r)\<rparr>"
    "fa_contiguous_records st' = (fa_contiguous_records st)[k := r\<lparr>cont_active := False\<rparr>]"
    "fa_initialized st'"
proof -
  from assms obtain a where a: "al = Some a" "fa_initialized st" "fc_active a"
    by (auto simp: frame_release_contiguous_def split: option.splits if_splits)
  from assms a obtain k where
    k: "first_index (\<lambda>r. cont_active r \<and> cont_identifier r = fc_identifier a) (fa_contiguous_records st) = Some k"
    by (auto simp: frame_release_contiguous_def split: option.splits)
  let ?r = "fa_contiguous_records st ! k"
  have "used st' f \<longleftrightarrow> used st f \<and> f \<notin> record_frames ?r" for f
    using assms a k by (auto simp: frame_release_contiguous_def Let_def set_used_get record_frames_def
        split: if_splits)
  moreover have "a' = Some (a\<lparr>fc_active := False\<rparr>)"
    "cont_physical_base ?r = fc_physical_base a" "cont_page_count ?r = fc_page_count a"
    "fa_eligible_bitmap st' = fa_eligible_bitmap st"
    "fa_stats st' = (fa_stats st)
       \<lparr>fs_free_frames := add64 (fs_free_frames (fa_stats st)) (cont_page_count ?r),
        fs_allocated_frames := sub64 (fs_allocated_frames (fa_stats st)) (cont_page_count ?r)\<rparr>"
    "fa_contiguous_records st' = (fa_contiguous_records st)[k := ?r\<lparr>cont_active := False\<rparr>]"
    "fa_initialized st'"
    using assms a k by (auto simp: frame_release_contiguous_def Let_def split: if_splits)
  ultimately show thesis
    using that [of a k ?r] a first_index_SomeD [OF k] by blast
qed

lemma frame_release_contiguous_refused:
  assumes "frame_release_contiguous al st = (s, a', st')" "s \<noteq> FRAME_STATUS_OK"
  shows "st' = st" "a' = al"
  using assms by (auto simp: frame_release_contiguous_def Let_def split: if_splits option.splits)

lemma records_ok_retire:
  assumes "records_ok st" "k < length (fa_contiguous_records st)" "r = fa_contiguous_records st ! k"
    "cont_active r" "fa_contiguous_records st' = (fa_contiguous_records st)[k := r\<lparr>cont_active := False\<rparr>]"
    "fa_eligible_bitmap st' = fa_eligible_bitmap st"
    "\<And>f. used st' f \<longleftrightarrow> used st f \<and> f \<notin> record_frames r"
  shows "records_ok st'"
proof -
  let ?rs = "fa_contiguous_records st" and ?rs' = "(fa_contiguous_records st)[k := r\<lparr>cont_active := False\<rparr>]"
  have len: "length ?rs = 32" using assms(1) by (simp add: records_ok_def)
  have pair: "record_frames (?rs ! i) \<inter> record_frames (?rs ! j) = {}"
    if "i < 32" "j < i" "cont_active (?rs ! i)" "cont_active (?rs ! j)" for i j
    using assms(1) that by (simp add: records_ok_def)
  have apart: "record_frames (?rs ! i) \<inter> record_frames r = {}"
    if "i < 32" "i \<noteq> k" "cont_active (?rs ! i)" for i
    using pair [of i k] pair [of k i] that assms(2-4) len by (cases i k rule: linorder_cases) auto
  have keep: "i \<noteq> k" "?rs' ! i = ?rs ! i" if "i < 32" "cont_active (?rs' ! i)" for i
    using that assms(2) by (auto simp: nth_list_update len split: if_splits)
  have one: "4096 dvd cont_physical_base (?rs' ! i) \<and>
      (\<forall>f \<in> record_frames (?rs' ! i). f < FRAME_COUNT \<and> eligible st' f \<and> used st' f)"
    if "i < 32" "cont_active (?rs' ! i)" for i
  proof -
    have "?rs ! i \<in> set ?rs" "cont_active (?rs ! i)" using that keep(2) [OF that] len by auto
    then show ?thesis
      using assms(1,6,7) apart [OF that(1)] keep [OF that] that unfolding records_ok_def by auto
  qed
  show ?thesis
    unfolding records_ok_def assms(5)
  proof (intro conjI ballI allI impI)
    show "f < FRAME_COUNT" "eligible st' f" "used st' f"
      if "c \<in> set ?rs'" "cont_active c" "f \<in> record_frames c" for c f
      using that one len unfolding in_set_conv_nth by fastforce+
    show "4096 dvd cont_physical_base c" if "c \<in> set ?rs'" "cont_active c" for c
      using that one len unfolding in_set_conv_nth by fastforce
    show "record_frames (?rs' ! i) \<inter> record_frames (?rs' ! j) = {}"
      if "i < 32" "j < i" "cont_active (?rs' ! i)" "cont_active (?rs' ! j)" for i j
      using that keep [of i] keep [of j] pair [of i j] by simp
  qed (simp add: len)
qed

lemma frame_release_contiguous_ok:
  assumes ok: "frames_ok st" and call: "frame_release_contiguous al st = (s, a', st')"
  shows "frames_ok st'"
proof (cases "s = FRAME_STATUS_OK")
  case True
  obtain k r where P: "fa_initialized st" "k < length (fa_contiguous_records st)"
    "r = fa_contiguous_records st ! k" "cont_active r"
    and bits: "fa_eligible_bitmap st' = fa_eligible_bitmap st"
    "\<And>f. used st' f \<longleftrightarrow> used st f \<and> f \<notin> record_frames r"
    and stats: "fa_stats st' = (fa_stats st)
       \<lparr>fs_free_frames := add64 (fs_free_frames (fa_stats st)) (cont_page_count r),
        fs_allocated_frames := sub64 (fs_allocated_frames (fa_stats st)) (cont_page_count r)\<rparr>"
    and recs: "fa_contiguous_records st' = (fa_contiguous_records st)[k := r\<lparr>cont_active := False\<rparr>]"
    using call [unfolded True] by (rule frame_release_contiguous_OK) blast
  note S = frames_okD [OF ok P(1)]
  have "record_frames r \<subseteq> frames_with (\<lambda>f. eligible st f \<and> used st f)"
    using S(2) P(2-4) by (auto simp: records_ok_def frames_with_def)
  note G = stats_give [OF bits this]
  have "card (record_frames r) = cont_page_count r" by (simp add: record_frames_def)
  then have "add64 (fs_free_frames (stats_of st)) (cont_page_count r) = fs_free_frames (stats_of st) + card (record_frames r)"
    "sub64 (fs_allocated_frames (stats_of st)) (cont_page_count r) = fs_allocated_frames (stats_of st) - card (record_frames r)"
    using G(2) stats_bounds(1,2) [of st] by (simp_all add: no_wrap)
  then have "fa_stats st' = stats_of st'" unfolding G(1) stats S(1) by simp
  then show ?thesis
    using records_ok_retire [OF S(2) P(2-4) recs bits] by (simp add: frames_ok_def)
qed (use ok frame_release_contiguous_refused [OF call] in simp)

section \<open>Frame bounds of byte ranges\<close>

definition frames_inside :: "nat \<Rightarrow> nat \<Rightarrow> nat set" where
  "frames_inside base len = {f. f < FRAME_COUNT \<and> base \<le> f * 4096 \<and> f * 4096 + 4096 \<le> base + len}"

definition frames_touching :: "nat \<Rightarrow> nat \<Rightarrow> nat set" where
  "frames_touching base len = {f. f < FRAME_COUNT \<and> 0 < len \<and> f * 4096 < base + len \<and> base < f * 4096 + 4096}"

lemma checked_range_end_Some:
  "checked_range_end base len = Some e \<Longrightarrow> base < 2 ^ 64 \<Longrightarrow> e = base + len \<and> base + len < 2 ^ 64"
  by (auto simp: checked_range_end_def UINT64_MAX_def no_wrap split: if_splits)

lemma page_mask: "x AND 4095 = x mod (4096 :: nat)"
  using and_low_mask [of x 12] by simp

lemma page_floor: "x < 2 ^ 64 \<Longrightarrow> x AND not64 4095 = x - x mod 4096"
  using and_not64_mask [of 12 x] by simp

lemma page_down: "f < (c - c mod 4096) div 4096 \<longleftrightarrow> f * 4096 + 4096 \<le> (c :: nat)"
proof -
  have "(c - c mod 4096) div 4096 = c div 4096" by (simp add: minus_mod_eq_mult_div)
  moreover have "f < c div 4096 \<longleftrightarrow> Suc f \<le> c div 4096" by (rule Suc_le_eq [symmetric])
  ultimately show ?thesis by (simp add: less_eq_div_iff_mult_less_eq add.commute)
qed

lemma page_up: "(b + 4095 - (b + 4095) mod 4096) div 4096 \<le> f \<longleftrightarrow> b \<le> f * (4096 :: nat)"
proof -
  have "(b + 4095 - (b + 4095) mod 4096) div 4096 = (b + 4095) div 4096"
    by (simp add: minus_mod_eq_mult_div)
  moreover have "(b + 4095) div 4096 \<le> f \<longleftrightarrow> (b + 4095) div 4096 < Suc f" by (rule less_Suc_eq_le [symmetric])
  ultimately show ?thesis by (simp add: div_less_iff_less_mult) linarith
qed

lemma available_frame_bounds_Inr:
  assumes "available_frame_bounds base len = Inr (a, b)" "base < 2 ^ 64"
  shows "set [a ..< b] = frames_inside base len"
proof -
  obtain e where e: "checked_range_end base len = Some e"
    using assms(1) by (auto simp: available_frame_bounds_def split: option.splits)
  have b: "e = base + len" "base + len < 2 ^ 64" using checked_range_end_Some [OF e assms(2)] by auto
  consider "len = 0 \<or> 4294967296 \<le> base" | "0 < len" "base < 4294967296" by linarith
  then show ?thesis
  proof cases
    case 1
    then have "a = 0" "b = 0" using assms(1) e by (auto simp: available_frame_bounds_def)
    then show ?thesis using 1 by (auto simp: frames_inside_def FRAME_COUNT_eq)
  next
    case 2
    define c where "c = min (base + len) 4294967296"
    define u where "u = base + 4095 - (base + 4095) mod 4096"
    have "add64 base 4095 = base + 4095" using 2(2) by (simp add: no_wrap)
    then have "add64 base 4095 AND not64 4095 = u" "c AND not64 4095 = c - c mod 4096"
      using 2(2) b(2) by (simp_all add: page_floor u_def c_def)
    moreover have "(if e < 4294967296 then e else 4294967296) = c" by (simp add: c_def b(1))
    ultimately have r: "(a, b) = (if u \<ge> c then (0, 0) else (u div 4096, (c - c mod 4096) div 4096))"
      using assms(1) e 2 by (simp add: available_frame_bounds_def Let_def split: if_splits)
    have "u div 4096 \<le> f \<longleftrightarrow> base \<le> f * 4096" for f unfolding u_def by (rule page_up)
    moreover have "f < (c - c mod 4096) div 4096 \<longleftrightarrow> f * 4096 + 4096 \<le> c" for f by (rule page_down)
    moreover have "f * 4096 + 4096 \<le> c \<longleftrightarrow> f < 1048576 \<and> f * 4096 + 4096 \<le> base + len" for f
      unfolding c_def by auto
    ultimately have in_iff: "f \<in> frames_inside base len \<longleftrightarrow> u div 4096 \<le> f \<and> f < (c - c mod 4096) div 4096" for f
      unfolding frames_inside_def FRAME_COUNT_eq by blast
    show ?thesis
    proof (cases "u \<ge> c")
      case True
      then have "(c - c mod 4096) div 4096 \<le> u div 4096" by (intro div_le_mono) simp
      then have "frames_inside base len = {}" using in_iff by (meson all_not_in_conv leD le_trans)
      then show ?thesis using r True by simp
    next
      case False
      then show ?thesis using r in_iff by (simp add: set_eq_iff)
    qed
  qed
qed

lemma covering_past:
  "f < (if (c :: nat) AND 4095 \<noteq> 0 then c div 4096 + 1 else c div 4096) \<longleftrightarrow> f * 4096 < c"
proof -
  have "f < c div 4096 + 1 \<longleftrightarrow> f * 4096 \<le> c" by (simp add: less_Suc_eq_le less_eq_div_iff_mult_less_eq)
  moreover have "c mod 4096 \<noteq> 0 \<Longrightarrow> f * 4096 \<noteq> c" by auto
  moreover have "f < c div 4096 \<longleftrightarrow> f * 4096 < c" if "c mod 4096 = 0"
    using that by (auto simp: mod_eq_0_iff_dvd elim: dvdE)
  ultimately show ?thesis unfolding page_mask by auto
qed

lemma covering_frame_bounds_Inr:
  assumes "covering_frame_bounds base len = Inr (a, b)" "base < 2 ^ 64"
  shows "set [a ..< b] = frames_touching base len"
proof -
  obtain e where e: "checked_range_end base len = Some e"
    using assms(1) by (auto simp: covering_frame_bounds_def split: option.splits)
  have b: "e = base + len" "base + len < 2 ^ 64" using checked_range_end_Some [OF e assms(2)] by auto
  show ?thesis
  proof (cases "len = 0")
    case True
    then have "a = 0" "b = 0" using assms(1) e by (auto simp: covering_frame_bounds_def)
    then show ?thesis using True by (auto simp: frames_touching_def FRAME_COUNT_eq)
  next
    case False
    define c where "c = min (base + len) 4294967296"
    have "(if e < 4294967296 then e else 4294967296) = c" by (simp add: c_def b(1))
    then have r: "base < 4294967296" "a = base div 4096"
      "b = (if c AND 4095 \<noteq> 0 then c div 4096 + 1 else c div 4096)"
      using assms(1) e False by (simp_all add: covering_frame_bounds_def Let_def split: if_splits)
    have "f < b \<longleftrightarrow> f * 4096 < c" for f unfolding r(3) by (rule covering_past)
    moreover have "f * 4096 < c \<longleftrightarrow> f < 1048576 \<and> f * 4096 < base + len" for f unfolding c_def by auto
    moreover have "a \<le> f \<longleftrightarrow> base < f * 4096 + 4096" for f
      unfolding r(2) less_Suc_eq_le [symmetric] by (simp add: div_less_iff_less_mult algebra_simps)
    moreover have "f \<in> set [a ..< b] \<longleftrightarrow> a \<le> f \<and> f < b" for f by simp
    ultimately show ?thesis using False unfolding frames_touching_def FRAME_COUNT_eq by blast
  qed
qed

lemma covering_refused: "covering_frame_bounds base len \<noteq> Inl FRAME_STATUS_OK"
  by (auto simp: covering_frame_bounds_def Let_def split: option.splits)

lemma covering_outside: "covering_frame_bounds base len = Inl FRAME_STATUS_RANGE_OUTSIDE_LIMIT \<Longrightarrow>
    frames_touching base len = {}"
  by (auto simp: covering_frame_bounds_def Let_def frames_touching_def FRAME_COUNT_eq
      split: option.splits if_splits)

section \<open>Reserving a range\<close>

lemma stats_of_cong:
  "fa_eligible_bitmap st' = fa_eligible_bitmap st \<Longrightarrow> fa_used_bitmap st' = fa_used_bitmap st \<Longrightarrow>
    stats_of st' = stats_of st"
proof -
  assume bits: "fa_eligible_bitmap st' = fa_eligible_bitmap st" "fa_used_bitmap st' = fa_used_bitmap st"
  then have "frame_free st' = frame_free st" by (intro ext) (simp add: frame_free_def)
  with bits show ?thesis by (simp add: stats_of_def)
qed

lemma frame_reserve_range_OK:
  assumes "frame_reserve_range base len st = (FRAME_STATUS_OK, st')" "base < 2 ^ 64"
  shows "fa_initialized st" "fa_initialized st'" "fa_stats st' = stats_of st'"
    "fa_contiguous_records st' = fa_contiguous_records st"
    "\<And>f. eligible st' f \<longleftrightarrow> eligible st f \<and> f \<notin> frames_touching base len"
    "\<And>f. used st' f \<longleftrightarrow> used st f \<or> f \<in> frames_touching base len"
    "\<And>f. f \<in> frames_touching base len \<Longrightarrow> \<not> (eligible st f \<and> used st f)"
proof -
  from assms(1) obtain a b where c: "covering_frame_bounds base len = Inr (a, b)"
    and "fa_initialized st"
    and free: "\<not> list_ex (\<lambda>f. eligible st f \<and> used st f) [a ..< b]"
    and st': "st' = recompute_stats (mark_reserved_frames a b st)"
    by (auto simp: frame_reserve_range_def covering_refused split: sum.splits if_splits)
  note B = covering_frame_bounds_Inr [OF c assms(2)]
  show "fa_initialized st" by fact
  show "fa_initialized st'" "fa_contiguous_records st' = fa_contiguous_records st"
    using \<open>fa_initialized st\<close> by (simp_all add: st' recompute_stats_eq mark_reserved_eq)
  show "fa_stats st' = stats_of st'"
    unfolding st' recompute_stats_eq by (simp, rule stats_of_cong [symmetric]) simp_all
  show "eligible st' f \<longleftrightarrow> eligible st f \<and> f \<notin> frames_touching base len"
    "used st' f \<longleftrightarrow> used st f \<or> f \<in> frames_touching base len" for f
    unfolding B [symmetric] st' recompute_stats_eq mark_reserved_eq by (auto simp: mark_list_get)
  show "\<not> (eligible st f \<and> used st f)" if "f \<in> frames_touching base len" for f
    using free that unfolding B [symmetric] list_ex_iff by blast
qed

lemma frame_reserve_range_refused:
  "frame_reserve_range base len st = (s, st') \<Longrightarrow> s \<noteq> FRAME_STATUS_OK \<Longrightarrow> st' = st"
  by (auto simp: frame_reserve_range_def split: sum.splits if_splits)

lemma frame_reserve_range_ok:
  assumes "frames_ok st" "frame_reserve_range base len st = (s, st')" "base < 2 ^ 64"
  shows "frames_ok st'"
proof (cases "s = FRAME_STATUS_OK")
  case True
  note R = frame_reserve_range_OK [OF assms(2) [unfolded True] assms(3)]
  note S = frames_okD [OF assms(1) R(1)]
  have "records_ok st'"
  proof (rule records_ok_keep [OF S(2) R(4)])
    show "eligible st' f \<and> used st' f" if "frame_in_contiguous_allocation st f" for f
      using contiguous_not_free [OF S(2) that] R(5-7) by auto
  qed
  then show ?thesis using R(3) by (simp add: frames_ok_def)
qed (use assms frame_reserve_range_refused in blast)

section \<open>Initialisation\<close>

text \<open>During initialisation every frame is either available or reserved, never both.\<close>

definition complementary :: "frame_state \<Rightarrow> bool" where
  "complementary st \<longleftrightarrow> (\<forall>f. used st f \<longleftrightarrow> \<not> eligible st f)"

definition available_region_frame :: "memory \<Rightarrow> boot_information \<Rightarrow> nat \<Rightarrow> nat \<Rightarrow> bool" where
  "available_region_frame mem c i f \<longleftrightarrow>
     (\<exists>r. boot_information_region_at mem (Some c) i = Some r \<and> region_type r = MULTIBOOT2_MEMORY_AVAILABLE \<and>
        f \<in> frames_inside (region_base_address r) (region_length r))"

definition reserved_region_frame :: "memory \<Rightarrow> boot_information \<Rightarrow> nat \<Rightarrow> nat \<Rightarrow> bool" where
  "reserved_region_frame mem c i f \<longleftrightarrow>
     (\<exists>r. boot_information_region_at mem (Some c) i = Some r \<and> region_type r \<noteq> MULTIBOOT2_MEMORY_AVAILABLE \<and>
        f \<in> frames_touching (region_base_address r) (region_length r))"

lemma complementary_mark: "complementary st \<Longrightarrow> complementary (mark_list e (\<not> e) fs st)"
  by (simp add: complementary_def mark_list_get)

lemma available_refused: "available_frame_bounds base len \<noteq> Inl FRAME_STATUS_OK"
  by (auto simp: available_frame_bounds_def Let_def split: option.splits)

lemma apply_available:
  "apply_regions mem c True is st = (FRAME_STATUS_OK, st') \<Longrightarrow>
     (complementary st \<longrightarrow> complementary st') \<and> fa_contiguous_records st' = fa_contiguous_records st \<and>
     (\<forall>f. eligible st' f \<longleftrightarrow> eligible st f \<or> (\<exists>i \<in> set is. available_region_frame mem c i f))"
proof (induction "is" arbitrary: st)
  case (Cons i "is")
  then obtain r where r: "boot_information_region_at mem (Some c) i = Some r"
    by (auto split: option.splits)
  show ?case
  proof (cases "region_type r = MULTIBOOT2_MEMORY_AVAILABLE")
    case False
    then show ?thesis using Cons r by (auto simp: available_region_frame_def)
  next
    case True
    with Cons.prems r obtain a b where ab:
      "available_frame_bounds (region_base_address r) (region_length r) = Inr (a, b)"
      "apply_regions mem c True is (mark_list True False [a ..< b] st) = (FRAME_STATUS_OK, st')"
      by (auto simp: available_refused mark_available_eq split: sum.splits)
    have "f \<in> set [a ..< b] \<longleftrightarrow> available_region_frame mem c i f" for f
      unfolding available_frame_bounds_Inr [OF ab(1) region_bounds(1) [OF r]]
      using r True by (simp add: available_region_frame_def)
    then show ?thesis
      using Cons.IH [OF ab(2)] complementary_mark [of st True "[a ..< b]"]
      by (auto simp: mark_list_get simp del: set_upt)
  qed
qed simp

lemma apply_reserved:
  "apply_regions mem c False is st = (FRAME_STATUS_OK, st') \<Longrightarrow>
     (complementary st \<longrightarrow> complementary st') \<and> fa_contiguous_records st' = fa_contiguous_records st \<and>
     (\<forall>f. eligible st' f \<longleftrightarrow> eligible st f \<and> \<not> (\<exists>i \<in> set is. reserved_region_frame mem c i f))"
proof (induction "is" arbitrary: st)
  case (Cons i "is")
  then obtain r where r: "boot_information_region_at mem (Some c) i = Some r"
    by (auto split: option.splits)
  show ?case
  proof (cases "region_type r = MULTIBOOT2_MEMORY_AVAILABLE")
    case True
    then show ?thesis using Cons r by (auto simp: reserved_region_frame_def)
  next
    case False
    consider "covering_frame_bounds (region_base_address r) (region_length r) = Inl FRAME_STATUS_RANGE_OUTSIDE_LIMIT"
        "apply_regions mem c False is st = (FRAME_STATUS_OK, st')"
      | a b where "covering_frame_bounds (region_base_address r) (region_length r) = Inr (a, b)"
        "apply_regions mem c False is (mark_list False True [a ..< b] st) = (FRAME_STATUS_OK, st')"
      using Cons.prems r False
      by (auto simp: covering_refused mark_reserved_eq split: sum.splits if_splits)
    then show ?thesis
    proof cases
      case 1
      then have "\<not> reserved_region_frame mem c i f" for f
        using covering_outside [OF 1(1)] r by (simp add: reserved_region_frame_def)
      then show ?thesis using Cons.IH [OF 1(2)] by auto
    next
      case (2 a b)
      have "f \<in> set [a ..< b] \<longleftrightarrow> reserved_region_frame mem c i f" for f
        unfolding covering_frame_bounds_Inr [OF 2(1) region_bounds(1) [OF r]]
        using r False by (simp add: reserved_region_frame_def)
      then show ?thesis
        using Cons.IH [OF 2(2)] complementary_mark [of st False "[a ..< b]"]
        by (auto simp: mark_list_get simp del: set_upt)
    qed
  qed
qed simp

lemma reserve_internal_OK:
  assumes "reserve_internal base len st = (FRAME_STATUS_OK, st')" "base < 2 ^ 64" "complementary st"
  shows "complementary st'" "fa_contiguous_records st' = fa_contiguous_records st"
    "\<And>f. eligible st' f \<longleftrightarrow> eligible st f \<and> f \<notin> frames_touching base len"
proof -
  obtain a b where ab: "covering_frame_bounds base len = Inr (a, b)" "st' = mark_list False True [a ..< b] st"
    using assms(1) by (auto simp: reserve_internal_def covering_refused mark_reserved_eq split: sum.splits)
  show "complementary st'" "fa_contiguous_records st' = fa_contiguous_records st"
    using complementary_mark [OF assms(3), of False] by (simp_all add: ab(2))
  show "\<And>f. eligible st' f \<longleftrightarrow> eligible st f \<and> f \<notin> frames_touching base len"
    unfolding covering_frame_bounds_Inr [OF ab(1) assms(2), symmetric] ab(2)
    by (auto simp: mark_list_get simp del: set_upt)
qed

end
