(* ===== verification/Frame_Runs.thy ===== *)
theory Frame_Runs
  imports Frames
begin

text \<open>
  The frame allocator over whole runs: what initialisation makes of the boot memory map, the abstract
  pool of free and owned frames the calls of \<open>src/kernel/physical_memory.c\<close> implement, and the
  guarantees every sequence of calls keeps.
\<close>

section \<open>Initialisation\<close>

text \<open>The frames the boot reservations cover: low memory, the kernel image, the boot information.\<close>

definition boot_reserved :: "nat \<Rightarrow> nat \<Rightarrow> boot_information \<Rightarrow> nat \<Rightarrow> bool" where
  "boot_reserved kernel_start kernel_end c f \<longleftrightarrow>
     f < 256 \<or> f \<in> frames_touching kernel_start (kernel_end - kernel_start) \<or>
     f \<in> frames_touching (bi_information_start c) (bi_information_end c - bi_information_start c)"

definition boot_allocatable :: "memory \<Rightarrow> nat \<Rightarrow> nat \<Rightarrow> boot_information \<Rightarrow> nat \<Rightarrow> bool" where
  "boot_allocatable mem kernel_start kernel_end c f \<longleftrightarrow>
     (\<exists>i < bi_memory_map_entry_count c. available_region_frame mem c i f) \<and>
     \<not> (\<exists>i < bi_memory_map_entry_count c. reserved_region_frame mem c i f) \<and>
     \<not> boot_reserved kernel_start kernel_end c f"

lemma low_frames: "f \<in> frames_touching 0 1048576 \<longleftrightarrow> f < 256"
  by (auto simp: frames_touching_def FRAME_COUNT_eq)

lemma apply_memory_map_OK:
  assumes "apply_memory_map mem c st = (FRAME_STATUS_OK, st')" "complementary st" "\<And>f. \<not> eligible st f"
  shows "complementary st'" "fa_contiguous_records st' = fa_contiguous_records st"
    "\<And>f. eligible st' f \<longleftrightarrow> (\<exists>i < bi_memory_map_entry_count c. available_region_frame mem c i f) \<and>
       \<not> (\<exists>i < bi_memory_map_entry_count c. reserved_region_frame mem c i f)"
proof -
  obtain st1 where "apply_regions mem c True [0 ..< bi_memory_map_entry_count c] st = (FRAME_STATUS_OK, st1)"
    "apply_regions mem c False [0 ..< bi_memory_map_entry_count c] st1 = (FRAME_STATUS_OK, st')"
    using assms(1) by (auto simp: apply_memory_map_def Let_def split: prod.splits if_splits)
  note P = apply_available [OF this(1)] apply_reserved [OF this(2)]
  show "complementary st'" "fa_contiguous_records st' = fa_contiguous_records st"
    using P assms(2) by simp_all
  show "\<And>f. eligible st' f \<longleftrightarrow> (\<exists>i < bi_memory_map_entry_count c. available_region_frame mem c i f) \<and>
       \<not> (\<exists>i < bi_memory_map_entry_count c. reserved_region_frame mem c i f)"
    using P assms(3) by auto
qed

lemma initialize_steps:
  assumes "frame_allocator_initialize mem ks ke (Some c) st = (FRAME_STATUS_OK, st')"
  obtains st0 st1 st2 st3 st4 where
    "fa_eligible_bitmap st0 = bitmap_fill 0" "fa_used_bitmap st0 = bitmap_fill 255"
    "fa_contiguous_records st0 = replicate 32 empty_record"
    "apply_memory_map mem c st0 = (FRAME_STATUS_OK, st1)"
    "reserve_internal 0 1048576 st1 = (FRAME_STATUS_OK, st2)" "ks \<le> ke"
    "reserve_internal ks (sub64 ke ks) st2 = (FRAME_STATUS_OK, st3)"
    "reserve_internal (bi_information_start c) (sub64 (bi_information_end c) (bi_information_start c)) st3 =
       (FRAME_STATUS_OK, st4)"
    "0 < fs_free_frames (stats_of st4)"
    "st' = st4\<lparr>fa_stats := stats_of st4, fa_next_search_index := 256, fa_initialized := True\<rparr>"
proof -
  have "\<exists>st1 st2 st3 st4.
    apply_memory_map mem c (st\<lparr>fa_initialized := False, fa_next_search_index := 0,
       fa_next_contiguous_identifier := 1,
       fa_eligible_bitmap := bitmap_fill 0, fa_used_bitmap := bitmap_fill 255,
       fa_contiguous_records := replicate 32 empty_record\<rparr>) = (FRAME_STATUS_OK, st1) \<and>
    reserve_internal 0 1048576 st1 = (FRAME_STATUS_OK, st2) \<and> ks \<le> ke \<and>
    reserve_internal ks (sub64 ke ks) st2 = (FRAME_STATUS_OK, st3) \<and>
    reserve_internal (bi_information_start c) (sub64 (bi_information_end c) (bi_information_start c)) st3 =
       (FRAME_STATUS_OK, st4) \<and>
    0 < fs_free_frames (stats_of st4) \<and>
    st' = st4\<lparr>fa_stats := stats_of st4, fa_next_search_index := 256, fa_initialized := True\<rparr>"
    using assms unfolding frame_allocator_initialize_def option.case
    by (simp add: Let_def recompute_stats_eq split: prod.splits if_splits)
  then show thesis by (elim exE conjE) (rule that, simp_all)
qed

lemma frame_initialize_OK:
  assumes init: "frame_allocator_initialize mem ks ke (Some c) st = (FRAME_STATUS_OK, st')"
    and words: "ke < 2 ^ 64" "bi_information_start c \<le> bi_information_end c" "bi_information_end c < 2 ^ 64"
  shows "fa_initialized st'" "fa_stats st' = stats_of st'" "0 < fs_free_frames (fa_stats st')"
    "fa_contiguous_records st' = replicate 32 empty_record"
    "\<And>f. eligible st' f \<longleftrightarrow> boot_allocatable mem ks ke c f" "\<And>f. used st' f \<longleftrightarrow> \<not> eligible st' f"
proof -
  obtain st0 st1 st2 st3 st4 where
    s0: "fa_eligible_bitmap st0 = bitmap_fill 0" "fa_used_bitmap st0 = bitmap_fill 255"
      "fa_contiguous_records st0 = replicate 32 empty_record"
    and s1: "apply_memory_map mem c st0 = (FRAME_STATUS_OK, st1)"
    and s2: "reserve_internal 0 1048576 st1 = (FRAME_STATUS_OK, st2)" and ks: "ks \<le> ke"
    and s3: "reserve_internal ks (sub64 ke ks) st2 = (FRAME_STATUS_OK, st3)"
    and s4: "reserve_internal (bi_information_start c)
        (sub64 (bi_information_end c) (bi_information_start c)) st3 = (FRAME_STATUS_OK, st4)"
    and free: "0 < fs_free_frames (stats_of st4)"
    and st': "st' = st4\<lparr>fa_stats := stats_of st4, fa_next_search_index := 256, fa_initialized := True\<rparr>"
    by (rule initialize_steps [OF init])
  have sub: "sub64 ke ks = ke - ks"
    "sub64 (bi_information_end c) (bi_information_start c) = bi_information_end c - bi_information_start c"
    using ks words by (simp_all add: sub64_exact)
  have bounds: "(0 :: nat) < 2 ^ 64" "ks < 2 ^ 64" "bi_information_start c < 2 ^ 64" using ks words by auto
  have c0: "complementary st0" "\<And>f. \<not> eligible st0 f" by (simp_all add: complementary_def s0 bitmap_get_fill)
  note m1 = apply_memory_map_OK [OF s1 c0]
  note m2 = reserve_internal_OK [OF s2 bounds(1) m1(1)]
  note m3 = reserve_internal_OK [OF s3 bounds(2) m2(1)]
  note m4 = reserve_internal_OK [OF s4 bounds(3) m3(1)]
  have cong: "stats_of st' = stats_of st4" by (rule stats_of_cong) (simp_all add: st')
  show "fa_initialized st'" "fa_stats st' = stats_of st'" "0 < fs_free_frames (fa_stats st')"
    using free unfolding cong by (simp_all add: st')
  show "fa_contiguous_records st' = replicate 32 empty_record"
    using m1(2) m2(2) m3(2) m4(2) s0(3) by (simp add: st')
  show "eligible st' f \<longleftrightarrow> boot_allocatable mem ks ke c f" for f
    using m4(3) [of f] m3(3) [of f] m2(3) [of f] m1(3) [of f]
    by (auto simp: st' boot_allocatable_def boot_reserved_def low_frames sub)
  show "used st' f \<longleftrightarrow> \<not> eligible st' f" for f
    using m4(1) by (simp add: complementary_def st')
qed

lemma records_ok_empty:
  "fa_contiguous_records st = replicate 32 empty_record \<Longrightarrow> records_ok st"
proof -
  assume empty: "fa_contiguous_records st = replicate 32 empty_record"
  have none: "\<not> cont_active r" if "r \<in> set (fa_contiguous_records st)" for r
    using that unfolding empty by (simp add: empty_record_def)
  have len: "length (fa_contiguous_records st) = 32" unfolding empty by simp
  then have "\<not> cont_active (fa_contiguous_records st ! i)" if "i < 32" for i
    using that none nth_mem by metis
  then show ?thesis unfolding records_ok_def using none len by (intro conjI) simp_all
qed

text \<open>A refused initialisation leaves the allocator as it was, or unusable.\<close>

lemma apply_regions_initialized:
  "fa_initialized (snd (apply_regions mem c w is st)) = fa_initialized st"
proof (induction "is" arbitrary: st)
  case (Cons i "is")
  show ?case
    using Cons.IH by (cases w) (simp_all add: Let_def mark_available_eq mark_reserved_eq
        split: option.split sum.split prod.split)
qed simp

lemma apply_memory_map_initialized:
  "fa_initialized (snd (apply_memory_map mem c st)) = fa_initialized st"
  by (simp add: apply_memory_map_def Let_def case_prod_beta apply_regions_initialized)

lemma reserve_internal_initialized:
  "fa_initialized (snd (reserve_internal base len st)) = fa_initialized st"
  by (auto simp: reserve_internal_def mark_reserved_eq split: sum.splits)

lemma initialize_refused:
  assumes "frame_allocator_initialize mem ks ke c st = (s, st')" "s \<noteq> FRAME_STATUS_OK"
  shows "st' = st \<or> \<not> fa_initialized st'"
proof (cases "\<exists>b. c = Some b \<and> bi_memory_map b \<noteq> None")
  case True
  then obtain b where b: "c = Some b" "bi_memory_map b \<noteq> None" by blast
  let ?st0 = "st\<lparr>fa_initialized := False, fa_next_search_index := 0, fa_next_contiguous_identifier := 1,
      fa_eligible_bitmap := bitmap_fill 0, fa_used_bitmap := bitmap_fill 255,
      fa_contiguous_records := replicate 32 empty_record\<rparr>"
  obtain s1 st1 where 1: "apply_memory_map mem b ?st0 = (s1, st1)" by fastforce
  obtain s2 st2 where 2: "reserve_internal 0 1048576 st1 = (s2, st2)" by fastforce
  obtain s3 st3 where 3: "reserve_internal ks (sub64 ke ks) st2 = (s3, st3)" by fastforce
  obtain s4 st4 where 4: "reserve_internal (bi_information_start b)
      (sub64 (bi_information_end b) (bi_information_start b)) st3 = (s4, st4)" by fastforce
  have "\<not> fa_initialized st1" using apply_memory_map_initialized [of mem b ?st0] 1 by simp
  then have "\<not> fa_initialized st2" using reserve_internal_initialized [of 0 1048576 st1] 2 by simp
  then have "\<not> fa_initialized st3" using reserve_internal_initialized [of ks _ st2] 3 by (metis snd_conv)
  then have "\<not> fa_initialized st4"
    using reserve_internal_initialized [of "bi_information_start b" _ st3] 4 by (metis snd_conv)
  show ?thesis
    using assms b 1 2 3 4 \<open>\<not> fa_initialized st1\<close> \<open>\<not> fa_initialized st2\<close> \<open>\<not> fa_initialized st3\<close>
      \<open>\<not> fa_initialized st4\<close>
    by (auto simp: frame_allocator_initialize_def recompute_stats_eq Let_def split: if_splits)
qed (use assms in \<open>auto simp: frame_allocator_initialize_def split: option.splits\<close>)

section \<open>Sequences of calls\<close>

datatype frame_op =
    Op_Allocate "nat option"
  | Op_Release nat
  | Op_Allocate_Contiguous "frame_contiguous_request option" "frame_contiguous_allocation option"
  | Op_Release_Contiguous "frame_contiguous_allocation option"
  | Op_Reserve nat nat

primrec frame_step :: "frame_op \<Rightarrow> frame_state \<Rightarrow> frame_status \<times> frame_state" where
  "frame_step (Op_Allocate p) st = (let (s, a, st') = frame_allocate p st in (s, st'))"
| "frame_step (Op_Release a) st = frame_release a st"
| "frame_step (Op_Allocate_Contiguous q d) st = (let (s, a, st') = frame_allocate_contiguous q d st in (s, st'))"
| "frame_step (Op_Release_Contiguous h) st = (let (s, a, st') = frame_release_contiguous h st in (s, st'))"
| "frame_step (Op_Reserve base len) st = frame_reserve_range base len st"

primrec frame_run :: "frame_op list \<Rightarrow> frame_state \<Rightarrow> frame_state" where
  "frame_run [] st = st"
| "frame_run (op # ops) st = frame_run ops (snd (frame_step op st))"

text \<open>Arguments are 64-bit words.\<close>

primrec op_words :: "frame_op \<Rightarrow> bool" where
  "op_words (Op_Allocate p) = True"
| "op_words (Op_Release a) = (a < 2 ^ 64)"
| "op_words (Op_Allocate_Contiguous q d) = True"
| "op_words (Op_Release_Contiguous h) = True"
| "op_words (Op_Reserve base len) = (base < 2 ^ 64 \<and> len < 2 ^ 64)"

section \<open>The abstract pool\<close>

record frame_pool =
  pool_free :: "nat set"
  pool_owned :: "nat set"

definition pool_of :: "frame_state \<Rightarrow> frame_pool" where
  "pool_of st = \<lparr>pool_free = frames_with (frame_free st), pool_owned = frames_with (\<lambda>f. eligible st f \<and> used st f)\<rparr>"

definition pool_take :: "nat set \<Rightarrow> frame_pool \<Rightarrow> frame_pool" where
  "pool_take A p = \<lparr>pool_free = pool_free p - A, pool_owned = pool_owned p \<union> A\<rparr>"

definition pool_give :: "nat set \<Rightarrow> frame_pool \<Rightarrow> frame_pool" where
  "pool_give A p = \<lparr>pool_free = pool_free p \<union> A, pool_owned = pool_owned p - A\<rparr>"

definition pool_withdraw :: "nat set \<Rightarrow> frame_pool \<Rightarrow> frame_pool" where
  "pool_withdraw A p = \<lparr>pool_free = pool_free p - A, pool_owned = pool_owned p\<rparr>"

text \<open>What each call may do to the pool, by the status it returns.\<close>

inductive pool_step :: "frame_op \<Rightarrow> frame_status \<Rightarrow> frame_pool \<Rightarrow> frame_pool \<Rightarrow> bool" where
  refused: "s \<noteq> FRAME_STATUS_OK \<Longrightarrow> pool_step op s p p"
| allocate: "f \<in> pool_free p \<Longrightarrow>
    pool_step (Op_Allocate (Some d)) FRAME_STATUS_OK p (pool_take {f} p)"
| release: "4096 dvd a \<Longrightarrow> a div 4096 \<in> pool_owned p \<Longrightarrow>
    pool_step (Op_Release a) FRAME_STATUS_OK p (pool_give {a div 4096} p)"
| allocate_contiguous: "A = {first ..< first + rq_page_count q} \<Longrightarrow> A \<noteq> {} \<Longrightarrow> A \<subseteq> pool_free p \<Longrightarrow>
    pool_step (Op_Allocate_Contiguous (Some q) (Some d)) FRAME_STATUS_OK p (pool_take A p)"
| release_contiguous: "A = {fc_physical_base h div 4096 ..< fc_physical_base h div 4096 + fc_page_count h} \<Longrightarrow>
    A \<subseteq> pool_owned p \<Longrightarrow>
    pool_step (Op_Release_Contiguous (Some h)) FRAME_STATUS_OK p (pool_give A p)"
| reserve: "frames_touching base len \<inter> pool_owned p = {} \<Longrightarrow>
    pool_step (Op_Reserve base len) FRAME_STATUS_OK p (pool_withdraw (frames_touching base len) p)"

lemma pool_of_take:
  assumes "fa_eligible_bitmap st' = fa_eligible_bitmap st" "\<And>f. used st' f \<longleftrightarrow> used st f \<or> f \<in> A"
    "A \<subseteq> frames_with (frame_free st)"
  shows "pool_of st' = pool_take A (pool_of st)"
  using assms by (auto simp: pool_of_def pool_take_def frames_with_def frame_free_def)

lemma pool_of_give:
  assumes "fa_eligible_bitmap st' = fa_eligible_bitmap st" "\<And>f. used st' f \<longleftrightarrow> used st f \<and> f \<notin> A"
    "A \<subseteq> frames_with (\<lambda>f. eligible st f \<and> used st f)"
  shows "pool_of st' = pool_give A (pool_of st)"
  using assms by (auto simp: pool_of_def pool_give_def frames_with_def frame_free_def)

lemma pool_of_withdraw:
  assumes "\<And>f. eligible st' f \<longleftrightarrow> eligible st f \<and> f \<notin> A" "\<And>f. used st' f \<longleftrightarrow> used st f \<or> f \<in> A"
    "A \<inter> frames_with (\<lambda>f. eligible st f \<and> used st f) = {}"
  shows "pool_of st' = pool_withdraw A (pool_of st)"
  using assms by (auto simp: pool_of_def pool_withdraw_def frames_with_def frame_free_def)

lemma frame_allocate_ok:
  assumes "frames_ok st" "frame_allocate p st = (s, a, st')"
  shows "frames_ok st'"
proof (cases "s = FRAME_STATUS_OK")
  case True
  show ?thesis
    using assms(2) [unfolded True] by (rule frame_allocate_OK) (use assms(1) take_frame_ok in auto)
qed (use assms(1) frame_allocate_refused(1) [OF assms(2)] in simp)

text \<open>The call behind a step.\<close>

lemma frame_stepE:
  assumes "frame_step op st = (s, st')"
  obtains (allocate) p a where "op = Op_Allocate p" "frame_allocate p st = (s, a, st')"
    | (release) a where "op = Op_Release a" "frame_release a st = (s, st')"
    | (allocate_contiguous) q d a where "op = Op_Allocate_Contiguous q d"
        "frame_allocate_contiguous q d st = (s, a, st')"
    | (release_contiguous) h a where "op = Op_Release_Contiguous h" "frame_release_contiguous h st = (s, a, st')"
    | (reserve) base len where "op = Op_Reserve base len" "frame_reserve_range base len st = (s, st')"
  using assms by (cases op) (auto split: prod.splits)

lemma frame_step_cases:
  assumes "frame_step op st = (s, st')" "s \<noteq> FRAME_STATUS_OK"
  shows "st' = st"
  using assms(1)
proof (cases rule: frame_stepE)
  case (allocate p a) then show ?thesis using frame_allocate_refused(1) assms(2) by blast
next
  case (release a) then show ?thesis using frame_release_refused assms(2) by blast
next
  case (allocate_contiguous q d a) then show ?thesis using frame_allocate_contiguous_refused(1) assms(2) by blast
next
  case (release_contiguous h a) then show ?thesis using frame_release_contiguous_refused(1) assms(2) by blast
next
  case (reserve base len) then show ?thesis using frame_reserve_range_refused assms(2) by blast
qed

lemma frame_step_ok:
  assumes "frames_ok st" "frame_step op st = (s, st')" "op_words op"
  shows "frames_ok st'"
  using assms(2)
proof (cases rule: frame_stepE)
  case (allocate p a) then show ?thesis using frame_allocate_ok assms(1) by blast
next
  case (release a) then show ?thesis using frame_release_ok assms(1) by blast
next
  case (allocate_contiguous q d a) then show ?thesis using frame_allocate_contiguous_ok assms(1) by blast
next
  case (release_contiguous h a) then show ?thesis using frame_release_contiguous_ok assms(1) by blast
next
  case (reserve base len) then show ?thesis using frame_reserve_range_ok assms(1,3) by auto
qed

lemma frame_step_initialized:
  assumes "frame_step op st = (s, st')"
  shows "fa_initialized st' = fa_initialized st"
proof (cases "s = FRAME_STATUS_OK")
  case True
  show ?thesis
    using assms unfolding True
  proof (cases rule: frame_stepE)
    case (allocate p a)
    from allocate(2) show ?thesis by (rule frame_allocate_OK) (simp add: take_frame_def)
  next
    case (release a)
    show ?thesis by (simp add: frame_release_OK(7) [OF release(2) refl])
  next
    case (allocate_contiguous q d a)
    from allocate_contiguous(2) show ?thesis
      by (rule frame_allocate_contiguous_OK) (simp add: take_contiguous_def)
  next
    case (release_contiguous h a)
    from release_contiguous(2) show ?thesis by (rule frame_release_contiguous_OK) simp
  next
    case (reserve base len)
    then show ?thesis
      by (auto simp: frame_reserve_range_def recompute_stats_eq mark_reserved_eq split: sum.splits if_splits)
  qed
qed (use frame_step_cases [OF assms] in simp)

lemma frame_run_ok:
  "frames_ok st \<Longrightarrow> fa_initialized st \<Longrightarrow> list_all op_words ops \<Longrightarrow>
    frames_ok (frame_run ops st) \<and> fa_initialized (frame_run ops st)"
proof (induction ops arbitrary: st)
  case (Cons op ops)
  obtain s st' where step: "frame_step op st = (s, st')" by fastforce
  then show ?case
    using Cons frame_step_ok [OF Cons.prems(1) step] frame_step_initialized [OF step] by simp
qed simp

lemma contiguous_run:
  assumes "contiguous_fits st q first" "first + rq_page_count q \<le> FRAME_COUNT"
    "contiguous_request_status q = FRAME_STATUS_OK" "A = {first ..< first + rq_page_count q}"
  shows "A \<noteq> {}" "A \<subseteq> frames_with (frame_free st)"
    "\<And>f. used (take_contiguous st q k first) f \<longleftrightarrow> used st f \<or> f \<in> A"
  using contiguous_fitsD(1) [OF assms(1,2)] contiguous_request_status_OK(1) [OF assms(3)] assms(4)
  by (auto simp: take_contiguous_def set_used_get)

lemma pool_step_allocate:
  assumes "frame_allocate p st = (FRAME_STATUS_OK, a, st')"
  shows "pool_step (Op_Allocate p) FRAME_STATUS_OK (pool_of st) (pool_of st')"
proof -
  obtain d where d: "p = Some d" using assms by (cases p) (auto simp: frame_allocate_def)
  obtain f where f: "f < FRAME_COUNT" "frame_free st f" "st' = take_frame st f"
    using assms by (rule frame_allocate_OK) blast
  have "pool_of st' = pool_take {f} (pool_of st)"
    using f by (intro pool_of_take) (auto simp: take_frame_def frames_with_def)
  moreover have "f \<in> pool_free (pool_of st)" using f by (simp add: pool_of_def frames_with_def)
  ultimately show ?thesis using d pool_step.allocate by metis
qed

lemma pool_step_release:
  assumes "frame_release a st = (FRAME_STATUS_OK, st')"
  shows "pool_step (Op_Release a) FRAME_STATUS_OK (pool_of st) (pool_of st')"
proof -
  note R = frame_release_OK [OF assms refl]
  have "pool_of st' = pool_give {a div 4096} (pool_of st)"
    using R(3-5) by (intro pool_of_give) (auto simp: R(7) frames_with_def)
  moreover have "a div 4096 \<in> pool_owned (pool_of st)" using R(3-5) by (simp add: pool_of_def frames_with_def)
  ultimately show ?thesis using R(2) pool_step.release by metis
qed

lemma pool_step_allocate_contiguous:
  assumes "frame_allocate_contiguous r d st = (FRAME_STATUS_OK, a, st')"
  shows "pool_step (Op_Allocate_Contiguous r d) FRAME_STATUS_OK (pool_of st) (pool_of st')"
proof -
  obtain e where e: "d = Some e"
    using assms by (cases d) (auto simp: frame_allocate_contiguous_def split: option.splits)
  obtain q k first where P: "r = Some q" "contiguous_request_status q = FRAME_STATUS_OK"
    "contiguous_fits st q first" "first + rq_page_count q \<le> FRAME_COUNT" "st' = take_contiguous st q k first"
    using assms by (rule frame_allocate_contiguous_OK) blast
  let ?A = "{first ..< first + rq_page_count q}"
  note A = contiguous_run [OF P(3,4,2) refl]
  have "pool_of st' = pool_take ?A (pool_of st)"
    unfolding P(5) by (rule pool_of_take [OF _ A(3) A(2)]) (simp add: take_contiguous_def)
  moreover have "?A \<subseteq> pool_free (pool_of st)" using A(2) by (simp add: pool_of_def)
  ultimately show ?thesis
    unfolding P(1) e using pool_step.allocate_contiguous [OF refl A(1)] by metis
qed

lemma pool_step_release_contiguous:
  assumes "frames_ok st" "frame_release_contiguous h st = (FRAME_STATUS_OK, a, st')"
  shows "pool_step (Op_Release_Contiguous h) FRAME_STATUS_OK (pool_of st) (pool_of st')"
proof -
  obtain b k r where P: "h = Some b" "fa_initialized st" "k < length (fa_contiguous_records st)"
    "r = fa_contiguous_records st ! k" "cont_active r"
    "cont_physical_base r = fc_physical_base b" "cont_page_count r = fc_page_count b"
    and bits: "fa_eligible_bitmap st' = fa_eligible_bitmap st"
    "\<And>f. used st' f \<longleftrightarrow> used st f \<and> f \<notin> record_frames r"
    using assms(2) by (rule frame_release_contiguous_OK) blast
  have A: "record_frames r \<subseteq> frames_with (\<lambda>f. eligible st f \<and> used st f)"
    using frames_okD(2) [OF assms(1) P(2)] P(3-5) by (auto simp: records_ok_def frames_with_def)
  have "pool_of st' = pool_give (record_frames r) (pool_of st)" by (rule pool_of_give [OF bits A])
  moreover have "record_frames r \<subseteq> pool_owned (pool_of st)" using A by (simp add: pool_of_def)
  moreover have "record_frames r =
      {fc_physical_base b div 4096 ..< fc_physical_base b div 4096 + fc_page_count b}"
    using P(6,7) by (simp add: record_frames_def)
  ultimately show ?thesis unfolding P(1) using pool_step.release_contiguous by metis
qed

lemma pool_step_reserve:
  assumes "frame_reserve_range base len st = (FRAME_STATUS_OK, st')" "base < 2 ^ 64"
  shows "pool_step (Op_Reserve base len) FRAME_STATUS_OK (pool_of st) (pool_of st')"
proof -
  note R = frame_reserve_range_OK [OF assms]
  have A: "frames_touching base len \<inter> frames_with (\<lambda>f. eligible st f \<and> used st f) = {}"
    using R(7) by (auto simp: frames_with_def)
  have "pool_of st' = pool_withdraw (frames_touching base len) (pool_of st)"
    by (rule pool_of_withdraw [OF R(5,6) A])
  moreover have "frames_touching base len \<inter> pool_owned (pool_of st) = {}" using A by (simp add: pool_of_def)
  ultimately show ?thesis using pool_step.reserve by metis
qed

text \<open>C15. Refinement: every call does to the abstract pool of free and owned frames exactly what
  its specification allows, and a call that is refused changes nothing at all. The counters kept by the
  code are the sizes of the two sets after the call.\<close>

theorem frame_calls_refine_pool:
  assumes "frames_ok st" "fa_initialized st" "op_words op" "frame_step op st = (s, st')"
  shows "pool_step op s (pool_of st) (pool_of st') \<and> (s \<noteq> FRAME_STATUS_OK \<longrightarrow> st' = st) \<and>
    frames_ok st' \<and> fs_free_frames (fa_stats st') = card (pool_free (pool_of st')) \<and>
    fs_allocated_frames (fa_stats st') = card (pool_owned (pool_of st'))"
proof -
  have ok: "frames_ok st'" "fa_initialized st'"
    using frame_step_ok [OF assms(1,4,3)] frame_step_initialized [OF assms(4)] assms(2) by simp_all
  have "pool_step op s (pool_of st) (pool_of st')"
  proof (cases "s = FRAME_STATUS_OK")
    case True
    have "pool_step op FRAME_STATUS_OK (pool_of st) (pool_of st')"
      using assms(4) [unfolded True]
    proof (cases rule: frame_stepE)
      case (allocate p a) then show ?thesis using pool_step_allocate by blast
    next
      case (release a) then show ?thesis using pool_step_release by blast
    next
      case (allocate_contiguous q d a) then show ?thesis using pool_step_allocate_contiguous by blast
    next
      case (release_contiguous h a) then show ?thesis using pool_step_release_contiguous assms(1) by blast
    next
      case (reserve base len) then show ?thesis using pool_step_reserve assms(3) by auto
    qed
    then show ?thesis by (simp add: True)
  qed (use frame_step_cases [OF assms(4)] pool_step.refused in auto)
  then show ?thesis
    using ok frames_okD(1) [OF ok] frame_step_cases [OF assms(4)] by (auto simp: pool_of_def stats_of_def)
qed

section \<open>Ownership\<close>

text \<open>A frame handed out on its own: in use and in no contiguous run.\<close>

definition owned_single :: "frame_state \<Rightarrow> nat \<Rightarrow> bool" where
  "owned_single st f \<longleftrightarrow> f < FRAME_COUNT \<and> eligible st f \<and> used st f \<and> \<not> frame_in_contiguous_allocation st f"

lemma frame_allocate_owned:
  assumes "frames_ok st" "frame_allocate p st = (FRAME_STATUS_OK, Some a, st')"
  shows "owned_single st' (a div 4096)" "4096 dvd a" "frame_free st (a div 4096)" "a div 4096 < FRAME_COUNT"
proof -
  obtain f where f: "fa_initialized st" "f < FRAME_COUNT" "frame_free st f" "a = f * 4096"
    "st' = take_frame st f"
    using assms(2) by (rule frame_allocate_OK) blast
  have "\<not> frame_in_contiguous_allocation st f"
    using contiguous_not_free [OF frames_okD(2) [OF assms(1) f(1)], of f] f(3) by (auto simp: frame_free_def)
  then show "owned_single st' (a div 4096)"
    using f by (simp add: owned_single_def take_frame_def frame_free_def frame_in_contiguous_allocation_def)
  show "4096 dvd a" "frame_free st (a div 4096)" "a div 4096 < FRAME_COUNT" using f by simp_all
qed

lemma owned_single_keep:
  assumes "owned_single st f" "eligible st' f" "used st' f"
    "fa_contiguous_records st' = fa_contiguous_records st"
  shows "owned_single st' f"
  using assms by (simp add: owned_single_def frame_in_contiguous_allocation_def)

lemma in_contiguous_update:
  assumes "frame_in_contiguous_allocation st' f" "fa_contiguous_records st' = (fa_contiguous_records st)[k := r]"
  shows "frame_in_contiguous_allocation st f \<or> cont_active r \<and> f \<in> record_frames r"
  using assms set_update_subset_insert [of "fa_contiguous_records st" k r] by (auto simp: in_contiguous_iff)

lemma owned_single_step:
  assumes ok: "frames_ok st" "op_words op" and own: "owned_single st f"
    and step: "frame_step op st = (s, st')" and other: "op \<noteq> Op_Release (f * 4096)"
  shows "owned_single st' f"
proof (cases "s = FRAME_STATUS_OK")
  case True
  show ?thesis
    using step [unfolded True]
  proof (cases rule: frame_stepE)
    case (allocate p a)
    obtain g where g: "st' = take_frame st g" using allocate(2) by (rule frame_allocate_OK) blast
    show ?thesis using own by (intro owned_single_keep [OF own]) (simp_all add: g take_frame_def owned_single_def)
  next
    case (release a)
    note R = frame_release_OK [OF release(2) refl]
    have "a div 4096 \<noteq> f" using R(2) other release(1) by auto
    then show ?thesis using own by (intro owned_single_keep [OF own]) (auto simp: R(7) owned_single_def)
  next
    case (allocate_contiguous q d a)
    obtain n k first where P: "contiguous_request_status n = FRAME_STATUS_OK" "contiguous_fits st n first"
      "first + rq_page_count n \<le> FRAME_COUNT" "mul64 first 4096 = first * 4096"
      "st' = take_contiguous st n k first"
      using allocate_contiguous(2) by (rule frame_allocate_contiguous_OK) blast
    note A = contiguous_run [OF P(2,3,1) refl]
    have "f \<notin> {first ..< first + rq_page_count n}"
      using A(2) own by (auto simp: owned_single_def frames_with_def frame_free_def)
    moreover obtain r where r: "fa_contiguous_records st' = (fa_contiguous_records st)[k := r]"
      "record_frames r = {first ..< first + rq_page_count n}"
      by (simp add: P(5) take_contiguous_def record_frames_def P(4))
    ultimately have "\<not> frame_in_contiguous_allocation st' f"
      using own in_contiguous_update [OF _ r(1)] by (auto simp: owned_single_def r(2))
    moreover have "eligible st' f" "used st' f"
      using own A(3) by (auto simp: P(5) owned_single_def take_contiguous_def)
    ultimately show ?thesis using own by (simp add: owned_single_def)
  next
    case (release_contiguous h a)
    obtain k r where P: "k < length (fa_contiguous_records st)" "r = fa_contiguous_records st ! k" "cont_active r"
      and bits: "fa_eligible_bitmap st' = fa_eligible_bitmap st"
      "\<And>f. used st' f \<longleftrightarrow> used st f \<and> f \<notin> record_frames r"
      and recs: "fa_contiguous_records st' = (fa_contiguous_records st)[k := r\<lparr>cont_active := False\<rparr>]"
      using release_contiguous(2) by (rule frame_release_contiguous_OK) blast
    have "f \<notin> record_frames r" using own P by (auto simp: owned_single_def in_contiguous_iff)
    then show ?thesis
      using own bits in_contiguous_update [OF _ recs] by (auto simp: owned_single_def)
  next
    case (reserve base len)
    have "base < 2 ^ 64" using ok(2) reserve(1) by simp
    note R = frame_reserve_range_OK [OF reserve(2) this]
    show ?thesis using own R(5,6) R(7) [of f] by (intro owned_single_keep [OF own _ _ R(4)]) (auto simp: owned_single_def)
  qed
qed (use own frame_step_cases [OF step] in simp)

lemma owned_single_run:
  "frames_ok st \<Longrightarrow> fa_initialized st \<Longrightarrow> list_all op_words ops \<Longrightarrow> owned_single st f \<Longrightarrow>
    Op_Release (f * 4096) \<notin> set ops \<Longrightarrow> owned_single (frame_run ops st) f"
proof (induction ops arbitrary: st)
  case (Cons op ops)
  obtain s st' where step: "frame_step op st = (s, st')" by fastforce
  have "owned_single st' f"
    using Cons.prems by (intro owned_single_step [OF Cons.prems(1) _ Cons.prems(4) step]) auto
  moreover have "frames_ok st'" "fa_initialized st'"
    using Cons.prems frame_step_ok [OF Cons.prems(1) step] frame_step_initialized [OF step] by simp_all
  ultimately show ?case using Cons step by simp
qed simp

section \<open>Guarantees\<close>

text \<open>C17. Single ownership: once a frame has been handed out, no sequence of calls that does not
  release that very address makes the allocator hand it out again, alone or inside a contiguous run,
  and the frame is never reserved away under its owner.\<close>

theorem frame_single_owner:
  assumes "frames_ok st" "frame_allocate p st = (FRAME_STATUS_OK, Some a, st1)"
    and "list_all op_words ops" "Op_Release a \<notin> set ops"
  shows "(\<forall>p' b st2. frame_allocate p' (frame_run ops st1) = (FRAME_STATUS_OK, Some b, st2) \<longrightarrow> b \<noteq> a) \<and>
    (\<forall>q d h st2. frame_allocate_contiguous q d (frame_run ops st1) = (FRAME_STATUS_OK, Some h, st2) \<longrightarrow>
       a div 4096 \<notin> {fc_physical_base h div 4096 ..< fc_physical_base h div 4096 + fc_page_count h}) \<and>
    eligible (frame_run ops st1) (a div 4096) \<and> used (frame_run ops st1) (a div 4096)"
proof -
  let ?st = "frame_run ops st1"
  note A = frame_allocate_owned [OF assms(1,2)]
  have init: "frames_ok st1" "fa_initialized st1"
    using frame_allocate_ok [OF assms(1,2)] frame_step_initialized [of "Op_Allocate p" st] assms(2)
    by (auto elim: frame_allocate_OK)
  have own: "owned_single ?st (a div 4096)"
    using owned_single_run [OF init assms(3) A(1)] A(2) assms(4) by simp
  have ok: "frames_ok ?st" using frame_run_ok [OF init assms(3)] by blast
  have "b \<noteq> a" if "frame_allocate p' ?st = (FRAME_STATUS_OK, Some b, st2)" for p' b st2
    using frame_allocate_owned(3) [OF ok that] own by (auto simp: owned_single_def frame_free_def)
  moreover have "a div 4096 \<notin> {fc_physical_base h div 4096 ..< fc_physical_base h div 4096 + fc_page_count h}"
    if call: "frame_allocate_contiguous q d ?st = (FRAME_STATUS_OK, Some h, st2)" for q d h st2
  proof -
    obtain n first where P: "contiguous_request_status n = FRAME_STATUS_OK" "contiguous_fits ?st n first"
      "first + rq_page_count n \<le> FRAME_COUNT" "mul64 first 4096 = first * 4096"
      "h = contiguous_handle ?st n first"
      using call by (rule frame_allocate_contiguous_OK) blast
    have "{first ..< first + rq_page_count n} \<subseteq> frames_with (frame_free ?st)"
      by (rule contiguous_run(2) [OF P(2,3,1) refl])
    then show ?thesis
      using own by (auto simp: P(4,5) contiguous_handle_def owned_single_def frames_with_def frame_free_def)
  qed
  ultimately show ?thesis using own by (auto simp: owned_single_def)
qed

text \<open>C19. Progress: as long as one allocatable frame is free, an allocation succeeds; it returns
  a page-aligned free frame below 4 GiB, and takes a frame of the first 16 MiB only when every frame
  above them is taken. It fails only when no frame is free.\<close>

theorem frame_allocate_progress:
  assumes "frames_ok st" "fa_initialized st" "frame_allocate (Some d) st = (s, a, st')"
  shows "(s = FRAME_STATUS_OK \<longleftrightarrow> (\<exists>f < FRAME_COUNT. frame_free st f)) \<and>
    (s = FRAME_STATUS_OK \<longrightarrow> (\<exists>f < FRAME_COUNT. a = Some (f * 4096) \<and> frame_free st f \<and>
       (f < ISA_DMA_FRAME_LIMIT \<longrightarrow> (\<forall>g < FRAME_COUNT. ISA_DMA_FRAME_LIMIT \<le> g \<longrightarrow> \<not> frame_free st g)))) \<and>
    (s \<noteq> FRAME_STATUS_OK \<longrightarrow> s = FRAME_STATUS_OUT_OF_MEMORY \<and> a = Some d \<and> st' = st)"
proof (cases "s = FRAME_STATUS_OK")
  case True
  obtain f where f: "f < FRAME_COUNT" "frame_free st f" "a = Some (f * 4096)"
    "\<And>g. ISA_DMA_FRAME_LIMIT \<le> g \<Longrightarrow> g < FRAME_COUNT \<Longrightarrow> frame_free st g \<Longrightarrow> ISA_DMA_FRAME_LIMIT \<le> f"
    using assms(3) [unfolded True] by (rule frame_allocate_OK) blast
  have "\<forall>g < FRAME_COUNT. ISA_DMA_FRAME_LIMIT \<le> g \<longrightarrow> \<not> frame_free st g" if "f < ISA_DMA_FRAME_LIMIT"
    using f(4) that by (meson not_le)
  then show ?thesis using True f(1-3) by blast
next
  case False
  have "\<not> frame_free st f" if "f < FRAME_COUNT" for f
  proof
    assume free: "frame_free st f"
    then have "f \<in> frames_with (frame_free st)" using that by (simp add: frames_with_def)
    then have "fs_free_frames (fa_stats st) \<noteq> 0"
      using frames_okD(1) [OF assms(1,2)] by (auto simp: stats_of_def)
    moreover have "search_pass st ISA_DMA_FRAME_LIMIT FRAME_COUNT \<noteq> None \<or> search_pass st 0 ISA_DMA_FRAME_LIMIT \<noteq> None"
      using search_pass_None [OF _ FRAME_COUNT_pass(1), of st f] search_pass_None [OF _ FRAME_COUNT_pass(2), of st f]
        free that by fastforce
    ultimately show False using assms(2,3) False by (auto simp: frame_allocate_def split: option.splits)
  qed
  moreover have "s = FRAME_STATUS_OUT_OF_MEMORY"
    using assms(2,3) False by (auto simp: frame_allocate_def split: if_splits option.splits)
  ultimately show ?thesis using False frame_allocate_refused [OF assms(3) False] by auto
qed

text \<open>C22. Release is total and precise: the status names the first condition that fails, in the
  order of the code; on success the frame and nothing else becomes free, and releasing it again is a
  double free.\<close>

theorem frame_release_status:
  assumes "fa_initialized st" "f = a div 4096"
  shows "fst (frame_release a st) =
      (if \<not> 4096 dvd a then FRAME_STATUS_UNALIGNED_ADDRESS
       else if FRAME_COUNT \<le> f then FRAME_STATUS_RANGE_OUTSIDE_LIMIT
       else if \<not> eligible st f then FRAME_STATUS_FRAME_NOT_ALLOCATABLE
       else if \<not> used st f then FRAME_STATUS_DOUBLE_FREE
       else if frame_in_contiguous_allocation st f then FRAME_STATUS_FRAME_IN_USE
       else FRAME_STATUS_OK) \<and>
    (frame_release a st = (FRAME_STATUS_OK, st') \<longrightarrow>
       (\<forall>g. eligible st' g = eligible st g \<and> used st' g = (used st g \<and> g \<noteq> f)) \<and>
       frame_release a st' = (FRAME_STATUS_DOUBLE_FREE, st'))"
proof -
  have "4096 dvd a \<longleftrightarrow> a AND 4095 = 0" by (simp add: page_mask mod_eq_0_iff_dvd)
  moreover have "FRAME_COUNT \<le> f \<longleftrightarrow> 4294967296 \<le> a"
    unfolding assms(2) FRAME_COUNT_eq by (simp add: less_eq_div_iff_mult_less_eq)
  ultimately have "fst (frame_release a st) =
      (if \<not> 4096 dvd a then FRAME_STATUS_UNALIGNED_ADDRESS
       else if FRAME_COUNT \<le> f then FRAME_STATUS_RANGE_OUTSIDE_LIMIT
       else if \<not> eligible st f then FRAME_STATUS_FRAME_NOT_ALLOCATABLE
       else if \<not> used st f then FRAME_STATUS_DOUBLE_FREE
       else if frame_in_contiguous_allocation st f then FRAME_STATUS_FRAME_IN_USE
       else FRAME_STATUS_OK)"
    using assms by (simp add: frame_release_def Let_def)
  moreover have "(\<forall>g. eligible st' g = eligible st g \<and> used st' g = (used st g \<and> g \<noteq> f)) \<and>
      frame_release a st' = (FRAME_STATUS_DOUBLE_FREE, st')"
    if call: "frame_release a st = (FRAME_STATUS_OK, st')"
  proof -
    note R = frame_release_OK [OF call assms(2)]
    have "a AND 4095 = 0" using R(2) by (simp add: page_mask)
    moreover have "\<not> 4294967296 \<le> a" using R(3) unfolding assms(2) FRAME_COUNT_eq by simp
    ultimately show ?thesis using R(1,4) by (auto simp: R(7) frame_release_def Let_def assms(2))
  qed
  ultimately show ?thesis by blast
qed

lemma contiguous_fits_iff:
  assumes "power_of_two (rq_alignment q)" "first < FRAME_COUNT"
  shows "contiguous_fits st q first \<longleftrightarrow> rq_alignment q dvd first * 4096 \<and>
    (\<forall>f \<in> {first ..< first + rq_page_count q}. frame_free st f)"
proof -
  obtain k where k: "rq_alignment q = 2 ^ k" using assms(1) power_of_two_iff by blast
  have "mul64 first 4096 = first * 4096" using assms(2) by (intro mul64_exact) (simp add: FRAME_COUNT_eq)
  then have "mul64 first 4096 AND (rq_alignment q - 1) = 0 \<longleftrightarrow> rq_alignment q dvd first * 4096"
    unfolding k and_low_mask by (simp only: mod_eq_0_iff_dvd)
  moreover have "(\<forall>offset < n. P (first + offset)) \<longleftrightarrow> (\<forall>f \<in> {first ..< first + n}. P f)" for n and P :: "nat \<Rightarrow> bool"
    by (auto simp: le_iff_add)
  ultimately show ?thesis by (simp add: contiguous_fits_def list_all_iff atLeast0LessThan Ball_def)
qed

lemma contiguous_past_frame_eq:
  "contiguous_past_frame q = min (rq_maximum_physical_address q + 1) 4294967296 div 4096"
  by (simp add: contiguous_past_frame_def Let_def min_def UINT64_MAX_def)

lemma contiguous_exhausted:
  assumes "fa_initialized st" "frame_allocate_contiguous (Some q) (Some d) st = (FRAME_STATUS_OUT_OF_MEMORY, a, st')"
    and "first * 4096 + rq_page_count q * 4096 \<le> min (rq_maximum_physical_address q + 1) 4294967296"
  shows "contiguous_request_status q = FRAME_STATUS_OK" "\<not> contiguous_fits st q first"
    "first + rq_page_count q \<le> FRAME_COUNT"
proof -
  have "contiguous_request_status q \<noteq> FRAME_STATUS_OUT_OF_MEMORY"
    by (simp add: contiguous_request_status_def Let_def)
  then have scan: "contiguous_request_status q = FRAME_STATUS_OK"
    "find (contiguous_fits st q) [0 ..< contiguous_past_frame q - rq_page_count q + 1] = None"
    using assms(1,2) by (auto simp: frame_allocate_contiguous_def split: if_splits option.splits)
  then show "contiguous_request_status q = FRAME_STATUS_OK" by simp
  have "(first + rq_page_count q) * 4096 \<le> min (rq_maximum_physical_address q + 1) 4294967296"
    using assms(3) by (simp add: algebra_simps)
  then have "first + rq_page_count q \<le> contiguous_past_frame q"
    unfolding contiguous_past_frame_eq by (simp only: less_eq_div_iff_mult_less_eq [of 4096, simplified])
  then show "\<not> contiguous_fits st q first" "first + rq_page_count q \<le> FRAME_COUNT"
    using scan(2) contiguous_past_frame_bounds(1) [of q] unfolding find_None_iff by (auto simp del: upt_Suc)
qed

text \<open>C20. Contiguous runs: a granted run starts at the lowest suitably aligned frame where every
  page is free, is aligned as asked, ends within the address bound and below 4 GiB, and is reported in
  the handle; the request is refused for lack of memory only when no aligned free run fits.\<close>

theorem frame_contiguous_first_fit:
  assumes "fa_initialized st" "frame_allocate_contiguous (Some q) (Some d) st = (s, Some h, st')"
  shows "(s = FRAME_STATUS_OK \<longrightarrow>
      (\<exists>first. fc_physical_base h = first * 4096 \<and> fc_page_count h = rq_page_count q \<and> fc_active h \<and>
         0 < rq_page_count q \<and> rq_alignment q dvd fc_physical_base h \<and>
         fc_physical_base h + rq_page_count q * 4096 - 1 \<le> rq_maximum_physical_address q \<and>
         first + rq_page_count q \<le> FRAME_COUNT \<and>
         (\<forall>f \<in> {first ..< first + rq_page_count q}. frame_free st f) \<and>
         (\<forall>g < first. rq_alignment q dvd g * 4096 \<longrightarrow>
            (\<exists>f \<in> {g ..< g + rq_page_count q}. \<not> frame_free st f)))) \<and>
    (s = FRAME_STATUS_OUT_OF_MEMORY \<longrightarrow>
      (\<forall>first. rq_alignment q dvd first * 4096 \<longrightarrow>
         first * 4096 + rq_page_count q * 4096 \<le> min (rq_maximum_physical_address q + 1) 4294967296 \<longrightarrow>
         (\<exists>f \<in> {first ..< first + rq_page_count q}. \<not> frame_free st f)))"
proof (intro conjI impI allI)
  show "\<exists>first. fc_physical_base h = first * 4096 \<and> fc_page_count h = rq_page_count q \<and> fc_active h \<and>
         0 < rq_page_count q \<and> rq_alignment q dvd fc_physical_base h \<and>
         fc_physical_base h + rq_page_count q * 4096 - 1 \<le> rq_maximum_physical_address q \<and>
         first + rq_page_count q \<le> FRAME_COUNT \<and>
         (\<forall>f \<in> {first ..< first + rq_page_count q}. frame_free st f) \<and>
         (\<forall>g < first. rq_alignment q dvd g * 4096 \<longrightarrow>
            (\<exists>f \<in> {g ..< g + rq_page_count q}. \<not> frame_free st f))"
    if s: "s = FRAME_STATUS_OK"
  proof -
    obtain r first where P: "Some q = Some r" "contiguous_request_status r = FRAME_STATUS_OK"
      "contiguous_fits st r first" "first + rq_page_count r \<le> FRAME_COUNT"
      "first * 4096 + rq_page_count r * 4096 \<le> rq_maximum_physical_address r + 1"
      "mul64 first 4096 = first * 4096"
      "Some h = Some (contiguous_handle st r first)" "\<forall>g < first. \<not> contiguous_fits st r g"
      using assms(2) [unfolded s] by (rule frame_allocate_contiguous_OK) blast
    then have r: "r = q" "h = contiguous_handle st q first" by auto
    note Q = P [unfolded r(1)] and C = contiguous_request_status_OK [OF P(2) [unfolded r(1)]]
    have fits: "rq_alignment q dvd g * 4096 \<and> (\<forall>f \<in> {g ..< g + rq_page_count q}. frame_free st f)
        \<longleftrightarrow> contiguous_fits st q g" if "g \<le> first" for g
      using contiguous_fits_iff [OF C(2), of g st] that Q(4) C(1) by simp
    have "\<exists>f \<in> {g ..< g + rq_page_count q}. \<not> frame_free st f" if "g < first" "rq_alignment q dvd g * 4096" for g
      using fits [of g] Q(8) that by auto
    then show ?thesis
      using Q(3) fits [of first] C(1) Q(4,5)
      by (intro exI [of _ first]) (auto simp: r(2) contiguous_handle_def Q(6))
  qed
  show "\<exists>f \<in> {first ..< first + rq_page_count q}. \<not> frame_free st f"
    if s: "s = FRAME_STATUS_OUT_OF_MEMORY" and al: "rq_alignment q dvd first * 4096"
      and fit: "first * 4096 + rq_page_count q * 4096 \<le> min (rq_maximum_physical_address q + 1) 4294967296" for first
  proof -
    note E = contiguous_exhausted [OF assms(1) assms(2) [unfolded s] fit]
    have "0 < rq_page_count q" "power_of_two (rq_alignment q)" using contiguous_request_status_OK [OF E(1)] by blast+
    then show ?thesis using contiguous_fits_iff [of q first st] E(2,3) al by auto
  qed
qed

lemma filter_update_skip:
  "\<not> P (xs ! k) \<Longrightarrow> \<not> P y \<Longrightarrow> filter P (xs[k := y]) = filter P xs"
proof (cases "k < length xs")
  case True
  assume "\<not> P (xs ! k)" "\<not> P y"
  moreover have "filter P xs = filter P (take k xs @ xs ! k # drop (Suc k) xs)"
    using id_take_nth_drop [OF True] by simp
  ultimately show ?thesis using True by (simp add: upd_conv_take_nth_drop)
qed (simp add: list_update_beyond not_less)

lemma same_bits:
  assumes "\<And>f. eligible st' f = eligible st f" "\<And>f. used st' f = used st f"
  shows "pool_of st' = pool_of st" "stats_of st' = stats_of st"
  using assms by (simp_all add: pool_of_def stats_of_def frame_free_def frames_with_def)

text \<open>Releasing the run of record \<open>k\<close> by a handle that names it and no earlier record.\<close>

lemma frame_release_contiguous_grants:
  assumes "frames_ok st" "fa_initialized st" "k < length (fa_contiguous_records st)"
    and "r = fa_contiguous_records st ! k" "cont_active r" "fc_active h"
    and "cont_identifier r = fc_identifier h" "cont_physical_base r = fc_physical_base h"
    and "cont_page_count r = fc_page_count h"
    and "\<And>j. j < length (fa_contiguous_records st) \<Longrightarrow> j \<noteq> k \<Longrightarrow> cont_active (fa_contiguous_records st ! j) \<Longrightarrow>
      cont_identifier (fa_contiguous_records st ! j) \<noteq> fc_identifier h"
  obtains st' where "frame_release_contiguous (Some h) st = (FRAME_STATUS_OK, Some (h\<lparr>fc_active := False\<rparr>), st')"
    "fa_contiguous_records st' = (fa_contiguous_records st)[k := r\<lparr>cont_active := False\<rparr>]"
    "fa_initialized st'" "\<And>f. eligible st' f = eligible st f"
    "\<And>f. used st' f \<longleftrightarrow> used st f \<and> f \<notin> record_frames r"
proof -
  have idx: "first_index (\<lambda>c. cont_active c \<and> cont_identifier c = fc_identifier h) (fa_contiguous_records st) = Some k"
    using assms(3-5,7,10) by (intro first_index_SomeI) auto
  have "eligible st f \<and> used st f" if "f \<in> record_frames r" for f
    using frames_okD(2) [OF assms(1,2)] assms(3-5) that by (auto simp: records_ok_def)
  then have held: "\<not> list_ex (\<lambda>offset. \<not> eligible st (cont_physical_base r div 4096 + offset) \<or>
      \<not> used st (cont_physical_base r div 4096 + offset)) [0 ..< cont_page_count r]"
    by (auto simp: list_ex_iff record_frames_def)
  let ?st = "snd (snd (frame_release_contiguous (Some h) st))"
  have call: "frame_release_contiguous (Some h) st = (FRAME_STATUS_OK, Some (h\<lparr>fc_active := False\<rparr>), ?st)"
    using assms(2,6,8,9) held
    by (simp add: frame_release_contiguous_def idx Let_def assms(4) [symmetric])
  have "fa_contiguous_records ?st = (fa_contiguous_records st)[k := r\<lparr>cont_active := False\<rparr>]"
    "fa_initialized ?st" "fa_eligible_bitmap ?st = fa_eligible_bitmap st"
    "fa_used_bitmap ?st = set_used False (cont_physical_base r div 4096) (cont_page_count r) (fa_used_bitmap st)"
    using assms(2,6,8,9) held
    by (simp_all add: frame_release_contiguous_def idx Let_def assms(4) [symmetric])
  then show thesis by (intro that [OF call]) (auto simp: set_used_get record_frames_def)
qed

text \<open>C21. Round trip: releasing the handle of a contiguous run just granted succeeds and gives
  the allocator back the same free and owned frames, the same counters and the same active records;
  a second release of the handle is a double free. The identifier of the run must not be in use, which
  only \<open>2 ^ 64\<close> allocations could bring about.\<close>

theorem frame_contiguous_roundtrip:
  assumes "frames_ok st" "frame_allocate_contiguous q d st = (FRAME_STATUS_OK, Some h, st1)"
    and "\<forall>r \<in> set (fa_contiguous_records st). cont_active r \<longrightarrow> cont_identifier r \<noteq> fa_next_contiguous_identifier st"
  shows "\<exists>st2. frame_release_contiguous (Some h) st1 = (FRAME_STATUS_OK, Some (h\<lparr>fc_active := False\<rparr>), st2) \<and>
    pool_of st2 = pool_of st \<and> fa_stats st2 = fa_stats st \<and>
    filter cont_active (fa_contiguous_records st2) = filter cont_active (fa_contiguous_records st) \<and>
    fst (frame_release_contiguous (Some (h\<lparr>fc_active := False\<rparr>)) st2) = FRAME_STATUS_DOUBLE_FREE"
proof -
  obtain n k first where P: "fa_initialized st" "contiguous_request_status n = FRAME_STATUS_OK"
    "k < length (fa_contiguous_records st)" "\<not> cont_active (fa_contiguous_records st ! k)"
    "contiguous_fits st n first" "first + rq_page_count n \<le> FRAME_COUNT" "mul64 first 4096 = first * 4096"
    "h = contiguous_handle st n first" "st1 = take_contiguous st n k first"
    using assms(2) by (rule frame_allocate_contiguous_OK) blast
  let ?r = "\<lparr>cont_physical_base = first * 4096, cont_page_count = rq_page_count n,
    cont_identifier = fa_next_contiguous_identifier st, cont_active = True\<rparr>"
  have ok1: "frames_ok st1" "fa_initialized st1"
    using frame_allocate_contiguous_ok [OF assms(1,2)] P(1) by (simp_all add: P(9) take_contiguous_def)
  have recs1: "fa_contiguous_records st1 = (fa_contiguous_records st)[k := ?r]"
    by (simp add: P(7,9) take_contiguous_def)
  have h: "fc_active h" "fc_identifier h = fa_next_contiguous_identifier st"
    "fc_physical_base h = first * 4096" "fc_page_count h = rq_page_count n"
    by (simp_all add: P(7,8) contiguous_handle_def)
  obtain st2 where S: "frame_release_contiguous (Some h) st1 = (FRAME_STATUS_OK, Some (h\<lparr>fc_active := False\<rparr>), st2)"
    "fa_contiguous_records st2 = (fa_contiguous_records st1)[k := ?r\<lparr>cont_active := False\<rparr>]" "fa_initialized st2"
    "\<And>f. eligible st2 f = eligible st1 f" "\<And>f. used st2 f \<longleftrightarrow> used st1 f \<and> f \<notin> record_frames ?r"
    by (rule frame_release_contiguous_grants [OF ok1, of k ?r h]) (use P(3) assms(3) h in \<open>auto simp: recs1\<close>)
  have ok2: "frames_ok st2" by (rule frame_release_contiguous_ok [OF ok1(1) S(1)])
  note A = contiguous_run [OF P(5,6,2) refl]
  have "record_frames ?r = {first ..< first + rq_page_count n}" by (simp add: record_frames_def)
  then have "used st2 f \<longleftrightarrow> (used st f \<or> f \<in> {first ..< first + rq_page_count n}) \<and>
      f \<notin> {first ..< first + rq_page_count n}" for f
    by (simp only: S(5) P(9) A(3))
  moreover have "\<not> used st f" if "f \<in> {first ..< first + rq_page_count n}" for f
    using subsetD [OF A(2) that] by (simp add: frames_with_def frame_free_def)
  ultimately have used2: "used st2 f = used st f" for f by blast
  have eligible2: "eligible st2 f = eligible st f" for f by (simp add: S(4) P(9) take_contiguous_def)
  note same = same_bits [OF eligible2 used2]
  have "filter cont_active (fa_contiguous_records st2) = filter cont_active (fa_contiguous_records st)"
    using P(4) by (simp add: S(2) recs1 filter_update_skip)
  moreover have "fa_stats st2 = fa_stats st"
    using same(2) frames_okD(1) [OF ok2 S(3)] frames_okD(1) [OF assms(1) P(1)] by simp
  moreover have "fst (frame_release_contiguous (Some (h\<lparr>fc_active := False\<rparr>)) st2) = FRAME_STATUS_DOUBLE_FREE"
    using S(3) by (simp add: frame_release_contiguous_def)
  ultimately show ?thesis using S(1) same(1) by blast
qed

section \<open>From the boot memory map to the frames handed out\<close>

lemma frame_step_eligible:
  assumes "op_words op" "frame_step op st = (s, st')" "eligible st' f"
  shows "eligible st f"
proof (cases "s = FRAME_STATUS_OK")
  case True
  show ?thesis
    using assms(2) [unfolded True]
  proof (cases rule: frame_stepE)
    case (allocate p a)
    from allocate(2) show ?thesis by (rule frame_allocate_OK) (use assms(3) in \<open>simp add: take_frame_def\<close>)
  next
    case (release a)
    show ?thesis using assms(3) by (simp add: frame_release_OK(7) [OF release(2) refl])
  next
    case (allocate_contiguous q d a)
    from allocate_contiguous(2) show ?thesis
      by (rule frame_allocate_contiguous_OK) (use assms(3) in \<open>simp add: take_contiguous_def\<close>)
  next
    case (release_contiguous h a)
    from release_contiguous(2) show ?thesis by (rule frame_release_contiguous_OK) (use assms(3) in simp)
  next
    case (reserve base len)
    have "base < 2 ^ 64" using assms(1) reserve(1) by simp
    then show ?thesis using assms(3) frame_reserve_range_OK(5) [OF reserve(2)] by blast
  qed
qed (use assms(3) frame_step_cases [OF assms(2)] in simp)

lemma frame_run_eligible:
  "list_all op_words ops \<Longrightarrow> eligible (frame_run ops st) f \<Longrightarrow> eligible st f"
proof (induction ops arbitrary: st)
  case (Cons op ops)
  obtain s st' where step: "frame_step op st = (s, st')" by fastforce
  have "eligible st' f" using Cons.IH [of st'] Cons.prems step by simp
  then show ?case using frame_step_eligible [OF _ step] Cons.prems(1) by simp
qed simp

lemma frame_initialize_ok:
  assumes "frame_allocator_initialize mem ks ke (Some c) st = (FRAME_STATUS_OK, st')"
    and "ke < 2 ^ 64" "bi_information_start c \<le> bi_information_end c" "bi_information_end c < 2 ^ 64"
  shows "frames_ok st'"
  using frame_initialize_OK [OF assms] records_ok_empty by (simp add: frames_ok_def)

text \<open>C18. Initialisation makes allocatable exactly the frames that lie wholly inside an available
  region of the boot memory map, touch no region of another type, and are clear of the first MiB, the
  kernel image and the boot information block; all of them start free, and the counters agree.\<close>

theorem frame_initialize_exact:
  assumes "frame_allocator_initialize mem ks ke (Some c) st = (FRAME_STATUS_OK, st')"
    and "ke < 2 ^ 64" "bi_information_start c \<le> bi_information_end c" "bi_information_end c < 2 ^ 64"
  shows "fa_initialized st' \<and>
    (\<forall>f. (eligible st' f \<longleftrightarrow> boot_allocatable mem ks ke c f) \<and> (frame_free st' f \<longleftrightarrow> eligible st' f)) \<and>
    0 < fs_free_frames (fa_stats st') \<and>
    fs_free_frames (fa_stats st') = card {f. f < FRAME_COUNT \<and> boot_allocatable mem ks ke c f} \<and>
    fs_allocated_frames (fa_stats st') = 0"
proof -
  note I = frame_initialize_OK [OF assms]
  have free: "frame_free st' f \<longleftrightarrow> boot_allocatable mem ks ke c f" for f
    using I(5,6) by (auto simp: frame_free_def)
  have "frames_with (\<lambda>f. eligible st' f \<and> used st' f) = {}"
    using I(6) by (auto simp: frames_with_def)
  then have "fs_allocated_frames (fa_stats st') = 0" by (simp add: I(2) stats_of_def)
  moreover have "fs_free_frames (fa_stats st') = card {f. f < FRAME_COUNT \<and> boot_allocatable mem ks ke c f}"
    by (simp add: I(2) stats_of_def frames_with_def free)
  ultimately show ?thesis using I(1,3,5) free by simp
qed

text \<open>C16. End to end: whatever sequence of calls follows initialisation, a frame that the
  allocator hands out is one the boot memory map makes allocatable: it lies wholly in an available
  region and in none of another type, nor in the first MiB, the kernel image or the boot information.
  Throughout, the counters are exact and add up to the frames of the first 4 GiB.\<close>

theorem frame_boot_safety:
  assumes "frame_allocator_initialize mem ks ke (Some c) st = (FRAME_STATUS_OK, st0)"
    and "ke < 2 ^ 64" "bi_information_start c \<le> bi_information_end c" "bi_information_end c < 2 ^ 64"
    and "list_all op_words ops" "st1 = frame_run ops st0"
  shows "(\<forall>p a st2. frame_allocate p st1 = (FRAME_STATUS_OK, Some a, st2) \<longrightarrow>
       4096 dvd a \<and> a div 4096 < FRAME_COUNT \<and> boot_allocatable mem ks ke c (a div 4096)) \<and>
    fa_stats st1 = stats_of st1 \<and>
    fs_free_frames (fa_stats st1) + fs_allocated_frames (fa_stats st1) + fs_reserved_frames (fa_stats st1) = FRAME_COUNT"
proof -
  note I = frame_initialize_OK [OF assms(1-4)]
  have ok: "frames_ok st1" "fa_initialized st1"
    using frame_run_ok [OF frame_initialize_ok [OF assms(1-4)] I(1) assms(5)] assms(6) by simp_all
  have "4096 dvd a \<and> a div 4096 < FRAME_COUNT \<and> boot_allocatable mem ks ke c (a div 4096)"
    if "frame_allocate p st1 = (FRAME_STATUS_OK, Some a, st2)" for p a st2
  proof -
    note A = frame_allocate_owned [OF ok(1) that]
    have "eligible st1 (a div 4096)" using A(3) by (simp add: frame_free_def)
    then have "eligible st0 (a div 4096)" using frame_run_eligible [OF assms(5)] assms(6) by blast
    then show ?thesis using A(2,4) I(5) by blast
  qed
  then show ?thesis
    using frames_okD(1) [OF ok] stats_bounds(3,4) [of st1] by auto
qed

section \<open>Witnesses\<close>

text \<open>An allocator in which every frame is allocatable and free.\<close>

definition demo_frames :: frame_state where
  "demo_frames =
     \<lparr>fa_eligible_bitmap = bitmap_fill 255, fa_used_bitmap = bitmap_fill 0,
      fa_stats = \<lparr>fs_addressable_frames = FRAME_COUNT, fs_allocatable_frames = FRAME_COUNT,
        fs_free_frames = FRAME_COUNT, fs_allocated_frames = 0, fs_reserved_frames = 0,
        fs_highest_allocatable_address = 4294967296\<rparr>,
      fa_next_search_index = 256, fa_initialized = True,
      fa_contiguous_records = replicate 32 empty_record, fa_next_contiguous_identifier = 1\<rparr>"

lemma demo_free: "eligible demo_frames f" "\<not> used demo_frames f" "frame_free demo_frames f"
  by (simp_all add: demo_frames_def frame_free_def bitmap_get_fill)

lemma demo_frames_ok: "frames_ok demo_frames" "fa_initialized demo_frames"
proof -
  have "frames_with (\<lambda>f. True) = {..< FRAME_COUNT}" "frames_with (\<lambda>f. False) = {}"
    by (auto simp: frames_with_def)
  moreover have "(Max {..< FRAME_COUNT} + 1) * 4096 = 4294967296"
    using Max_eqI [of "{..< FRAME_COUNT}" 1048575] by (simp add: FRAME_COUNT_eq)
  moreover have "eligible demo_frames = (\<lambda>f. True)" "frame_free demo_frames = (\<lambda>f. True)"
    by (simp_all add: fun_eq_iff demo_free)
  ultimately have "stats_of demo_frames = fa_stats demo_frames"
    by (simp add: stats_of_def demo_free, simp add: demo_frames_def FRAME_COUNT_eq lessThan_empty_iff)
  moreover have "records_ok demo_frames" by (rule records_ok_empty) (simp add: demo_frames_def)
  ultimately show "frames_ok demo_frames" by (simp add: frames_ok_def)
  show "fa_initialized demo_frames" by (simp add: demo_frames_def)
qed

lemma search_pass_hit:
  assumes "first < past" "frame_free st first" "fa_next_search_index st < first"
  shows "search_pass st first past = Some first"
proof -
  have "[0 ..< past - first] = 0 # [1 ..< past - first]" using assms(1) by (simp add: upt_conv_Cons)
  then show ?thesis using assms by (simp add: search_pass_def)
qed

lemma demo_allocate:
  "frame_allocate (Some 0) demo_frames = (FRAME_STATUS_OK, Some 16777216, take_frame demo_frames 4096)"
proof -
  have "search_pass demo_frames 4096 FRAME_COUNT = Some 4096"
    by (rule search_pass_hit) (simp_all add: demo_free FRAME_COUNT_eq, simp add: demo_frames_def)
  then show ?thesis
    by (simp add: frame_allocate_def FRAME_COUNT_eq(2) demo_frames_ok(2), simp add: demo_frames_def FRAME_COUNT_eq)
qed

theorem frame_single_owner_witness:
  "eligible (frame_run [Op_Reserve 4096 8192, Op_Allocate (Some 0), Op_Release 16781312]
       (take_frame demo_frames 4096)) 4096 \<and>
   used (frame_run [Op_Reserve 4096 8192, Op_Allocate (Some 0), Op_Release 16781312]
       (take_frame demo_frames 4096)) 4096"
  using frame_single_owner [OF demo_frames_ok(1) demo_allocate,
      of "[Op_Reserve 4096 8192, Op_Allocate (Some 0), Op_Release 16781312]"] by simp

theorem frame_allocate_progress_witness:
  "\<exists>f < FRAME_COUNT. Some 16777216 = Some (f * 4096) \<and> frame_free demo_frames f"
  using frame_allocate_progress [OF demo_frames_ok demo_allocate] by blast

theorem frame_release_status_witness:
  "fst (frame_release 4097 demo_frames) = FRAME_STATUS_UNALIGNED_ADDRESS \<and>
   fst (frame_release 8192 demo_frames) = FRAME_STATUS_DOUBLE_FREE"
  using frame_release_status [OF demo_frames_ok(2) refl, of 4097]
    frame_release_status [OF demo_frames_ok(2) refl, of 8192]
  by (simp add: demo_free FRAME_COUNT_eq)

theorem frame_calls_refine_pool_witness:
  "pool_step (Op_Allocate (Some 0)) FRAME_STATUS_OK (pool_of demo_frames) (pool_of (take_frame demo_frames 4096))"
proof -
  have "frame_step (Op_Allocate (Some 0)) demo_frames = (FRAME_STATUS_OK, take_frame demo_frames 4096)"
    by (simp add: demo_allocate)
  from frame_calls_refine_pool [OF demo_frames_ok _ this] show ?thesis by simp
qed

definition demo_request :: frame_contiguous_request where
  "demo_request = \<lparr>rq_page_count = 4, rq_alignment = 16384, rq_maximum_physical_address = 16777215\<rparr>"

lemma demo_allocate_contiguous:
  "frame_allocate_contiguous (Some demo_request) (Some cleared_contiguous) demo_frames =
     (FRAME_STATUS_OK, Some (contiguous_handle demo_frames demo_request 0),
      take_contiguous demo_frames demo_request 0 0)"
proof -
  have status: "contiguous_request_status demo_request = FRAME_STATUS_OK"
    by (simp add: contiguous_request_status_def demo_request_def power_of_two_def contiguous_past_frame_def
        UINT64_MAX_def mul64_def)
  have "contiguous_fits demo_frames demo_request 0"
    by (simp add: contiguous_fits_def mul64_def demo_free list_all_iff)
  moreover have "[0 ..< Suc n] = 0 # [1 ..< Suc n]" for n by (simp add: upt_conv_Cons)
  ultimately have "find (contiguous_fits demo_frames demo_request)
      [0 ..< contiguous_past_frame demo_request - rq_page_count demo_request + 1] = Some 0" by simp
  moreover have "first_index (\<lambda>r. \<not> cont_active r) (fa_contiguous_records demo_frames) = Some 0"
    by (simp add: demo_frames_def first_index_replicate empty_record_def)
  ultimately show ?thesis
    using demo_frames_ok(2) status by (simp add: frame_allocate_contiguous_def)
qed

theorem frame_contiguous_first_fit_witness:
  "\<exists>first. fc_physical_base (contiguous_handle demo_frames demo_request 0) = first * 4096 \<and>
     rq_alignment demo_request dvd first * 4096"
  using frame_contiguous_first_fit [OF demo_frames_ok(2) demo_allocate_contiguous] by auto

theorem frame_contiguous_roundtrip_witness:
  "\<exists>st2. frame_release_contiguous (Some (contiguous_handle demo_frames demo_request 0))
      (take_contiguous demo_frames demo_request 0 0) =
      (FRAME_STATUS_OK, Some ((contiguous_handle demo_frames demo_request 0)\<lparr>fc_active := False\<rparr>), st2) \<and>
    pool_of st2 = pool_of demo_frames"
proof -
  have "\<forall>r \<in> set (fa_contiguous_records demo_frames). cont_active r \<longrightarrow>
      cont_identifier r \<noteq> fa_next_contiguous_identifier demo_frames"
    by (simp add: demo_frames_def empty_record_def)
  from frame_contiguous_roundtrip [OF demo_frames_ok(1) demo_allocate_contiguous this] show ?thesis by blast
qed

text \<open>The boot information of the parsed block, with a kernel image in the first half of its
  available region.\<close>

definition demo_boot_state :: frame_state where
  "demo_boot_state = snd (frame_allocator_initialize demo_memory 1048576 1572864 (Some demo_context) demo_frames)"

lemma demo_region:
  "boot_information_region_at demo_memory (Some demo_context) 0 =
     Some \<lparr>region_base_address = 1048576, region_length = 1048576, region_type = 1\<rparr>"
  by (simp add: boot_information_region_at_def demo_context_def Let_def mul64_def demo_bytes)

lemma demo_fields:
  "bi_memory_map_entry_count demo_context = 1" "bi_memory_map demo_context = Some 4104"
  "bi_information_start demo_context = 4096" "bi_information_end demo_context = 4192"
  by (simp_all add: demo_context_def)

lemma demo_frames_initialize:
  "frame_allocator_initialize demo_memory 1048576 1572864 (Some demo_context) demo_frames =
     (FRAME_STATUS_OK, demo_boot_state)"
proof -
  have bounds: "available_frame_bounds 1048576 1048576 = Inr (256, 512)"
    "covering_frame_bounds 0 1048576 = Inr (0, 256)"
    "covering_frame_bounds 1048576 524288 = Inr (256, 384)" "covering_frame_bounds 4096 96 = Inr (1, 2)"
    by (simp_all add: available_frame_bounds_def covering_frame_bounds_def checked_range_end_def
        UINT64_MAX_def add64_def not64_def Let_def)
  have subs: "sub64 1572864 1048576 = 524288" "sub64 4192 4096 = 96" by (simp_all add: sub64_def)
  let ?st = "\<lambda>st. mark_list False True [1 ..< 2] (mark_list False True [256 ..< 384]
    (mark_list False True [0 ..< 256] (mark_list True False [256 ..< 512] st)))"
  have "0 < fs_free_frames (stats_of (?st st))" for st
  proof -
    have "400 \<in> frames_with (frame_free (?st st))"
      by (simp add: frames_with_def frame_free_def mark_list_get FRAME_COUNT_eq
          del: upt_rec_numeral mark_list_simps)
    then have "frames_with (frame_free (?st st)) \<noteq> {}" by blast
    then show ?thesis
      by (simp only: stats_of_def frame_allocator_stats.select_convs card_gt_0_iff finite_frames_with
          not_False_eq_True simp_thms)
  qed
  then have "fst (frame_allocator_initialize demo_memory 1048576 1572864 (Some demo_context) demo_frames) =
      FRAME_STATUS_OK"
    by (simp add: frame_allocator_initialize_def apply_memory_map_def demo_region reserve_internal_def bounds subs
        mark_available_eq mark_reserved_eq recompute_stats_eq Let_def demo_fields
        del: upt_rec_numeral mark_list_simps)
  then show ?thesis unfolding demo_boot_state_def by (intro prod_eqI) simp_all
qed

lemma demo_boot_words:
  "(1572864 :: nat) < 2 ^ 64" "bi_information_start demo_context \<le> bi_information_end demo_context"
  "bi_information_end demo_context < 2 ^ 64"
  by (simp_all add: demo_fields)

theorem frame_initialize_exact_witness:
  "fa_initialized demo_boot_state \<and> eligible demo_boot_state 400"
proof -
  have "boot_allocatable demo_memory 1048576 1572864 demo_context 400"
    by (simp add: boot_allocatable_def boot_reserved_def available_region_frame_def reserved_region_frame_def
        demo_region demo_fields frames_inside_def frames_touching_def FRAME_COUNT_eq)
  then show ?thesis using frame_initialize_exact [OF demo_frames_initialize demo_boot_words] by blast
qed

theorem frame_boot_safety_witness:
  "fa_stats (frame_run [Op_Allocate (Some 0), Op_Reserve 1638400 4096] demo_boot_state) =
     stats_of (frame_run [Op_Allocate (Some 0), Op_Reserve 1638400 4096] demo_boot_state)"
proof -
  have "list_all op_words [Op_Allocate (Some 0), Op_Reserve 1638400 4096]" by simp
  from frame_boot_safety [OF demo_frames_initialize demo_boot_words this refl] show ?thesis by blast
qed

end
