(* ===== verification/Paging_Entries.thy ===== *)
theory Paging_Entries
  imports Prelude
begin

text \<open>
  The entry format of \<open>src/kernel/paging.c\<close>: page-table entries are 64-bit words, permissions 32-bit
  masks, virtual and physical addresses natural numbers. The theory holds the PAT decoding, the
  translation between permissions and entry flags, the checks on a range, and what they give each
  other: an entry composed from a page address and permissions reads back as that address and those
  permissions.
\<close>

section \<open>Statuses and memory types\<close>

datatype (plugins only: code size) paging_status =
    PAGING_STATUS_OK
  | PAGING_STATUS_NULL_ARGUMENT
  | PAGING_STATUS_ALREADY_INITIALIZED
  | PAGING_STATUS_NOT_INITIALIZED
  | PAGING_STATUS_INTERRUPTS_ENABLED
  | PAGING_STATUS_NO_EXECUTE_UNSUPPORTED
  | PAGING_STATUS_NO_EXECUTE_INACTIVE
  | PAGING_STATUS_WRITE_PROTECT_INACTIVE
  | PAGING_STATUS_FIVE_LEVEL_PAGING
  | PAGING_STATUS_PHYSICAL_EXTENSION_DISABLED
  | PAGING_STATUS_PAT_UNSUPPORTED
  | PAGING_STATUS_PAT_LAYOUT_UNSAFE
  | PAGING_STATUS_PAT_READBACK_MISMATCH
  | PAGING_STATUS_BAD_KERNEL_LAYOUT
  | PAGING_STATUS_BAD_DEVICE_WINDOW_KIND
  | PAGING_STATUS_BAD_DEVICE_WINDOW_INSTANCE
  | PAGING_STATUS_UNSUPPORTED_DEVICE_WINDOW_MEMORY_TYPE
  | PAGING_STATUS_BAD_DEVICE_WINDOW_PERMISSIONS
  | PAGING_STATUS_ZERO_LENGTH_DEVICE_WINDOW
  | PAGING_STATUS_UNALIGNED_DEVICE_WINDOW
  | PAGING_STATUS_DEVICE_WINDOW_RANGE_OVERFLOW
  | PAGING_STATUS_DEVICE_WINDOW_UNSUPPORTED_RANGE
  | PAGING_STATUS_TOO_MANY_DEVICE_WINDOWS
  | PAGING_STATUS_CONFLICTING_DEVICE_WINDOW_OVERLAP
  | PAGING_STATUS_OVERLAPPING_DEVICE_WINDOWS
  | PAGING_STATUS_DUPLICATE_DEVICE_WINDOW
  | PAGING_STATUS_REQUIRED_DEVICE_WINDOW_MISSING
  | PAGING_STATUS_DEVICE_WINDOW_KERNEL_OVERLAP
  | PAGING_STATUS_INSTALLED_DEVICE_WINDOW_MISMATCH
  | PAGING_STATUS_ZERO_LENGTH
  | PAGING_STATUS_UNALIGNED_ADDRESS
  | PAGING_STATUS_NONCANONICAL_ADDRESS
  | PAGING_STATUS_RANGE_OVERFLOW
  | PAGING_STATUS_PHYSICAL_TOO_WIDE
  | PAGING_STATUS_BAD_PERMISSIONS
  | PAGING_STATUS_CONFLICTING_MEMORY_TYPES
  | PAGING_STATUS_MEMORY_TYPE_CHANGE_UNSAFE
  | PAGING_STATUS_WRITABLE_AND_EXECUTABLE
  | PAGING_STATUS_ALREADY_MAPPED
  | PAGING_STATUS_NOT_MAPPED
  | PAGING_STATUS_HUGE_PAGE_PRESENT
  | PAGING_STATUS_OUT_OF_FRAMES
  | PAGING_STATUS_VALIDATION_FAILURE
  | PAGING_STATUS_PROCESS_BUSY
  | PAGING_STATUS_PROCESS_BAD_TOKEN
  | PAGING_STATUS_PROCESS_BAD_STATE
  | PAGING_STATUS_PROCESS_BAD_MAPPING
  | PAGING_STATUS_PROCESS_ALIAS_STATE
  | PAGING_STATUS_SUPERVISOR_INTENT_FULL

datatype paging_memory_type =
    PAGING_MEMORY_WRITE_BACK
  | PAGING_MEMORY_WRITE_COMBINING
  | PAGING_MEMORY_UNCACHEABLE
  | PAGING_MEMORY_WRITE_THROUGH
  | PAGING_MEMORY_WRITE_PROTECTED
  | PAGING_MEMORY_UNCACHED_MINUS
  | PAGING_MEMORY_INVALID

section \<open>Entry bits\<close>

definition PAGE_PRESENT :: u64 where "PAGE_PRESENT = push_bit 0 1"
definition PAGE_WRITABLE :: u64 where "PAGE_WRITABLE = push_bit 1 1"
definition PAGE_USER :: u64 where "PAGE_USER = push_bit 2 1"
definition PAGE_WRITE_THROUGH :: u64 where "PAGE_WRITE_THROUGH = push_bit 3 1"
definition PAGE_CACHE_DISABLE :: u64 where "PAGE_CACHE_DISABLE = push_bit 4 1"
definition PAGE_HUGE :: u64 where "PAGE_HUGE = push_bit 7 1"
definition PAGE_LARGE_PAT :: u64 where "PAGE_LARGE_PAT = push_bit 12 1"
definition PAGE_NO_EXECUTE :: u64 where "PAGE_NO_EXECUTE = push_bit 63 1"
definition PAGE_FRAME_MASK :: u64 where "PAGE_FRAME_MASK = 0x000FFFFFFFFFF000"
definition PAGE_PHYSICAL_LIMIT :: nat where "PAGE_PHYSICAL_LIMIT = 2 ^ 52"

abbreviation (input) PAGING_LEVEL_COUNT :: nat where "PAGING_LEVEL_COUNT \<equiv> 4"
abbreviation (input) PAGING_ENTRIES_PER_TABLE :: nat where "PAGING_ENTRIES_PER_TABLE \<equiv> 512"
abbreviation (input) PAGING_PAGE_SIZE :: nat where "PAGING_PAGE_SIZE \<equiv> 4096"
abbreviation (input) PAGING_HUGE_PAGE_SIZE :: nat where "PAGING_HUGE_PAGE_SIZE \<equiv> 0x200000"

definition PAGING_READ :: u32 where "PAGING_READ = 0"
definition PAGING_WRITE :: u32 where "PAGING_WRITE = push_bit 0 1"
definition PAGING_EXECUTE :: u32 where "PAGING_EXECUTE = push_bit 1 1"
definition PAGING_UNCACHED :: u32 where "PAGING_UNCACHED = push_bit 2 1"
definition PAGING_WRITE_COMBINING :: u32 where "PAGING_WRITE_COMBINING = push_bit 3 1"

section \<open>The page attribute table\<close>

definition PAT_TYPE_UNCACHEABLE :: u8 where "PAT_TYPE_UNCACHEABLE = 0"
definition PAT_TYPE_WRITE_COMBINING :: u8 where "PAT_TYPE_WRITE_COMBINING = 1"
definition PAT_TYPE_WRITE_THROUGH :: u8 where "PAT_TYPE_WRITE_THROUGH = 4"
definition PAT_TYPE_WRITE_PROTECTED :: u8 where "PAT_TYPE_WRITE_PROTECTED = 5"
definition PAT_TYPE_WRITE_BACK :: u8 where "PAT_TYPE_WRITE_BACK = 6"
definition PAT_TYPE_UNCACHED_MINUS :: u8 where "PAT_TYPE_UNCACHED_MINUS = 7"
abbreviation (input) PAT_WRITE_BACK_ENTRY :: nat where "PAT_WRITE_BACK_ENTRY \<equiv> 0"
abbreviation (input) PAT_WRITE_COMBINING_ENTRY :: nat where "PAT_WRITE_COMBINING_ENTRY \<equiv> 1"
abbreviation (input) PAT_DEVICE_ENTRY :: nat where "PAT_DEVICE_ENTRY \<equiv> 3"

definition pat_entry :: "u64 \<Rightarrow> nat \<Rightarrow> u8" where
  "pat_entry pat index = ucast (drop_bit (index * 8) pat)"

definition pat_replace_entry :: "u64 \<Rightarrow> nat \<Rightarrow> u8 \<Rightarrow> u64" where
  "pat_replace_entry pat index memory_type =
     (let shift = index * 8; msk = push_bit shift 0xFF in
      (pat AND NOT msk) OR push_bit shift (ucast memory_type))"

definition decode_pat_type :: "u8 \<Rightarrow> paging_memory_type" where
  "decode_pat_type memory_type =
     (if memory_type = PAT_TYPE_WRITE_BACK then PAGING_MEMORY_WRITE_BACK
      else if memory_type = PAT_TYPE_WRITE_COMBINING then PAGING_MEMORY_WRITE_COMBINING
      else if memory_type = PAT_TYPE_UNCACHEABLE then PAGING_MEMORY_UNCACHEABLE
      else if memory_type = PAT_TYPE_WRITE_THROUGH then PAGING_MEMORY_WRITE_THROUGH
      else if memory_type = PAT_TYPE_WRITE_PROTECTED then PAGING_MEMORY_WRITE_PROTECTED
      else if memory_type = PAT_TYPE_UNCACHED_MINUS then PAGING_MEMORY_UNCACHED_MINUS
      else PAGING_MEMORY_INVALID)"

definition leaf_pat_index :: "u64 \<Rightarrow> nat \<Rightarrow> nat" where
  "leaf_pat_index entry level =
     (let pat_bit = (if level = 1 then PAGE_HUGE else PAGE_LARGE_PAT) in
      (if entry AND PAGE_WRITE_THROUGH \<noteq> 0 then 1 else 0) OR
      (if entry AND PAGE_CACHE_DISABLE \<noteq> 0 then 2 else 0) OR
      (if entry AND pat_bit \<noteq> 0 then 4 else 0))"

definition leaf_memory_type :: "u64 \<Rightarrow> nat \<Rightarrow> u64 \<Rightarrow> paging_memory_type" where
  "leaf_memory_type entry level pat = decode_pat_type (pat_entry pat (leaf_pat_index entry level))"

section \<open>Addresses\<close>

definition table_index :: "nat \<Rightarrow> nat \<Rightarrow> nat" where
  "table_index virtual_address level =
     (let shift = 12 + 9 * (level - 1) in
      drop_bit shift virtual_address AND (PAGING_ENTRIES_PER_TABLE - 1))"

definition level_page_size :: "nat \<Rightarrow> nat" where
  "level_page_size level = push_bit (12 + 9 * (level - 1)) 1"

definition address_is_canonical :: "nat \<Rightarrow> bool" where
  "address_is_canonical virtual_address \<longleftrightarrow>
     (let high = drop_bit 47 virtual_address in high = 0 \<or> high = 0x1FFFF)"

section \<open>Permissions\<close>

definition permissions_to_flags :: "u32 \<Rightarrow> u64" where
  "permissions_to_flags permissions =
     PAGE_PRESENT OR
     (if permissions AND PAGING_WRITE \<noteq> 0 then PAGE_WRITABLE else 0) OR
     (if permissions AND PAGING_EXECUTE = 0 then PAGE_NO_EXECUTE else 0) OR
     (if permissions AND PAGING_UNCACHED \<noteq> 0 then PAGE_CACHE_DISABLE OR PAGE_WRITE_THROUGH else 0) OR
     (if permissions AND PAGING_WRITE_COMBINING \<noteq> 0 then PAGE_WRITE_THROUGH else 0)"

text \<open>The permission bit a memory type stands for, as both readers of an entry add it.\<close>

definition memory_type_permission :: "paging_memory_type \<Rightarrow> u32" where
  "memory_type_permission memory_type =
     (if memory_type = PAGING_MEMORY_UNCACHEABLE then PAGING_UNCACHED
      else if memory_type = PAGING_MEMORY_WRITE_COMBINING then PAGING_WRITE_COMBINING else 0)"

definition flags_to_permissions :: "u64 \<Rightarrow> nat \<Rightarrow> u64 \<Rightarrow> u32" where
  "flags_to_permissions entry level pat =
     PAGING_READ OR
     (if entry AND PAGE_WRITABLE \<noteq> 0 then PAGING_WRITE else 0) OR
     (if entry AND PAGE_NO_EXECUTE = 0 then PAGING_EXECUTE else 0) OR
     memory_type_permission (leaf_memory_type entry level pat)"

definition validate_permissions :: "u32 \<Rightarrow> paging_status" where
  "validate_permissions permissions =
     (let known = PAGING_WRITE OR PAGING_EXECUTE OR PAGING_UNCACHED OR PAGING_WRITE_COMBINING in
      if permissions AND NOT known \<noteq> 0 then PAGING_STATUS_BAD_PERMISSIONS
      else if permissions AND PAGING_WRITE \<noteq> 0 \<and> permissions AND PAGING_EXECUTE \<noteq> 0
        then PAGING_STATUS_WRITABLE_AND_EXECUTABLE
      else if permissions AND PAGING_UNCACHED \<noteq> 0 \<and> permissions AND PAGING_WRITE_COMBINING \<noteq> 0
        then PAGING_STATUS_CONFLICTING_MEMORY_TYPES
      else PAGING_STATUS_OK)"

section \<open>Ranges\<close>

definition validate_virtual_range :: "nat \<Rightarrow> nat \<Rightarrow> nat \<Rightarrow> paging_status" where
  "validate_virtual_range virtual_address len page_size =
     (if len = 0 then PAGING_STATUS_ZERO_LENGTH
      else if virtual_address AND (page_size - 1) \<noteq> 0 \<or> len AND (page_size - 1) \<noteq> 0
        then PAGING_STATUS_UNALIGNED_ADDRESS
      else if \<not> address_is_canonical virtual_address then PAGING_STATUS_NONCANONICAL_ADDRESS
      else if len > UINT64_MAX - virtual_address then PAGING_STATUS_RANGE_OVERFLOW
      else if \<not> address_is_canonical (virtual_address + len - 1) then PAGING_STATUS_NONCANONICAL_ADDRESS
      else PAGING_STATUS_OK)"

definition validate_physical_range :: "nat \<Rightarrow> nat \<Rightarrow> nat \<Rightarrow> paging_status" where
  "validate_physical_range physical_address len page_size =
     (if physical_address AND (page_size - 1) \<noteq> 0 then PAGING_STATUS_UNALIGNED_ADDRESS
      else if len > UINT64_MAX - physical_address then PAGING_STATUS_RANGE_OVERFLOW
      else if physical_address + len > PAGE_PHYSICAL_LIMIT then PAGING_STATUS_PHYSICAL_TOO_WIDE
      else PAGING_STATUS_OK)"

section \<open>The processor\<close>

definition CPUID_EXTENDED_FEATURES :: nat where "CPUID_EXTENDED_FEATURES = 0x80000001"
definition CPUID_NO_EXECUTE :: u32 where "CPUID_NO_EXECUTE = 0x00100000"
definition CPUID_PAT :: u32 where "CPUID_PAT = 0x00010000"
definition CR4_PHYSICAL_ADDRESS_EXTENSION :: u64 where "CR4_PHYSICAL_ADDRESS_EXTENSION = push_bit 5 1"
definition CR4_FIVE_LEVEL_PAGING :: u64 where "CR4_FIVE_LEVEL_PAGING = push_bit 12 1"

definition decode_processor_support :: "u32 \<Rightarrow> u32 \<Rightarrow> u32 \<Rightarrow> u64 \<Rightarrow> u64 \<Rightarrow> paging_status" where
  "decode_processor_support basic_features_edx extended_root_eax extended_features_edx cr4 pat =
     (if unat extended_root_eax < CPUID_EXTENDED_FEATURES \<or> extended_features_edx AND CPUID_NO_EXECUTE = 0
        then PAGING_STATUS_NO_EXECUTE_UNSUPPORTED
      else if basic_features_edx AND CPUID_PAT = 0 then PAGING_STATUS_PAT_UNSUPPORTED
      else if cr4 AND CR4_FIVE_LEVEL_PAGING \<noteq> 0 then PAGING_STATUS_FIVE_LEVEL_PAGING
      else if cr4 AND CR4_PHYSICAL_ADDRESS_EXTENSION = 0 then PAGING_STATUS_PHYSICAL_EXTENSION_DISABLED
      else if list_ex (\<lambda>index. decode_pat_type (pat_entry pat index) = PAGING_MEMORY_INVALID) [0 ..< 8]
        then PAGING_STATUS_PAT_LAYOUT_UNSAFE
      else if pat_entry pat PAT_WRITE_BACK_ENTRY \<noteq> PAT_TYPE_WRITE_BACK \<or>
              pat_entry pat PAT_DEVICE_ENTRY \<noteq> PAT_TYPE_UNCACHEABLE
        then PAGING_STATUS_PAT_LAYOUT_UNSAFE
      else PAGING_STATUS_OK)"

section \<open>Bits of an entry\<close>

lemma and_push_bit_1: "(e :: 'a :: len word) AND push_bit n 1 = 0 \<longleftrightarrow> \<not> bit e n"
  by (simp add: push_bit_of_1 and_exp_eq_0_iff_not_bit)

lemma bit_push_bit_1: "bit (push_bit m 1 :: 'a :: len word) n \<longleftrightarrow> n = m \<and> m < LENGTH('a)"
  by (auto simp: push_bit_of_1 bit_exp_iff)

named_theorems entry_bits \<open>tests of an entry or a permission mask as single bits\<close>

lemma entry_flags [entry_bits]:
  "e AND PAGE_PRESENT = 0 \<longleftrightarrow> \<not> bit e 0" "e AND PAGE_WRITABLE = 0 \<longleftrightarrow> \<not> bit e 1"
  "e AND PAGE_USER = 0 \<longleftrightarrow> \<not> bit e 2" "e AND PAGE_WRITE_THROUGH = 0 \<longleftrightarrow> \<not> bit e 3"
  "e AND PAGE_CACHE_DISABLE = 0 \<longleftrightarrow> \<not> bit e 4" "e AND PAGE_HUGE = 0 \<longleftrightarrow> \<not> bit e 7"
  "e AND PAGE_LARGE_PAT = 0 \<longleftrightarrow> \<not> bit e 12" "e AND PAGE_NO_EXECUTE = 0 \<longleftrightarrow> \<not> bit e 63"
  unfolding PAGE_PRESENT_def PAGE_WRITABLE_def PAGE_USER_def PAGE_WRITE_THROUGH_def PAGE_CACHE_DISABLE_def
    PAGE_HUGE_def PAGE_LARGE_PAT_def PAGE_NO_EXECUTE_def and_push_bit_1 by (rule refl)+

lemma permission_flags [entry_bits]:
  "p AND PAGING_WRITE = 0 \<longleftrightarrow> \<not> bit p 0" "p AND PAGING_EXECUTE = 0 \<longleftrightarrow> \<not> bit p 1"
  "p AND PAGING_UNCACHED = 0 \<longleftrightarrow> \<not> bit p 2" "p AND PAGING_WRITE_COMBINING = 0 \<longleftrightarrow> \<not> bit p 3"
  unfolding PAGING_WRITE_def PAGING_EXECUTE_def PAGING_UNCACHED_def PAGING_WRITE_COMBINING_def
    and_push_bit_1 by (rule refl)+

lemma bit_permission:
  "bit PAGING_READ n \<longleftrightarrow> False" "bit PAGING_WRITE n \<longleftrightarrow> n = 0" "bit PAGING_EXECUTE n \<longleftrightarrow> n = 1"
  "bit PAGING_UNCACHED n \<longleftrightarrow> n = 2" "bit PAGING_WRITE_COMBINING n \<longleftrightarrow> n = 3"
  unfolding PAGING_READ_def PAGING_WRITE_def PAGING_EXECUTE_def PAGING_UNCACHED_def
    PAGING_WRITE_COMBINING_def bit_push_bit_1 by simp_all

lemma bit_flag:
  "bit PAGE_PRESENT n \<longleftrightarrow> n = 0" "bit PAGE_WRITABLE n \<longleftrightarrow> n = 1" "bit PAGE_USER n \<longleftrightarrow> n = 2"
  "bit PAGE_WRITE_THROUGH n \<longleftrightarrow> n = 3" "bit PAGE_CACHE_DISABLE n \<longleftrightarrow> n = 4" "bit PAGE_HUGE n \<longleftrightarrow> n = 7"
  "bit PAGE_NO_EXECUTE n \<longleftrightarrow> n = 63"
  unfolding PAGE_PRESENT_def PAGE_WRITABLE_def PAGE_USER_def PAGE_WRITE_THROUGH_def
    PAGE_CACHE_DISABLE_def PAGE_HUGE_def PAGE_NO_EXECUTE_def bit_push_bit_1 by simp_all

lemma bit_frame_mask: "bit PAGE_FRAME_MASK n \<longleftrightarrow> 12 \<le> n \<and> n < 52"
proof -
  have eq: "PAGE_FRAME_MASK = push_bit 12 (mask 40)" by (simp add: PAGE_FRAME_MASK_def mask_eq_exp_minus_1)
  show ?thesis unfolding eq by (auto simp: bit_push_bit_iff bit_mask_iff)
qed

lemma bit_permissions_to_flags:
  "bit (permissions_to_flags p) n \<longleftrightarrow> n = 0 \<or> n = 1 \<and> bit p 0 \<or> n = 63 \<and> \<not> bit p 1 \<or>
     n = 4 \<and> bit p 2 \<or> n = 3 \<and> (bit p 2 \<or> bit p 3)"
  by (auto simp: permissions_to_flags_def entry_bits bit_or_iff bit_flag)

lemma bit_address:
  assumes "4096 dvd a" "a < 2 ^ 52"
  shows "bit (of_nat a :: u64) n \<longleftrightarrow> 12 \<le> n \<and> n < 52 \<and> bit a n"
proof -
  have "\<not> bit a n" if "n < 12"
  proof -
    have "take_bit 12 a = 0" using assms(1) by (simp add: take_bit_eq_mod mod_eq_0_iff_dvd)
    then show ?thesis using that by (metis bit_0_eq bit_take_bit_iff bot_apply bot_bool_def)
  qed
  moreover have "\<not> bit a n" if "52 \<le> n"
    using assms(2) that by (metis bit_nat_def bit_take_bit_iff leD take_bit_nat_eq_self_iff)
  ultimately have "bit a n \<Longrightarrow> 12 \<le> n \<and> n < 52" by (meson not_le)
  then show ?thesis by (auto simp: bit_simps)
qed

text \<open>The entry of a page: its address and flags, with the size bit for a large page.\<close>

definition compose_entry :: "nat \<Rightarrow> u32 \<Rightarrow> bool \<Rightarrow> u64" where
  "compose_entry a p large = (of_nat a OR permissions_to_flags p) OR (if large then PAGE_HUGE else 0)"

definition frame_of :: "u64 \<Rightarrow> nat" where
  "frame_of e = unat (e AND PAGE_FRAME_MASK)"

lemma bit_compose_entry:
  assumes "4096 dvd a" "a < 2 ^ 52"
  shows "bit (compose_entry a p large) n \<longleftrightarrow> 12 \<le> n \<and> n < 52 \<and> bit a n \<or> n = 0 \<or> n = 1 \<and> bit p 0 \<or>
    n = 63 \<and> \<not> bit p 1 \<or> n = 4 \<and> bit p 2 \<or> n = 3 \<and> (bit p 2 \<or> bit p 3) \<or> n = 7 \<and> large"
  by (auto simp: compose_entry_def bit_or_iff bit_permissions_to_flags bit_address [OF assms] bit_flag)

lemma frame_of_compose:
  assumes "4096 dvd a" "a < 2 ^ 52"
  shows "frame_of (compose_entry a p large) = a"
proof -
  have "compose_entry a p large AND PAGE_FRAME_MASK = of_nat a"
    by (rule bit_word_eqI) (auto simp: bit_and_iff bit_compose_entry [OF assms] bit_frame_mask bit_address [OF assms])
  moreover have "a < 2 ^ LENGTH(64)" using assms(2) by (rule less_trans) simp
  ultimately show ?thesis
    by (simp add: frame_of_def unsigned_of_nat take_bit_nat_eq_self)
qed

lemma frame_of_aligned: "4096 dvd frame_of e"
proof -
  have "take_bit 12 (e AND PAGE_FRAME_MASK) = 0"
    by (rule bit_word_eqI) (simp add: bit_simps bit_frame_mask)
  then have "take_bit 12 (unat (e AND PAGE_FRAME_MASK)) = 0"
    by (metis unsigned_0 unsigned_take_bit_eq)
  then show ?thesis by (simp add: frame_of_def take_bit_eq_mod mod_eq_0_iff_dvd)
qed

section \<open>Reading permissions back\<close>

text \<open>The attribute table the kernel programs: write-back, write-combining and uncacheable at the
  three indices its entries select.\<close>

definition pat_ready :: "u64 \<Rightarrow> bool" where
  "pat_ready pat \<longleftrightarrow> pat_entry pat 0 = PAT_TYPE_WRITE_BACK \<and> pat_entry pat 1 = PAT_TYPE_WRITE_COMBINING \<and>
     pat_entry pat 3 = PAT_TYPE_UNCACHEABLE"

lemma permissions_ok:
  assumes "validate_permissions p = PAGING_STATUS_OK"
  shows "\<not> (bit p 0 \<and> bit p 1)" "\<not> (bit p 2 \<and> bit p 3)" "bit p n \<Longrightarrow> n < 4"
proof -
  show "\<not> (bit p 0 \<and> bit p 1)" "\<not> (bit p 2 \<and> bit p 3)"
    using assms by (auto simp: validate_permissions_def Let_def entry_bits split: if_splits)
  let ?known = "PAGING_WRITE OR PAGING_EXECUTE OR PAGING_UNCACHED OR PAGING_WRITE_COMBINING"
  have "p AND NOT ?known = 0"
    using assms by (auto simp: validate_permissions_def Let_def split: if_splits)
  then have "\<not> bit (p AND NOT ?known) n" by (simp only: bit_0_eq bot_apply bot_bool_def) simp
  then show "bit p n \<Longrightarrow> n < 4"
    by (auto simp: bit_simps bit_permission dest: bit_imp_le_length)
qed

lemma memory_type_compose:
  assumes "validate_permissions p = PAGING_STATUS_OK" "pat_ready pat" "4096 dvd a" "a < 2 ^ 52"
    and "level = 1 \<and> \<not> large \<or> level \<noteq> 1 \<and> 8192 dvd a"
  shows "leaf_memory_type (compose_entry a p large) level pat =
    (if bit p 2 then PAGING_MEMORY_UNCACHEABLE else if bit p 3 then PAGING_MEMORY_WRITE_COMBINING
     else PAGING_MEMORY_WRITE_BACK)"
proof -
  have a12: "\<not> bit a 12" if "8192 dvd a"
  proof -
    have "\<not> bit (take_bit 13 a) 12" using that by (simp add: take_bit_eq_mod mod_eq_0_iff_dvd)
    then show ?thesis by (simp add: bit_take_bit_iff)
  qed
  have idx: "leaf_pat_index (compose_entry a p large) level = (if bit p 2 then 3 else if bit p 3 then 1 else 0)"
    using assms(5) a12
    by (auto simp: leaf_pat_index_def Let_def entry_bits bit_compose_entry [OF assms(3,4)])
  show ?thesis
    using assms(2) unfolding leaf_memory_type_def idx
    by (auto simp: pat_ready_def decode_pat_type_def PAT_TYPE_WRITE_BACK_def PAT_TYPE_WRITE_COMBINING_def
        PAT_TYPE_UNCACHEABLE_def)
qed

lemma flags_to_permissions_compose:
  assumes "validate_permissions p = PAGING_STATUS_OK" "pat_ready pat" "4096 dvd a" "a < 2 ^ 52"
    and "level = 1 \<and> \<not> large \<or> level \<noteq> 1 \<and> 8192 dvd a"
  shows "flags_to_permissions (compose_entry a p large) level pat = p"
proof (rule bit_word_eqI)
  fix n
  have "bit (flags_to_permissions (compose_entry a p large) level pat) n \<longleftrightarrow>
      n = 0 \<and> bit p 0 \<or> n = 1 \<and> bit p 1 \<or> n = 2 \<and> bit p 2 \<or> n = 3 \<and> \<not> bit p 2 \<and> bit p 3"
    unfolding flags_to_permissions_def memory_type_compose [OF assms]
    by (auto simp: entry_bits bit_compose_entry [OF assms(3,4)] bit_or_iff bit_permission memory_type_permission_def)
  also have "\<dots> \<longleftrightarrow> bit p n"
    using permissions_ok [OF assms(1)] by (auto simp: numeral_eq_Suc less_Suc_eq)
  finally show "bit (flags_to_permissions (compose_entry a p large) level pat) n \<longleftrightarrow> bit p n" .
qed

section \<open>Addresses and indices\<close>

lemma table_index_less: "table_index va level < 512"
proof -
  have "drop_bit (12 + 9 * (level - 1)) va AND (2 ^ 9 - 1) < 512" unfolding and_low_mask by simp
  then show ?thesis by (simp add: table_index_def Let_def)
qed

lemma table_index_eq: "table_index va level = va div 2 ^ (12 + 9 * (level - 1)) mod 512"
  using and_low_mask [of "drop_bit (12 + 9 * (level - 1)) va" 9]
  by (simp add: table_index_def Let_def drop_bit_eq_div)

text \<open>The four indices of an address, from the root down.\<close>

definition vpath :: "nat \<Rightarrow> nat list" where
  "vpath va = [table_index va 4, table_index va 3, table_index va 2, table_index va 1]"

lemma vpath_eq: "vpath va = [va div 2 ^ 39 mod 512, va div 2 ^ 30 mod 512, va div 2 ^ 21 mod 512, va div 2 ^ 12 mod 512]"
  by (simp add: vpath_def table_index_eq)

text \<open>The range an address lies in is canonical when its ends are, and canonical addresses with the
  same indices lie in the same page.\<close>

lemma canonical_iff: "address_is_canonical va \<longleftrightarrow> va < 2 ^ 47 \<or> va div 2 ^ 47 = 2 ^ 17 - 1"
  by (auto simp: address_is_canonical_def Let_def drop_bit_eq_div div_eq_0_iff)

lemma page_number_indices:
  "va div 4096 mod 2 ^ 36 = table_index va 1 + 512 * (table_index va 2 + 512 * (table_index va 3 + 512 * table_index va 4))"
proof -
  have "(2 :: nat) ^ 36 = 512 * (512 * (512 * 512))" by simp
  then have "va div 4096 mod 2 ^ 36 = va div 4096 mod 512 + 512 * (va div 4096 div 512 mod 512 +
      512 * (va div 4096 div 512 div 512 mod 512 + 512 * (va div 4096 div 512 div 512 div 512 mod 512)))"
    by (simp only: mod_mult2_eq) (simp add: algebra_simps)
  then show ?thesis by (simp add: table_index_eq div_mult2_eq [symmetric])
qed

lemma canonical_page_number:
  assumes "address_is_canonical va"
  shows "va div 4096 = (let m = va div 4096 mod 2 ^ 36 in if m < 2 ^ 35 then m else m + (2 ^ 52 - 2 ^ 36))"
  using assms unfolding canonical_iff
proof
  assume "va < 2 ^ 47"
  then have "va div 4096 < 2 ^ 35" by (simp add: div_less_iff_less_mult)
  then show ?thesis by simp
next
  assume "va div 2 ^ 47 = 2 ^ 17 - 1"
  then have "va div 4096 div 2 ^ 35 = 2 ^ 17 - 1" by (simp add: div_mult2_eq [symmetric])
  then obtain r where r: "va div 4096 = (2 ^ 17 - 1) * 2 ^ 35 + r" "r < 2 ^ 35"
    by (metis div_mult_mod_eq mod_less_divisor zero_less_numeral zero_less_power)
  have "va div 4096 = (2 ^ 35 + r) + 65535 * 2 ^ 36" using r(1) by simp
  then have "va div 4096 mod 2 ^ 36 = 2 ^ 35 + r" using r(2) by (simp only: mod_mult_self1) simp
  then show ?thesis using r(1) by simp
qed

lemma vpath_page:
  assumes "vpath va = vpath va'" "address_is_canonical va" "address_is_canonical va'"
  shows "va div 4096 = va' div 4096"
proof -
  have "va div 4096 mod 2 ^ 36 = va' div 4096 mod 2 ^ 36"
    using assms(1) unfolding page_number_indices by (simp add: vpath_def)
  then show ?thesis
    using canonical_page_number [OF assms(2)] canonical_page_number [OF assms(3)] by metis
qed

text \<open>Checking both ends does not make a range canonical: one that starts in the lower half and ends in
  the upper half passes, although everything between the halves is not canonical.\<close>

lemma straddling_range_accepted:
  "validate_virtual_range 4096 (2 ^ 64 - 8192) PAGING_PAGE_SIZE = PAGING_STATUS_OK \<and>
   4096 \<le> (2 :: nat) ^ 47 \<and> (2 :: nat) ^ 47 < 4096 + (2 ^ 64 - 8192) \<and> \<not> address_is_canonical (2 ^ 47)"
proof -
  have "(2 ^ 64 - 8192 :: nat) AND 4095 = 0" using and_low_mask [of "2 ^ 64 - 8192" 12] by simp
  moreover have "(4096 :: nat) AND 4095 = 0" using and_low_mask [of 4096 12] by simp
  ultimately show ?thesis
    by (simp add: validate_virtual_range_def address_is_canonical_def drop_bit_eq_div UINT64_MAX_def)
qed

section \<open>Properties\<close>

lemma bit_pat_entry: "bit (pat_entry pat i) n \<longleftrightarrow> n < 8 \<and> bit pat (8 * i + n)"
  by (auto simp: pat_entry_def bit_simps mult.commute add.commute)

lemma pat_entry_replace:
  assumes "i < 8" "j < 8"
  shows "pat_entry (pat_replace_entry pat i m) j = (if i = j then m else pat_entry pat j)"
proof (rule bit_word_eqI)
  fix n assume "n < LENGTH(8)"
  then have n: "n < 8" by simp
  have ff: "(0xFF :: u64) = mask 8" by (simp add: mask_eq_exp_minus_1)
  have "bit (pat_replace_entry pat i m) k \<longleftrightarrow>
      (if 8 * i \<le> k \<and> k < 8 * i + 8 then bit m (k - 8 * i) else bit pat k)" if "k < 64" for k
    using that assms(1) unfolding pat_replace_entry_def Let_def ff
    by (auto simp: bit_or_iff bit_and_iff bit_not_iff bit_push_bit_iff bit_mask_iff bit_ucast_iff mult.commute
        dest: bit_imp_le_length)
  then show "bit (pat_entry (pat_replace_entry pat i m) j) n \<longleftrightarrow> bit (if i = j then m else pat_entry pat j) n"
    using n assms by (auto simp: bit_pat_entry)
qed

lemma decode_processor_support_OK:
  assumes "decode_processor_support basic root ext cr4 pat = PAGING_STATUS_OK"
  shows "pat_entry pat 0 = PAT_TYPE_WRITE_BACK" "pat_entry pat 3 = PAT_TYPE_UNCACHEABLE"
    "\<And>i. i < 8 \<Longrightarrow> decode_pat_type (pat_entry pat i) \<noteq> PAGING_MEMORY_INVALID"
  using assms by (auto simp: decode_processor_support_def list_ex_iff split: if_splits)

text \<open>C23. On a processor the kernel accepts, programming the write-combining entry leaves every
  other entry of the attribute table alone and decodes to a known type at all eight indices; write-back,
  write-combining and uncacheable then sit at the indices that entries composed by the kernel select.\<close>

theorem pat_programming_safe:
  assumes "decode_processor_support basic root ext cr4 pat = PAGING_STATUS_OK"
    and "pat' = pat_replace_entry pat PAT_WRITE_COMBINING_ENTRY PAT_TYPE_WRITE_COMBINING"
  shows "pat_ready pat' \<and> (\<forall>i < 8. i \<noteq> 1 \<longrightarrow> pat_entry pat' i = pat_entry pat i) \<and>
    (\<forall>i < 8. decode_pat_type (pat_entry pat' i) \<noteq> PAGING_MEMORY_INVALID)"
proof -
  have "decode_pat_type PAT_TYPE_WRITE_COMBINING \<noteq> PAGING_MEMORY_INVALID"
    by (simp add: decode_pat_type_def)
  then show ?thesis
    using decode_processor_support_OK [OF assms(1)] by (auto simp: assms(2) pat_ready_def pat_entry_replace)
qed

text \<open>C24. Round trip of an entry: the entry the kernel composes for a page, at either page size,
  is present, carries exactly that page address in its frame field, and reads back as exactly the
  permissions it was composed from, which never allow both writing and executing.\<close>

theorem entry_roundtrip:
  assumes "validate_permissions p = PAGING_STATUS_OK" "pat_ready pat" "0 < len"
    and "validate_physical_range a len (level_page_size level) = PAGING_STATUS_OK" "level = 1 \<or> level = 2"
  shows "frame_of (compose_entry a p (level > 1)) = a \<and>
    compose_entry a p (level > 1) AND PAGE_PRESENT \<noteq> 0 \<and>
    flags_to_permissions (compose_entry a p (level > 1)) level pat = p \<and>
    \<not> (p AND PAGING_WRITE \<noteq> 0 \<and> p AND PAGING_EXECUTE \<noteq> 0)"
proof -
  have "a AND (2 ^ k - 1) = 0 \<longleftrightarrow> 2 ^ k dvd a" for k
    by (simp only: and_low_mask mod_eq_0_iff_dvd)
  from this [of 12] this [of 21] have "a < 2 ^ 52" "level = 1 \<and> 4096 dvd a \<or> level = 2 \<and> 2097152 dvd a"
    using assms(3-5)
    by (auto simp: validate_physical_range_def level_page_size_def PAGE_PHYSICAL_LIMIT_def split: if_splits)
  moreover have "4096 dvd a" "8192 dvd a" if "2097152 dvd a"
    using that dvd_trans [of 4096 2097152 a] dvd_trans [of 8192 2097152 a] by simp_all
  ultimately have a: "4096 dvd a" "a < 2 ^ 52" "level = 1 \<and> \<not> level > 1 \<or> level \<noteq> 1 \<and> 8192 dvd a" by auto
  show ?thesis
    using frame_of_compose [OF a(1,2)] flags_to_permissions_compose [OF assms(1,2) a] permissions_ok(1) [OF assms(1)]
    by (simp add: entry_bits bit_compose_entry [OF a(1,2)])
qed

lemma demo_processor:
  "decode_processor_support CPUID_PAT 0x80000008 CPUID_NO_EXECUTE 0x20 0x0007040600070406 = PAGING_STATUS_OK"
  by (simp add: decode_processor_support_def CPUID_PAT_def CPUID_NO_EXECUTE_def CPUID_EXTENDED_FEATURES_def
      CR4_FIVE_LEVEL_PAGING_def CR4_PHYSICAL_ADDRESS_EXTENSION_def pat_entry_def decode_pat_type_def
      PAT_TYPE_WRITE_BACK_def PAT_TYPE_WRITE_COMBINING_def PAT_TYPE_UNCACHEABLE_def PAT_TYPE_WRITE_THROUGH_def
      PAT_TYPE_WRITE_PROTECTED_def PAT_TYPE_UNCACHED_MINUS_def upt_rec)

definition demo_pat :: u64 where
  "demo_pat = pat_replace_entry 0x0007040600070406 PAT_WRITE_COMBINING_ENTRY PAT_TYPE_WRITE_COMBINING"

theorem pat_programming_safe_witness: "pat_ready demo_pat"
  using pat_programming_safe [OF demo_processor demo_pat_def] by blast

lemma demo_pat_ready: "pat_ready demo_pat"
  using decode_processor_support_OK [OF demo_processor]
  by (simp add: demo_pat_def pat_ready_def pat_entry_replace)

lemma write_permission_ok: "validate_permissions PAGING_WRITE = PAGING_STATUS_OK"
  by (simp add: validate_permissions_def entry_bits bit_permission)
    (simp add: PAGING_WRITE_def PAGING_EXECUTE_def PAGING_UNCACHED_def PAGING_WRITE_COMBINING_def)

theorem entry_roundtrip_witness:
  "frame_of (compose_entry 0x5000 PAGING_WRITE False) = 0x5000 \<and>
   flags_to_permissions (compose_entry 0x5000 PAGING_WRITE False) 1 demo_pat = PAGING_WRITE"
proof -
  have "validate_physical_range 0x5000 0x1000 (level_page_size 1) = PAGING_STATUS_OK"
    by (simp add: validate_physical_range_def level_page_size_def UINT64_MAX_def PAGE_PHYSICAL_LIMIT_def)
  from entry_roundtrip [OF write_permission_ok demo_pat_ready _ this] show ?thesis by simp
qed

end
