(* ===== verification/Page_Tables.thy ===== *)
theory Page_Tables
  imports Frame_Runs Paging_Entries
begin

text \<open>
  The page-table hierarchies of \<open>src/kernel/paging.c\<close>: the walk that finds or creates the entry of
  an address, the range operations built on it, the software translation and the audit.

  Tables are frames below 4 GiB, mapped to themselves, so the code reads and writes entry \<open>i\<close> of the
  table at physical address \<open>t\<close> through that address; the store keeps it as \<open>pe_tables t i\<close>. The
  hierarchy a call works on is the field \<open>pe_hierarchy\<close>; of the address of that object the code only
  asks whether it is one of the process hierarchies, which is \<open>ph_process\<close>. The TLB is the list of
  the invalidations issued. Range loops run over the offsets of whole pages: every caller has
  validated that the range is a multiple of the page size and does not wrap.
\<close>

section \<open>State\<close>

record page_hierarchy =
  ph_root :: nat
  ph_arena_base :: nat
  ph_arena_capacity :: nat
  ph_arena_used :: nat
  ph_table_frames :: nat
  ph_live :: bool
  ph_process :: bool

record process_table_failure =
  ptf_failure_ordinal :: nat
  ptf_allocation_count :: nat
  ptf_observed :: bool
  ptf_armed :: bool

record paging_store =
  pe_tables :: "nat \<Rightarrow> nat \<Rightarrow> u64"
  pe_frames :: frame_state
  pe_cr3 :: u64
  pe_invalidated :: "nat list"
  pe_failure :: process_table_failure
  pe_hierarchy :: page_hierarchy

record paging_translation =
  tr_physical_address :: nat
  tr_permissions :: u32
  tr_memory_type :: paging_memory_type
  tr_level :: nat
  tr_user :: bool

record paging_audit =
  pa_leaf_count :: nat
  pa_huge_leaves :: nat
  pa_writable_leaves :: nat
  pa_executable_leaves :: nat
  pa_write_execute_leaves :: nat
  pa_user_leaves :: nat

abbreviation root_of :: "paging_store \<Rightarrow> nat" where
  "root_of st \<equiv> ph_root (pe_hierarchy st)"

definition set_entry :: "nat \<Rightarrow> nat \<Rightarrow> u64 \<Rightarrow> paging_store \<Rightarrow> paging_store" where
  "set_entry table index value st =
     st\<lparr>pe_tables := (pe_tables st)(table := (pe_tables st table)(index := value))\<rparr>"

definition zero_table :: "nat \<Rightarrow> paging_store \<Rightarrow> paging_store" where
  "zero_table table st = st\<lparr>pe_tables := (pe_tables st)(table := (\<lambda>_. 0))\<rparr>"

section \<open>Tables\<close>

text \<open>The frame of a new table: from the arena of a private hierarchy, or from the frame allocator.\<close>

definition supply_table :: "paging_store \<Rightarrow> nat option \<times> paging_store" where
  "supply_table st =
     (let h = pe_hierarchy st in
      if ph_arena_capacity h \<noteq> 0 then
        if ph_arena_used h = ph_arena_capacity h then (None, st)
        else (Some (add64 (ph_arena_base h) (mul64 (ph_arena_used h) PAGING_PAGE_SIZE)),
              st\<lparr>pe_hierarchy := h\<lparr>ph_arena_used := add64 (ph_arena_used h) 1\<rparr>\<rparr>)
      else
        (case frame_allocate (Some 0) (pe_frames st) of
           (status, address, frames) \<Rightarrow>
             (if status \<noteq> FRAME_STATUS_OK then None else address, st\<lparr>pe_frames := frames\<rparr>)))"

definition count_failure :: "paging_store \<Rightarrow> bool \<times> paging_store" where
  "count_failure st =
     (let f = pe_failure st; f1 = f\<lparr>ptf_allocation_count := add64 (ptf_allocation_count f) 1\<rparr> in
      if ptf_armed f \<and> ph_process (pe_hierarchy st) then
        if ptf_allocation_count f1 = ptf_failure_ordinal f1
        then (True, st\<lparr>pe_failure := f1\<lparr>ptf_observed := True\<rparr>\<rparr>)
        else (False, st\<lparr>pe_failure := f1\<rparr>)
      else (False, st))"

definition allocate_table :: "paging_store \<Rightarrow> (paging_status + nat) \<times> paging_store" where
  "allocate_table st =
     (let (failed, st1) = count_failure st in
      if failed then (Inl PAGING_STATUS_OUT_OF_FRAMES, st1)
      else
        (case supply_table st1 of
           (None, st2) \<Rightarrow> (Inl PAGING_STATUS_OUT_OF_FRAMES, st2)
         | (Some frame, st2) \<Rightarrow>
             if frame \<ge> RSD_EARLY_PHYSICAL_LIMIT then (Inl PAGING_STATUS_PHYSICAL_TOO_WIDE, st2)
             else
               (Inr frame, (zero_table frame st2)\<lparr>pe_hierarchy :=
                  (pe_hierarchy st2)\<lparr>ph_table_frames := add64 (ph_table_frames (pe_hierarchy st2)) 1\<rparr>\<rparr>)))"

definition invalidate :: "nat \<Rightarrow> paging_store \<Rightarrow> paging_store" where
  "invalidate virtual_address st =
     (if ph_live (pe_hierarchy st) \<or>
         (root_of st \<noteq> 0 \<and> unat (pe_cr3 st AND PAGE_FRAME_MASK) = root_of st)
      then st\<lparr>pe_invalidated := virtual_address # pe_invalidated st\<rparr> else st)"

section \<open>The walk\<close>

text \<open>The loop of \<open>entry_for\<close>, from \<open>level\<close> down to \<open>target_level\<close>; the result is the table that holds
  the entry.\<close>

fun entry_walk ::
    "nat \<Rightarrow> nat \<Rightarrow> nat \<Rightarrow> bool \<Rightarrow> nat \<Rightarrow> paging_store \<Rightarrow> (paging_status + nat) \<times> paging_store" where
  "entry_walk 0 target_level va create table st = (Inr table, st)"
| "entry_walk (Suc l) target_level va create table st =
     (if Suc l \<le> target_level then (Inr table, st)
      else
        (let index = table_index va (Suc l); slot = pe_tables st table index in
         if slot AND PAGE_PRESENT = 0 then
           if \<not> create then (Inl PAGING_STATUS_NOT_MAPPED, st)
           else
             (case allocate_table st of
                (Inl status, st1) \<Rightarrow> (Inl status, st1)
              | (Inr next, st1) \<Rightarrow>
                  entry_walk l target_level va create next
                    (set_entry table index (of_nat next OR PAGE_PRESENT OR PAGE_WRITABLE) st1))
         else if slot AND PAGE_HUGE \<noteq> 0 then (Inl PAGING_STATUS_HUGE_PAGE_PRESENT, st)
         else entry_walk l target_level va create (frame_of slot) st))"

definition entry_for ::
    "nat \<Rightarrow> nat \<Rightarrow> bool \<Rightarrow> paging_store \<Rightarrow> (paging_status + nat \<times> nat) \<times> paging_store" where
  "entry_for va target_level create st =
     (case entry_walk PAGING_LEVEL_COUNT target_level va create (root_of st) st of
        (Inl status, st1) \<Rightarrow> (Inl status, st1)
      | (Inr table, st1) \<Rightarrow> (Inr (table, table_index va target_level), st1))"

definition table_is_empty :: "nat \<Rightarrow> paging_store \<Rightarrow> bool" where
  "table_is_empty table st =
     list_all (\<lambda>index. pe_tables st table index AND PAGE_PRESENT = 0) [0 ..< PAGING_ENTRIES_PER_TABLE]"

definition release_table :: "nat \<Rightarrow> paging_store \<Rightarrow> paging_store" where
  "release_table physical st =
     (let st1 = (if ph_arena_capacity (pe_hierarchy st) = 0
                 then st\<lparr>pe_frames := snd (frame_release physical (pe_frames st))\<rparr> else st) in
      st1\<lparr>pe_hierarchy := (pe_hierarchy st1)
        \<lparr>ph_table_frames := sub64 (ph_table_frames (pe_hierarchy st1)) 1\<rparr>\<rparr>)"

text \<open>The tables on the path of an address, by level; None when the path ends early.\<close>

definition reclaim_child :: "nat \<Rightarrow> nat \<Rightarrow> nat \<Rightarrow> paging_store \<Rightarrow> nat option" where
  "reclaim_child va level table st =
     (let entry = pe_tables st table (table_index va level) in
      if entry AND PAGE_PRESENT = 0 \<or> entry AND PAGE_HUGE \<noteq> 0 then None else Some (frame_of entry))"

text \<open>The climb: \<open>tables\<close> are the table of \<open>level\<close> and those above it up to the root.\<close>

fun reclaim_climb :: "nat \<Rightarrow> nat \<Rightarrow> nat list \<Rightarrow> paging_store \<Rightarrow> paging_store" where
  "reclaim_climb va level (table # parent # rest) st =
     (if \<not> table_is_empty table st then st
      else reclaim_climb va (level + 1) (parent # rest)
        (release_table table (set_entry parent (table_index va (level + 1)) 0 st)))"
| "reclaim_climb va level _ st = st"

definition reclaim_empty_tables :: "nat \<Rightarrow> paging_store \<Rightarrow> paging_store" where
  "reclaim_empty_tables va st =
     (case reclaim_child va 4 (root_of st) st of
        None \<Rightarrow> st
      | Some t3 \<Rightarrow>
          (case reclaim_child va 3 t3 st of
             None \<Rightarrow> st
           | Some t2 \<Rightarrow>
               (case reclaim_child va 2 t2 st of
                  None \<Rightarrow> st
                | Some t1 \<Rightarrow> reclaim_climb va 1 [t1, t2, t3, root_of st] st)))"

section \<open>Ranges\<close>

definition page_offsets :: "nat \<Rightarrow> nat \<Rightarrow> nat list" where
  "page_offsets len page_size = map (\<lambda>k. k * page_size) [0 ..< (len + (page_size - 1)) div page_size]"

text \<open>One turn of the loop of \<open>clear_range\<close>.\<close>

definition clear_page :: "nat \<Rightarrow> nat \<Rightarrow> paging_store \<Rightarrow> paging_store" where
  "clear_page level va st =
     (case fst (entry_for va level False st) of
        Inl _ \<Rightarrow> st
      | Inr (table, index) \<Rightarrow>
          (let st1 = invalidate va (set_entry table index 0 st) in
           if level = 1 then reclaim_empty_tables va st1 else st1))"

definition clear_range :: "nat \<Rightarrow> nat \<Rightarrow> nat \<Rightarrow> paging_store \<Rightarrow> paging_store" where
  "clear_range va len level st =
     fold (\<lambda>offset. clear_page level (va + offset)) (page_offsets len (level_page_size level)) st"

text \<open>The first pass of \<open>map_range\<close>: nothing may be mapped yet.\<close>

primrec unmapped_pages :: "nat \<Rightarrow> nat \<Rightarrow> nat list \<Rightarrow> paging_store \<Rightarrow> paging_status" where
  "unmapped_pages va level [] st = PAGING_STATUS_OK"
| "unmapped_pages va level (offset # rest) st =
     (case fst (entry_for (va + offset) level False st) of
        Inr (table, index) \<Rightarrow>
          if pe_tables st table index AND PAGE_PRESENT \<noteq> 0 then PAGING_STATUS_ALREADY_MAPPED
          else unmapped_pages va level rest st
      | Inl status \<Rightarrow>
          if status \<noteq> PAGING_STATUS_NOT_MAPPED then status else unmapped_pages va level rest st)"

text \<open>The second pass: write the entries, or take back those written when a table is missing.\<close>

primrec map_pages ::
    "nat \<Rightarrow> nat \<Rightarrow> u32 \<Rightarrow> nat \<Rightarrow> nat list \<Rightarrow> paging_store \<Rightarrow> paging_status \<times> paging_store" where
  "map_pages va pa permissions level [] st = (PAGING_STATUS_OK, st)"
| "map_pages va pa permissions level (offset # rest) st =
     (case entry_for (va + offset) level True st of
        (Inl status, st1) \<Rightarrow> (status, clear_range va offset level st1)
      | (Inr (table, index), st1) \<Rightarrow>
          map_pages va pa permissions level rest
            (invalidate (va + offset)
              (set_entry table index (compose_entry (pa + offset) permissions (level > 1)) st1)))"

definition map_range ::
    "nat \<Rightarrow> nat \<Rightarrow> nat \<Rightarrow> u32 \<Rightarrow> nat \<Rightarrow> paging_store \<Rightarrow> paging_status \<times> paging_store" where
  "map_range va pa len permissions level st =
     (let page_size = level_page_size level; offsets = page_offsets len page_size in
      if validate_permissions permissions \<noteq> PAGING_STATUS_OK then (validate_permissions permissions, st)
      else if validate_virtual_range va len page_size \<noteq> PAGING_STATUS_OK
        then (validate_virtual_range va len page_size, st)
      else if validate_physical_range pa len page_size \<noteq> PAGING_STATUS_OK
        then (validate_physical_range pa len page_size, st)
      else if unmapped_pages va level offsets st \<noteq> PAGING_STATUS_OK
        then (unmapped_pages va level offsets st, st)
      else map_pages va pa permissions level offsets st)"

primrec mapped_pages :: "nat \<Rightarrow> nat list \<Rightarrow> paging_store \<Rightarrow> paging_status" where
  "mapped_pages va [] st = PAGING_STATUS_OK"
| "mapped_pages va (offset # rest) st =
     (case fst (entry_for (va + offset) 1 False st) of
        Inl status \<Rightarrow> status
      | Inr (table, index) \<Rightarrow>
          if pe_tables st table index AND PAGE_PRESENT = 0 then PAGING_STATUS_NOT_MAPPED
          else mapped_pages va rest st)"

definition require_mapped_range :: "nat \<Rightarrow> nat \<Rightarrow> paging_store \<Rightarrow> paging_status" where
  "require_mapped_range va len st = mapped_pages va (page_offsets len PAGING_PAGE_SIZE) st"

definition unmap_range :: "nat \<Rightarrow> nat \<Rightarrow> paging_store \<Rightarrow> paging_status \<times> paging_store" where
  "unmap_range va len st =
     (if validate_virtual_range va len PAGING_PAGE_SIZE \<noteq> PAGING_STATUS_OK
        then (validate_virtual_range va len PAGING_PAGE_SIZE, st)
      else if require_mapped_range va len st \<noteq> PAGING_STATUS_OK then (require_mapped_range va len st, st)
      else (PAGING_STATUS_OK, clear_range va len 1 st))"

definition protect_page :: "u32 \<Rightarrow> nat \<Rightarrow> paging_store \<Rightarrow> paging_store" where
  "protect_page permissions va st =
     (case fst (entry_for va 1 False st) of
        Inl _ \<Rightarrow> st
      | Inr (table, index) \<Rightarrow>
          invalidate va
            (set_entry table index
              (pe_tables st table index AND PAGE_FRAME_MASK OR permissions_to_flags permissions) st))"

definition apply_permissions :: "nat \<Rightarrow> nat \<Rightarrow> u32 \<Rightarrow> paging_store \<Rightarrow> paging_store" where
  "apply_permissions va len permissions st =
     fold (\<lambda>offset. protect_page permissions (va + offset)) (page_offsets len PAGING_PAGE_SIZE) st"

primrec same_type_pages ::
    "paging_memory_type \<Rightarrow> u64 \<Rightarrow> nat \<Rightarrow> nat list \<Rightarrow> paging_store \<Rightarrow> paging_status" where
  "same_type_pages requested_type pat va [] st = PAGING_STATUS_OK"
| "same_type_pages requested_type pat va (offset # rest) st =
     (case fst (entry_for (va + offset) 1 False st) of
        Inl status \<Rightarrow> status
      | Inr (table, index) \<Rightarrow>
          if leaf_memory_type (pe_tables st table index) 1 pat \<noteq> requested_type
          then PAGING_STATUS_MEMORY_TYPE_CHANGE_UNSAFE
          else same_type_pages requested_type pat va rest st)"

definition protect_range ::
    "nat \<Rightarrow> nat \<Rightarrow> u32 \<Rightarrow> u64 \<Rightarrow> paging_store \<Rightarrow> paging_status \<times> paging_store" where
  "protect_range va len permissions pat st =
     (let requested_type = leaf_memory_type (permissions_to_flags permissions) 1 pat;
          same = same_type_pages requested_type pat va (page_offsets len PAGING_PAGE_SIZE) st in
      if validate_permissions permissions \<noteq> PAGING_STATUS_OK then (validate_permissions permissions, st)
      else if validate_virtual_range va len PAGING_PAGE_SIZE \<noteq> PAGING_STATUS_OK
        then (validate_virtual_range va len PAGING_PAGE_SIZE, st)
      else if require_mapped_range va len st \<noteq> PAGING_STATUS_OK then (require_mapped_range va len st, st)
      else if same \<noteq> PAGING_STATUS_OK then (same, st)
      else (PAGING_STATUS_OK, apply_permissions va len permissions st))"

section \<open>Translation\<close>

text \<open>The loop of \<open>translate_address\<close>: the leaf that maps an address, its level, and the conjunction
  of the write, execute and user bits on the way.\<close>

type_synonym leaf = "nat \<times> u64 \<times> bool \<times> bool \<times> bool"

fun translate_walk ::
    "(nat \<Rightarrow> nat \<Rightarrow> u64) \<Rightarrow> nat \<Rightarrow> nat \<Rightarrow> nat \<Rightarrow> bool \<Rightarrow> bool \<Rightarrow> bool \<Rightarrow> leaf option" where
  "translate_walk tables va 0 table writable executable user = None"
| "translate_walk tables va (Suc l) table writable executable user =
     (let entry = tables table (table_index va (Suc l)) in
      if entry AND PAGE_PRESENT = 0 then None
      else
        (let writable = (writable \<and> entry AND PAGE_WRITABLE \<noteq> 0);
             executable = (executable \<and> entry AND PAGE_NO_EXECUTE = 0);
             user = (user \<and> entry AND PAGE_USER \<noteq> 0) in
         if l = 0 \<or> entry AND PAGE_HUGE \<noteq> 0 then Some (Suc l, entry, writable, executable, user)
         else translate_walk tables va l (frame_of entry) writable executable user))"

definition empty_translation :: paging_translation where
  "empty_translation = \<lparr>tr_physical_address = 0, tr_permissions = PAGING_READ,
     tr_memory_type = PAGING_MEMORY_INVALID, tr_level = 0, tr_user = False\<rparr>"

definition fill_translation ::
    "u64 \<Rightarrow> nat \<Rightarrow> nat \<Rightarrow> bool \<Rightarrow> bool \<Rightarrow> bool \<Rightarrow> u64 \<Rightarrow> paging_translation" where
  "fill_translation entry va level writable executable user pat =
     (let page_size = level_page_size level; memory_type = leaf_memory_type entry level pat in
      \<lparr>tr_physical_address = frame_of entry AND not64 (page_size - 1) OR (va AND (page_size - 1)),
       tr_permissions = PAGING_READ OR (if writable then PAGING_WRITE else 0) OR
         (if executable then PAGING_EXECUTE else 0) OR memory_type_permission memory_type,
       tr_memory_type = memory_type, tr_level = level, tr_user = user\<rparr>)"

definition translate_address ::
    "nat \<Rightarrow> u64 \<Rightarrow> paging_store \<Rightarrow> paging_status \<times> paging_translation" where
  "translate_address va pat st =
     (if \<not> address_is_canonical va then (PAGING_STATUS_NONCANONICAL_ADDRESS, empty_translation)
      else
        (case translate_walk (pe_tables st) va PAGING_LEVEL_COUNT (root_of st) True True True of
           None \<Rightarrow> (PAGING_STATUS_NOT_MAPPED, empty_translation)
         | Some (level, entry, writable, executable, user) \<Rightarrow>
             (PAGING_STATUS_OK, fill_translation entry va level writable executable user pat)))"

section \<open>Audit\<close>

definition audit_leaf :: "nat \<Rightarrow> bool \<Rightarrow> bool \<Rightarrow> bool \<Rightarrow> paging_audit \<Rightarrow> paging_audit" where
  "audit_leaf level writable executable user audit =
     \<lparr>pa_leaf_count = pa_leaf_count audit + 1,
      pa_huge_leaves = pa_huge_leaves audit + (if level > 1 then 1 else 0),
      pa_writable_leaves = pa_writable_leaves audit + (if writable then 1 else 0),
      pa_executable_leaves = pa_executable_leaves audit + (if executable then 1 else 0),
      pa_write_execute_leaves = pa_write_execute_leaves audit + (if writable \<and> executable then 1 else 0),
      pa_user_leaves = pa_user_leaves audit + (if user then 1 else 0)\<rparr>"

text \<open>The recursion of the code, bounded by the level; the loop over the entries is the fold.\<close>

primrec audit_table ::
    "nat \<Rightarrow> (nat \<Rightarrow> nat \<Rightarrow> u64) \<Rightarrow> nat \<Rightarrow> bool \<Rightarrow> bool \<Rightarrow> bool \<Rightarrow> paging_audit \<Rightarrow> paging_audit" where
  "audit_table 0 tables table writable executable user audit = audit"
| "audit_table (Suc l) tables table writable executable user audit =
     fold (\<lambda>index audit.
        (let entry = tables table index in
         if entry AND PAGE_PRESENT = 0 then audit
         else
           (let leaf_writable = (writable \<and> entry AND PAGE_WRITABLE \<noteq> 0);
                leaf_executable = (executable \<and> entry AND PAGE_NO_EXECUTE = 0);
                leaf_user = (user \<and> entry AND PAGE_USER \<noteq> 0) in
            if l > 0 \<and> entry AND PAGE_HUGE = 0
            then audit_table l tables (frame_of entry) leaf_writable leaf_executable leaf_user audit
            else audit_leaf (Suc l) leaf_writable leaf_executable leaf_user audit)))
       [0 ..< PAGING_ENTRIES_PER_TABLE] audit"

definition audit_hierarchy :: "paging_store \<Rightarrow> paging_audit" where
  "audit_hierarchy st =
     audit_table PAGING_LEVEL_COUNT (pe_tables st) (root_of st) True True True
       \<lparr>pa_leaf_count = 0, pa_huge_leaves = 0, pa_writable_leaves = 0, pa_executable_leaves = 0,
        pa_write_execute_leaves = 0, pa_user_leaves = 0\<rparr>"

end
