(* ===== verification/Page_Walks.thy ===== *)
theory Page_Walks
  imports Page_Tables
begin

text \<open>
  Facts on the page-table hierarchies: tables as nodes of a tree reached along lists of indices, the
  leaf of an address, and the effect on both of writing an entry, linking a new table and unlinking an
  empty one.
\<close>

section \<open>Nodes\<close>

definition interior :: "u64 \<Rightarrow> bool" where
  "interior e \<longleftrightarrow> bit e 0 \<and> \<not> bit e 7"

text \<open>The table reached from \<open>t\<close> along a list of indices.\<close>

fun node :: "(nat \<Rightarrow> nat \<Rightarrow> u64) \<Rightarrow> nat \<Rightarrow> nat list \<Rightarrow> nat option" where
  "node T t [] = Some t"
| "node T t (i # p) = (if interior (T t i) then node T (frame_of (T t i)) p else None)"

lemma node_append: "node T t (p @ q) = (case node T t p of None \<Rightarrow> None | Some s \<Rightarrow> node T s q)"
  by (induction p arbitrary: t) auto

lemma node_snoc:
  "node T t (p @ [i]) = (case node T t p of None \<Rightarrow> None
     | Some s \<Rightarrow> if interior (T s i) then Some (frame_of (T s i)) else None)"
  by (simp add: node_append split: option.split)

text \<open>The indices of an address from level \<open>l\<close> down to the level above \<open>target\<close>.\<close>

fun seg :: "nat \<Rightarrow> nat \<Rightarrow> nat \<Rightarrow> nat list" where
  "seg 0 target va = []"
| "seg (Suc l) target va = (if Suc l \<le> target then [] else table_index va (Suc l) # seg l target va)"

lemma seg_same [simp]: "seg l l va = []"
  by (cases l) simp_all

lemma length_seg [simp]: "length (seg l target va) = l - target"
  by (induction l) auto

lemma seg_indices: "i \<in> set (seg l target va) \<Longrightarrow> i < 512"
  by (induction l) (auto simp: table_index_less split: if_splits)

lemma seg_snoc: "target < l \<Longrightarrow> seg l target va = seg l (Suc target) va @ [table_index va (Suc target)]"
proof (induction l)
  case (Suc l)
  then show ?case by (cases "target = l") auto
qed simp

lemma seg_vpath: "seg 4 0 va = vpath va"
  by (simp add: vpath_def numeral_eq_Suc)

definition index_path :: "nat list \<Rightarrow> bool" where
  "index_path p \<longleftrightarrow> length p \<le> 3 \<and> (\<forall>i \<in> set p. i < 512)"

lemma index_path_seg [simp]: "1 \<le> k \<Longrightarrow> index_path (seg 4 k va)"
  by (auto simp: index_path_def dest: seg_indices)

lemma index_path_append: "index_path (p @ q) \<Longrightarrow> index_path p"
  by (simp add: index_path_def)

lemma index_path_snoc: "index_path (p @ [i]) \<longleftrightarrow> index_path p \<and> length p < 3 \<and> i < 512"
  by (auto simp: index_path_def)

section \<open>The walk without creation\<close>

lemma entry_walk_keeps: "snd (entry_walk l target va False t st) = st"
  by (induction l arbitrary: t) (simp_all add: Let_def)

lemma entry_walk_find:
  "fst (entry_walk l target va False t st) = Inr s \<longleftrightarrow> node (pe_tables st) t (seg l target va) = Some s"
  by (induction l arbitrary: t) (simp_all add: Let_def interior_def entry_bits)

lemma entry_for_find:
  "fst (entry_for va target False st) = Inr (s, i) \<longleftrightarrow>
      node (pe_tables st) (root_of st) (seg 4 target va) = Some s \<and> i = table_index va target"
  "snd (entry_for va target False st) = st"
proof -
  obtain r st' where walk: "entry_walk 4 target va False (root_of st) st = (r, st')" by fastforce
  have st': "st' = st" using entry_walk_keeps [of 4 target va "root_of st" st] unfolding walk by simp
  have find: "r = Inr s \<longleftrightarrow> node (pe_tables st) (root_of st) (seg 4 target va) = Some s"
    using entry_walk_find [of 4 target va "root_of st" st s] unfolding walk by simp
  have res: "entry_for va target False st =
      (case r of Inl e \<Rightarrow> (Inl e, st) | Inr t \<Rightarrow> (Inr (t, table_index va target), st))"
    by (cases r) (simp_all add: entry_for_def walk st')
  show "snd (entry_for va target False st) = st" unfolding res by (cases r) simp_all
  have "fst (entry_for va target False st) = Inr (s, i) \<longleftrightarrow> r = Inr s \<and> i = table_index va target"
    unfolding res by (cases r) auto
  then show "fst (entry_for va target False st) = Inr (s, i) \<longleftrightarrow>
      node (pe_tables st) (root_of st) (seg 4 target va) = Some s \<and> i = table_index va target"
    unfolding find .
qed

section \<open>Leaves\<close>

definition leaf_of :: "paging_store \<Rightarrow> nat \<Rightarrow> leaf option" where
  "leaf_of st va = translate_walk (pe_tables st) va 4 (root_of st) True True True"

text \<open>Two stores give an address the same leaf when they agree along its path, up to places where
  one has nothing and the other an empty table or nothing.\<close>

definition dead_end :: "(nat \<Rightarrow> nat \<Rightarrow> u64) \<Rightarrow> nat \<Rightarrow> u64 \<Rightarrow> bool" where
  "dead_end T k e \<longleftrightarrow> \<not> bit e 0 \<or> 2 \<le> k \<and> interior e \<and> (\<forall>i < 512. \<not> bit (T (frame_of e) i) 0)"

lemma translate_walk_sim:
  assumes "\<And>k s. 1 \<le> k \<Longrightarrow> k \<le> l \<Longrightarrow> node T t (seg l k va) = Some s \<Longrightarrow>
    T' s (table_index va k) = T s (table_index va k) \<or>
    \<not> bit (T s (table_index va k)) 0 \<and> dead_end T' k (T' s (table_index va k))"
  shows "translate_walk T' va l t w x u = translate_walk T va l t w x u"
  using assms
proof (induction l arbitrary: t w x u)
  case (Suc l)
  let ?i = "table_index va (Suc l)"
  have top: "T' t ?i = T t ?i \<or> \<not> bit (T t ?i) 0 \<and> dead_end T' (Suc l) (T' t ?i)"
    using Suc.prems [of "Suc l" t] by simp
  show ?case
  proof (cases "T' t ?i = T t ?i")
    case True
    have "translate_walk T' va l (frame_of (T t ?i)) w' x' u' = translate_walk T va l (frame_of (T t ?i)) w' x' u'"
      if "interior (T t ?i)" for w' x' u'
    proof (rule Suc.IH)
      fix k s assume "1 \<le> k" "k \<le> l" "node T (frame_of (T t ?i)) (seg l k va) = Some s"
      then show "T' s (table_index va k) = T s (table_index va k) \<or>
          \<not> bit (T s (table_index va k)) 0 \<and> dead_end T' k (T' s (table_index va k))"
        using Suc.prems [of k s] that by simp
    qed
    then show ?thesis using True by (auto simp: Let_def entry_bits interior_def)
  next
    case False
    then have d: "\<not> bit (T t ?i) 0" "dead_end T' (Suc l) (T' t ?i)" using top by auto
    have "translate_walk T' va l (frame_of (T' t ?i)) w' x' u' = None"
      if "bit (T' t ?i) 0" "\<not> bit (T' t ?i) 7" for w' x' u'
      using d(2) that table_index_less by (cases l) (auto simp: dead_end_def Let_def entry_bits)
    then show ?thesis using d by (auto simp: Let_def entry_bits dead_end_def interior_def)
  qed
qed simp

lemma leaf_of_sim:
  assumes "root_of st' = root_of st"
    and "\<And>k s. 1 \<le> k \<Longrightarrow> k \<le> 4 \<Longrightarrow> node (pe_tables st) (root_of st) (seg 4 k va) = Some s \<Longrightarrow>
      pe_tables st' s (table_index va k) = pe_tables st s (table_index va k) \<or>
      \<not> bit (pe_tables st s (table_index va k)) 0 \<and> dead_end (pe_tables st') k (pe_tables st' s (table_index va k))"
  shows "leaf_of st' va = leaf_of st va"
  unfolding leaf_of_def assms(1) by (rule translate_walk_sim) (use assms(2) in auto)

section \<open>Well-formed hierarchies\<close>

text \<open>Every table is reached along one path only.\<close>

definition tree :: "(nat \<Rightarrow> nat \<Rightarrow> u64) \<Rightarrow> nat \<Rightarrow> bool" where
  "tree T root \<longleftrightarrow> (\<forall>p q t. index_path p \<longrightarrow> index_path q \<longrightarrow>
     node T root p = Some t \<longrightarrow> node T root q = Some t \<longrightarrow> p = q)"

text \<open>Entries that point to tables restrict nothing and are not for user mode.\<close>

definition plain_links :: "(nat \<Rightarrow> nat \<Rightarrow> u64) \<Rightarrow> nat \<Rightarrow> bool" where
  "plain_links T root \<longleftrightarrow> (\<forall>p t i. index_path (p @ [i]) \<longrightarrow> node T root p = Some t \<longrightarrow>
     interior (T t i) \<longrightarrow> bit (T t i) 1 \<and> \<not> bit (T t i) 63 \<and> \<not> bit (T t i) 2)"

text \<open>Every table is a frame the allocator has handed out on its own.\<close>

definition tables_owned :: "(nat \<Rightarrow> nat \<Rightarrow> u64) \<Rightarrow> nat \<Rightarrow> frame_state \<Rightarrow> bool" where
  "tables_owned T root F \<longleftrightarrow> (\<forall>p t. index_path p \<longrightarrow> node T root p = Some t \<longrightarrow>
     4096 dvd t \<and> owned_single F (t div 4096))"

definition hierarchy_ok :: "paging_store \<Rightarrow> bool" where
  "hierarchy_ok st \<longleftrightarrow>
     frames_ok (pe_frames st) \<and> fa_initialized (pe_frames st) \<and> ph_arena_capacity (pe_hierarchy st) = 0 \<and>
     tree (pe_tables st) (root_of st) \<and> plain_links (pe_tables st) (root_of st) \<and>
     tables_owned (pe_tables st) (root_of st) (pe_frames st)"

lemma treeD: "tree T root \<Longrightarrow> index_path p \<Longrightarrow> index_path q \<Longrightarrow> node T root p = Some t \<Longrightarrow>
    node T root q = Some t \<Longrightarrow> p = q"
  by (simp add: tree_def)

text \<open>A frame handed out on its own that holds no table of the hierarchy belongs to somebody else.\<close>

definition foreign :: "paging_store \<Rightarrow> nat \<Rightarrow> bool" where
  "foreign st f \<longleftrightarrow> owned_single (pe_frames st) f \<and>
     (\<forall>q. index_path q \<longrightarrow> node (pe_tables st) (root_of st) q \<noteq> Some (f * 4096))"

definition spared :: "paging_store \<Rightarrow> paging_store \<Rightarrow> bool" where
  "spared st st' \<longleftrightarrow> (\<forall>f. foreign st f \<longrightarrow> foreign st' f)"

subsection \<open>Writing an entry that points nowhere\<close>

lemma node_write:
  assumes "tree T root" "node T root p = Some s" "index_path p"
    and "length p = 3 \<or> \<not> interior (T' s i) \<and> \<not> interior (T s i)"
    and "\<And>t j. t \<noteq> s \<or> j \<noteq> i \<Longrightarrow> T' t j = T t j" "index_path q"
  shows "node T' root q = node T root q"
  using assms(6)
proof (induction q rule: rev_induct)
  case (snoc j r)
  have r: "index_path r" "length r < 3" using snoc.prems by (simp_all add: index_path_snoc)
  note same = snoc.IH [OF r(1)]
  show ?case
  proof (cases "node T root r")
    case (Some t)
    have "interior (T' t j) = interior (T t j) \<and> (interior (T t j) \<longrightarrow> T' t j = T t j)"
    proof (cases "t = s \<and> j = i")
      case True
      then have "r = p" using treeD [OF assms(1) r(1) assms(3)] Some assms(2) by blast
      then show ?thesis using assms(4) r(2) True by auto
    qed (use assms(5) in auto)
    then show ?thesis using same Some by (simp add: node_snoc)
  qed (use same in \<open>simp add: node_snoc\<close>)
qed simp

subsection \<open>Linking a fresh table\<close>

lemma node_link:
  assumes "tree T root" "node T root p = Some s" "index_path p" "\<not> bit (T s i) 0"
    and "interior (T' s i)" "frame_of (T' s i) = n" "\<And>r. index_path r \<Longrightarrow> node T root r \<noteq> Some n"
    and "\<And>j. T' n j = 0" "\<And>t j. t \<noteq> n \<Longrightarrow> t \<noteq> s \<or> j \<noteq> i \<Longrightarrow> T' t j = T t j" "index_path q"
  shows "node T' root q = (if q = p @ [i] then Some n else node T root q)"
  using assms(10)
proof (induction q rule: rev_induct)
  case (snoc j r)
  have r: "index_path r" using snoc.prems by (simp add: index_path_snoc)
  note IH = snoc.IH [OF r]
  show ?case
  proof (cases "r = p @ [i]")
    case True
    have "node T root r = None" using True assms(2,4) by (simp add: node_snoc interior_def)
    moreover have "node T' root r = Some n" using IH True by simp
    ultimately have "node T' root (r @ [j]) = node T root (r @ [j])"
      by (simp add: node_snoc assms(8) interior_def)
    then show ?thesis using True by simp
  next
    case False
    then have same: "node T' root r = node T root r" using IH by simp
    show ?thesis
    proof (cases "node T root r")
      case None
      then have "r \<noteq> p" using assms(2) by auto
      then show ?thesis using None same by (simp add: node_snoc)
    next
      case (Some t)
      then have tn: "t \<noteq> n" using assms(7) r by blast
      show ?thesis
      proof (cases "t = s \<and> j = i")
        case True
        then have "r = p" using treeD [OF assms(1) r assms(3)] Some assms(2) by blast
        then show ?thesis using True same Some assms(5,6) by (simp add: node_snoc)
      next
        case False
        then have "T' t j = T t j" using tn assms(9) by blast
        then have "node T' root (r @ [j]) = node T root (r @ [j])" using same Some by (simp add: node_snoc)
        moreover have "r @ [j] \<noteq> p @ [i]" using False Some assms(2) by auto
        ultimately show ?thesis by (simp only: if_False)
      qed
    qed
  qed
qed simp

subsection \<open>Unlinking an empty table\<close>

lemma node_unlink:
  assumes "tree T root" "node T root p = Some s" "index_path p"
    and "\<And>j. j < 512 \<Longrightarrow> \<not> bit (T (frame_of (T s i)) j) 0"
    and "T' s i = 0" "\<And>t j. t \<noteq> s \<or> j \<noteq> i \<Longrightarrow> T' t j = T t j" "index_path q"
  shows "node T' root q = (if q = p @ [i] then None else node T root q)"
  using assms(7)
proof (induction q rule: rev_induct)
  case (snoc j r)
  have r: "index_path r" "j < 512" using snoc.prems by (simp_all add: index_path_snoc)
  note IH = snoc.IH [OF r(1)]
  show ?case
  proof (cases "r = p @ [i]")
    case True
    have "node T root (r @ [j]) = None"
      using True assms(2) assms(4) [OF r(2)] by (auto simp: node_append interior_def)
    moreover have "node T' root r = None" using IH True by simp
    then have "node T' root (r @ [j]) = None" by (simp add: node_snoc)
    ultimately show ?thesis by simp
  next
    case False
    then have same: "node T' root r = node T root r" using IH by simp
    show ?thesis
    proof (cases "node T root r")
      case None
      then show ?thesis using same by (simp add: node_snoc)
    next
      case (Some t)
      show ?thesis
      proof (cases "t = s \<and> j = i")
        case True
        then have "r = p" using treeD [OF assms(1) r(1) assms(3)] Some assms(2) by blast
        then show ?thesis using True same Some assms(5) by (simp add: node_snoc interior_def)
      next
        case False
        then have "T' t j = T t j" using assms(6) by blast
        then have "node T' root (r @ [j]) = node T root (r @ [j])" using same Some by (simp add: node_snoc)
        moreover have "r @ [j] \<noteq> p @ [i]" using False Some assms(2) by auto
        ultimately show ?thesis by (simp only: if_False)
      qed
    qed
  qed
qed simp

section \<open>Leaves under a page table\<close>

lemma set_entry_tables [simp]:
  "pe_tables (set_entry t i e st) s j = (if s = t \<and> j = i then e else pe_tables st s j)"
  "pe_hierarchy (set_entry t i e st) = pe_hierarchy st" "pe_frames (set_entry t i e st) = pe_frames st"
  "pe_invalidated (set_entry t i e st) = pe_invalidated st" "pe_cr3 (set_entry t i e st) = pe_cr3 st"
  by (simp_all add: set_entry_def)

lemma translate_walk_leaf:
  assumes "node T t (seg (Suc l) 1 va) = Some s"
    and "\<And>k r. 1 < k \<Longrightarrow> k \<le> Suc l \<Longrightarrow> node T t (seg (Suc l) k va) = Some r \<Longrightarrow> interior (T r (table_index va k)) \<Longrightarrow>
      bit (T r (table_index va k)) 1 \<and> \<not> bit (T r (table_index va k)) 63 \<and> \<not> bit (T r (table_index va k)) 2"
  shows "translate_walk T va (Suc l) t w x u =
    (let e = T s (table_index va 1) in
     if bit e 0 then Some (1, e, w \<and> bit e 1, x \<and> \<not> bit e 63, l = 0 \<and> u \<and> bit e 2) else None)"
  using assms
proof (induction l arbitrary: t w x u)
  case 0
  then show ?case by (auto simp: Let_def entry_bits)
next
  case (Suc l)
  let ?e = "T t (table_index va (Suc (Suc l)))"
  have e: "interior ?e" "node T (frame_of ?e) (seg (Suc l) 1 va) = Some s"
    using Suc.prems(1) by (simp_all split: if_splits)
  have plain: "bit ?e 1" "\<not> bit ?e 63" "\<not> bit ?e 2"
    using Suc.prems(2) [of "Suc (Suc l)" t] e(1) by simp_all
  have "translate_walk T va (Suc l) (frame_of ?e) w x False =
    (let e = T s (table_index va 1) in
     if bit e 0 then Some (1, e, w \<and> bit e 1, x \<and> \<not> bit e 63, l = 0 \<and> False \<and> bit e 2) else None)"
    using e Suc.prems(2) by (intro Suc.IH) simp_all
  then show ?case
    using e(1) plain unfolding translate_walk.simps(2) [of T va "Suc l"]
    by (simp add: Let_def entry_bits interior_def)
qed

lemma leaf_of_table:
  assumes "plain_links (pe_tables st) (root_of st)" "node (pe_tables st) (root_of st) (seg 4 1 va) = Some s"
  shows "leaf_of st va = (let e = pe_tables st s (table_index va 1) in
     if bit e 0 then Some (1, e, bit e 1, \<not> bit e 63, False) else None)"
proof -
  have "translate_walk (pe_tables st) va (Suc 3) (root_of st) True True True =
    (let e = pe_tables st s (table_index va 1) in
     if bit e 0 then Some (1, e, True \<and> bit e 1, True \<and> \<not> bit e 63, (3 :: nat) = 0 \<and> True \<and> bit e 2) else None)"
  proof (rule translate_walk_leaf)
    show "node (pe_tables st) (root_of st) (seg (Suc 3) 1 va) = Some s" using assms(2) by simp
    fix k r assume k: "1 < k" "k \<le> Suc 3" "node (pe_tables st) (root_of st) (seg (Suc 3) k va) = Some r"
      "interior (pe_tables st r (table_index va k))"
    have "index_path (seg 4 k va @ [table_index va k])"
      using k(1) by (simp add: index_path_snoc table_index_less)
    with assms(1) k show "bit (pe_tables st r (table_index va k)) 1 \<and>
        \<not> bit (pe_tables st r (table_index va k)) 63 \<and> \<not> bit (pe_tables st r (table_index va k)) 2"
      unfolding plain_links_def by (metis (no_types) eval_nat_numeral(2) semiring_norm(26-28))
  qed
  then show ?thesis by (simp add: leaf_of_def Let_def)
qed


lemma seg_cong: "vpath va = vpath va' \<Longrightarrow> 1 \<le> k \<Longrightarrow> k \<le> 4 \<Longrightarrow> table_index va k = table_index va' k"
  by (auto simp: vpath_def numeral_eq_Suc le_Suc_eq)

lemma seg_1_vpath: "vpath va = seg 4 1 va @ [table_index va 1]"
  using seg_snoc [of 0 4 va] by (simp add: seg_vpath)

lemma seg_path_eq:
  assumes "seg 4 k va' = seg 4 j va" "k \<le> 4" "j \<le> 4"
  shows "k = j"
  using assms(2,3) arg_cong [OF assms(1), of length] by simp

text \<open>Writing an entry that points to no table, in place of one that points to none, keeps the hierarchy
  well formed; in a page table no entry does.\<close>

lemma write_entry:
  assumes ok: "hierarchy_ok st" and s: "node (pe_tables st) (root_of st) p = Some s" "index_path p"
    and e: "length p = 3 \<or> \<not> interior e \<and> \<not> interior (pe_tables st s i)" and st': "st' = set_entry s i e st"
  shows "hierarchy_ok st'"
    and "index_path q \<Longrightarrow> node (pe_tables st') (root_of st') q = node (pe_tables st) (root_of st) q"
proof -
  have tree: "tree (pe_tables st) (root_of st)" and plain: "plain_links (pe_tables st) (root_of st)"
    and owned: "tables_owned (pe_tables st) (root_of st) (pe_frames st)"
    using ok by (simp_all add: hierarchy_ok_def)
  show nodes: "node (pe_tables st') (root_of st') q = node (pe_tables st) (root_of st) q" if "index_path q" for q
    unfolding st' set_entry_tables by (rule node_write [OF tree s _ _ that]) (use e in auto)
  have link: "pe_tables st' t j = pe_tables st t j"
    if "index_path (q @ [j])" "node (pe_tables st) (root_of st) q = Some t" "interior (pe_tables st' t j)" for q t j
  proof (cases "t = s \<and> j = i")
    case True
    have q: "index_path q" "length q < 3" using that(1) by (simp_all add: index_path_snoc)
    have "q = p" using treeD [OF tree q(1) s(2) that(2)] s(1) True by simp
    then show ?thesis using e q(2) that(3) True by (simp add: st')
  qed (auto simp: st')
  have "plain_links (pe_tables st') (root_of st')"
    using plain unfolding plain_links_def by (metis link nodes index_path_append)
  moreover have "tree (pe_tables st') (root_of st')"
    using tree unfolding tree_def by (simp add: nodes)
  moreover have "tables_owned (pe_tables st') (root_of st') (pe_frames st')"
    using owned unfolding tables_owned_def by (simp add: nodes) (simp add: st')
  ultimately show "hierarchy_ok st'" using ok by (simp add: hierarchy_ok_def) (simp add: st')
qed

text \<open>Writing an entry of a page table changes the leaf of its page only.\<close>

lemma write_leaf:
  assumes ok: "hierarchy_ok st" and s: "node (pe_tables st) (root_of st) (seg 4 1 va) = Some s"
    and st': "st' = set_entry s (table_index va 1) e st"
  shows "hierarchy_ok st'"
    and "leaf_of st' va' = (if vpath va' = vpath va
      then if bit e 0 then Some (1, e, bit e 1, \<not> bit e 63, False) else None else leaf_of st va')"
proof -
  have tree: "tree (pe_tables st) (root_of st)" using ok by (simp add: hierarchy_ok_def)
  have p: "index_path (seg 4 1 va)" "length (seg 4 1 va) = 3 \<or> \<not> interior e \<and> \<not> interior (pe_tables st s (table_index va 1))"
    by simp_all
  note W = write_entry [OF ok s p st']
  show ok': "hierarchy_ok st'" by (rule W(1))
  have nodes: "node (pe_tables st') (root_of st') (seg 4 1 va) = Some s" using W(2) [OF p(1)] s by simp
  show "leaf_of st' va' = (if vpath va' = vpath va
      then if bit e 0 then Some (1, e, bit e 1, \<not> bit e 63, False) else None else leaf_of st va')"
  proof (cases "vpath va' = vpath va")
    case True
    then have "seg 4 1 va' = seg 4 1 va" "table_index va' 1 = table_index va 1"
      by (simp_all add: seg_1_vpath)
    moreover have "plain_links (pe_tables st') (root_of st')" using ok' by (simp add: hierarchy_ok_def)
    ultimately show ?thesis using leaf_of_table [of st' va' s] nodes True by (simp add: st')
  next
    case False
    have "leaf_of st' va' = leaf_of st va'"
    proof (rule leaf_of_sim)
      fix k t assume k: "1 \<le> k" "k \<le> 4" "node (pe_tables st) (root_of st) (seg 4 k va') = Some t"
      have "\<not> (t = s \<and> table_index va' k = table_index va 1)"
      proof
        assume a: "t = s \<and> table_index va' k = table_index va 1"
        have "seg 4 k va' = seg 4 1 va" using treeD [OF tree _ _ k(3)] a s k(1) by simp
        moreover from this have "k = 1" using k(2) by (rule seg_path_eq) simp
        ultimately show False using False a by (simp add: seg_1_vpath)
      qed
      then show "pe_tables st' t (table_index va' k) = pe_tables st t (table_index va' k) \<or>
          \<not> bit (pe_tables st t (table_index va' k)) 0 \<and> dead_end (pe_tables st') k (pe_tables st' t (table_index va' k))"
        by (auto simp: st')
    qed (simp add: st')
    then show ?thesis using False by simp
  qed
qed

section \<open>New tables\<close>

lemma count_failure_keeps:
  assumes "count_failure st = (failed, st')"
  shows "pe_tables st' = pe_tables st" "pe_hierarchy st' = pe_hierarchy st" "pe_frames st' = pe_frames st"
    "pe_invalidated st' = pe_invalidated st" "pe_cr3 st' = pe_cr3 st"
  using assms by (auto simp: count_failure_def Let_def split: if_splits)

lemma allocate_tableE:
  assumes "ph_arena_capacity (pe_hierarchy st) = 0" "allocate_table st = (r, st')"
  obtains (refused) "r = Inl PAGING_STATUS_OUT_OF_FRAMES" "pe_tables st' = pe_tables st"
      "pe_hierarchy st' = pe_hierarchy st" "pe_frames st' = pe_frames st"
      "pe_invalidated st' = pe_invalidated st" "pe_cr3 st' = pe_cr3 st"
    | (fresh) n where "r = Inr n"
      "frame_allocate (Some 0) (pe_frames st) = (FRAME_STATUS_OK, Some n, pe_frames st')"
      "pe_tables st' = (pe_tables st)(n := (\<lambda>_. 0))"
      "pe_hierarchy st' = (pe_hierarchy st)\<lparr>ph_table_frames := add64 (ph_table_frames (pe_hierarchy st)) 1\<rparr>"
      "pe_invalidated st' = pe_invalidated st" "pe_cr3 st' = pe_cr3 st"
proof -
  obtain failed st1 where c: "count_failure st = (failed, st1)" by fastforce
  note keep = count_failure_keeps [OF c]
  obtain s a F where f: "frame_allocate (Some 0) (pe_frames st) = (s, a, F)" by (metis prod_cases3)
  consider "failed" | "\<not> failed" "s \<noteq> FRAME_STATUS_OK" | "\<not> failed" "s = FRAME_STATUS_OK" by blast
  then show thesis
  proof cases
    case 1
    then have "r = Inl PAGING_STATUS_OUT_OF_FRAMES" "st' = st1"
      using assms(2) c by (simp_all add: allocate_table_def)
    then show thesis using keep by (intro refused) simp_all
  next
    case 2
    then have "supply_table st1 = (None, st1\<lparr>pe_frames := F\<rparr>)" using f keep assms(1) by (simp add: supply_table_def)
    then have "r = Inl PAGING_STATUS_OUT_OF_FRAMES" "st' = st1\<lparr>pe_frames := F\<rparr>"
      using assms(2) c 2 by (simp_all add: allocate_table_def)
    then show thesis using keep frame_allocate_refused(1) [OF f 2(2)] by (intro refused) simp_all
  next
    case 3
    obtain g where g: "g < FRAME_COUNT" "a = Some (g * 4096)"
      using f unfolding 3(2) by (rule frame_allocate_OK) blast
    have "supply_table st1 = (Some (g * 4096), st1\<lparr>pe_frames := F\<rparr>)"
      using f keep assms(1) 3(2) g by (simp add: supply_table_def)
    moreover have "g * 4096 < RSD_EARLY_PHYSICAL_LIMIT" using g(1) by (simp add: FRAME_COUNT_eq)
    ultimately have "r = Inr (g * 4096)" "st' = (zero_table (g * 4096) (st1\<lparr>pe_frames := F\<rparr>))
        \<lparr>pe_hierarchy := (pe_hierarchy st1)\<lparr>ph_table_frames := add64 (ph_table_frames (pe_hierarchy st1)) 1\<rparr>\<rparr>"
      using assms(2) c 3 by (simp_all add: allocate_table_def)
    then show thesis using keep f g(2) 3(2) by (intro fresh) (simp_all add: zero_table_def)
  qed
qed

lemma link_entry:
  assumes "4096 dvd n" "n < 2 ^ 52"
  shows "bit (of_nat n OR PAGE_PRESENT OR PAGE_WRITABLE :: u64) k \<longleftrightarrow> 12 \<le> k \<and> k < 52 \<and> bit n k \<or> k = 0 \<or> k = 1"
    and "frame_of (of_nat n OR PAGE_PRESENT OR PAGE_WRITABLE) = n"
proof -
  show bits: "bit (of_nat n OR PAGE_PRESENT OR PAGE_WRITABLE :: u64) k \<longleftrightarrow> 12 \<le> k \<and> k < 52 \<and> bit n k \<or> k = 0 \<or> k = 1" for k
    by (auto simp: bit_or_iff bit_address [OF assms] bit_flag)
  have "(of_nat n OR PAGE_PRESENT OR PAGE_WRITABLE) AND PAGE_FRAME_MASK = of_nat n"
    by (rule bit_word_eqI) (auto simp: bit_and_iff bits bit_frame_mask bit_address [OF assms])
  moreover have "n < 2 ^ LENGTH(64)" using assms(2) by (rule less_trans) simp
  ultimately show "frame_of (of_nat n OR PAGE_PRESENT OR PAGE_WRITABLE) = n"
    by (simp add: frame_of_def unsigned_of_nat take_bit_nat_eq_self)
qed

lemma hierarchy_fresh:
  assumes "hierarchy_ok st" "frame_free (pe_frames st) (n div 4096)" "index_path r"
  shows "node (pe_tables st) (root_of st) r \<noteq> Some n"
proof
  assume "node (pe_tables st) (root_of st) r = Some n"
  then have "owned_single (pe_frames st) (n div 4096)"
    using assms(1,3) by (simp add: hierarchy_ok_def tables_owned_def)
  then show False using assms(2) by (simp add: owned_single_def frame_free_def)
qed

text \<open>Nothing is mapped in the 2 MiB around an address, not even an empty page table.\<close>

definition vacant :: "paging_store \<Rightarrow> nat \<Rightarrow> bool" where
  "vacant st va \<longleftrightarrow>
     (\<forall>s. node (pe_tables st) (root_of st) (seg 4 2 va) = Some s \<longrightarrow> \<not> bit (pe_tables st s (table_index va 2)) 0)"

text \<open>Linking a fresh table below an absent entry gives a well-formed hierarchy with one more table and
  the same leaves.\<close>

lemma link_table:
  assumes ok: "hierarchy_ok st" and t: "node (pe_tables st) (root_of st) (seg 4 (Suc l) va) = Some t"
    and l: "1 \<le> l" "l < 4" and absent: "\<not> bit (pe_tables st t (table_index va (Suc l))) 0"
    and alloc: "frame_allocate (Some 0) (pe_frames st) = (FRAME_STATUS_OK, Some n, pe_frames st2)"
    and T: "\<And>s j. pe_tables st2 s j = (if s = t \<and> j = table_index va (Suc l)
        then of_nat n OR PAGE_PRESENT OR PAGE_WRITABLE else if s = n then 0 else pe_tables st s j)"
    and root: "root_of st2 = root_of st" "ph_arena_capacity (pe_hierarchy st2) = ph_arena_capacity (pe_hierarchy st)"
  shows "hierarchy_ok st2" "node (pe_tables st2) (root_of st2) (seg 4 l va) = Some n"
    "leaf_of st2 va' = leaf_of st va'" "spared st st2"
    "vacant st va' \<Longrightarrow> seg 4 1 va' \<noteq> seg 4 1 va \<Longrightarrow> vacant st2 va'"
proof -
  have frames: "frames_ok (pe_frames st)" "fa_initialized (pe_frames st)"
    and tree: "tree (pe_tables st) (root_of st)" and plain: "plain_links (pe_tables st) (root_of st)"
    and owned: "tables_owned (pe_tables st) (root_of st) (pe_frames st)"
    using ok by (simp_all add: hierarchy_ok_def)
  note new = frame_allocate_owned [OF frames(1) alloc]
  have step: "frame_step (Op_Allocate (Some 0)) (pe_frames st) = (FRAME_STATUS_OK, pe_frames st2)"
    using alloc by simp
  have n: "4096 dvd n" "n < 2 ^ 52" using new(2,4) by (simp_all add: FRAME_COUNT_eq div_less_iff_less_mult)
  note fresh = hierarchy_fresh [OF ok new(3)]
  have p: "index_path (seg 4 (Suc l) va)" by simp
  have tn: "t \<noteq> n" using fresh [OF p] t by auto
  have snoc: "seg 4 l va = seg 4 (Suc l) va @ [table_index va (Suc l)]" using l(2) by (rule seg_snoc)
  have nodes: "node (pe_tables st2) (root_of st2) q =
      (if q = seg 4 l va then Some n else node (pe_tables st) (root_of st) q)" if "index_path q" for q
    unfolding root(1) snoc
    by (rule node_link [OF tree t p absent _ _ fresh _ _ that]) (auto simp: T link_entry [OF n] tn tn [symmetric] interior_def)
  then show "node (pe_tables st2) (root_of st2) (seg 4 l va) = Some n" using l by simp
  have "n \<noteq> f * 4096" if "owned_single (pe_frames st) f" for f
    using that new(3) by (auto simp: owned_single_def frame_free_def)
  then show "spared st st2"
    using owned_single_step [OF frames(1) _ _ step] by (auto simp: spared_def foreign_def nodes)
  show "vacant st2 va'" if v: "vacant st va'" "seg 4 1 va' \<noteq> seg 4 1 va"
    unfolding vacant_def
  proof (intro allI impI)
    fix s assume s: "node (pe_tables st2) (root_of st2) (seg 4 2 va') = Some s"
    show "\<not> bit (pe_tables st2 s (table_index va' 2)) 0"
    proof (cases "s = n")
      case False
      then have old: "node (pe_tables st) (root_of st) (seg 4 2 va') = Some s" using s by (simp add: nodes split: if_splits)
      have apart: "\<not> (s = t \<and> table_index va' 2 = table_index va (Suc l))"
      proof
        assume a: "s = t \<and> table_index va' 2 = table_index va (Suc l)"
        have path: "seg 4 2 va' = seg 4 (Suc l) va" using treeD [OF tree _ p old] a t by simp
        then have "2 = Suc l" using l by (intro seg_path_eq [OF path]) simp_all
        then have "seg 4 1 va' = seg 4 1 va" using path a seg_snoc [of 1 4 va'] seg_snoc [of 1 4 va] by (simp add: numeral_2_eq_2)
        then show False using v(2) by simp
      qed
      have "pe_tables st2 s (table_index va' 2) = pe_tables st s (table_index va' 2)"
        by (simp only: T apart False if_False)
      then show ?thesis using v(1) old by (simp add: vacant_def)
    qed (use tn T in simp)
  qed
  have "tree (pe_tables st2) (root_of st2)"
    using tree fresh unfolding tree_def by (auto simp: nodes)
  moreover have "plain_links (pe_tables st2) (root_of st2)"
    unfolding plain_links_def
  proof (intro allI impI)
    fix q s i assume q: "index_path (q @ [i])" "node (pe_tables st2) (root_of st2) q = Some s" "interior (pe_tables st2 s i)"
    show "bit (pe_tables st2 s i) 1 \<and> \<not> bit (pe_tables st2 s i) 63 \<and> \<not> bit (pe_tables st2 s i) 2"
    proof (cases "s = t \<and> i = table_index va (Suc l) \<or> s = n")
      case True
      then show ?thesis using q(3) tn by (auto simp: T link_entry [OF n] interior_def)
    next
      case False
      then have "node (pe_tables st) (root_of st) q = Some s"
        using q(2) nodes [OF index_path_append [OF q(1)]] by (simp split: if_splits)
      then show ?thesis using plain q(1,3) False unfolding plain_links_def by (auto simp: T)
    qed
  qed
  moreover have "tables_owned (pe_tables st2) (root_of st2) (pe_frames st2)"
    unfolding tables_owned_def
  proof (intro allI impI)
    fix q s assume q: "index_path q" "node (pe_tables st2) (root_of st2) q = Some s"
    show "4096 dvd s \<and> owned_single (pe_frames st2) (s div 4096)"
    proof (cases "q = seg 4 l va")
      case True
      then show ?thesis using q nodes [OF q(1)] new(1) n(1) by simp
    next
      case False
      then have "4096 dvd s \<and> owned_single (pe_frames st) (s div 4096)"
        using owned q nodes [OF q(1)] by (simp add: tables_owned_def)
      then show ?thesis using owned_single_step [OF frames(1) _ _ step] by simp
    qed
  qed
  moreover have "frames_ok (pe_frames st2)" "fa_initialized (pe_frames st2)"
    using frame_step_ok [OF frames(1) step] frame_step_initialized [OF step] frames(2) by simp_all
  ultimately show "hierarchy_ok st2" using ok root by (simp add: hierarchy_ok_def)
  show "leaf_of st2 va' = leaf_of st va'"
  proof (rule leaf_of_sim [OF root(1)])
    fix k s assume k: "1 \<le> k" "k \<le> 4" "node (pe_tables st) (root_of st) (seg 4 k va') = Some s"
    show "pe_tables st2 s (table_index va' k) = pe_tables st s (table_index va' k) \<or>
      \<not> bit (pe_tables st s (table_index va' k)) 0 \<and> dead_end (pe_tables st2) k (pe_tables st2 s (table_index va' k))"
    proof (cases "s = t \<and> table_index va' k = table_index va (Suc l)")
      case True
      have "seg 4 k va' = seg 4 (Suc l) va" using treeD [OF tree _ p k(3)] True t k(1) by simp
      then have "k = Suc l" using k(2) l by (intro seg_path_eq) auto
      then show ?thesis using True absent tn l(1)
        by (auto simp: T dead_end_def link_entry [OF n] interior_def)
    next
      case False
      moreover have "s \<noteq> n" using fresh [of "seg 4 k va'"] k by auto
      ultimately show ?thesis by (auto simp: T)
    qed
  qed
qed


text \<open>The walk that creates tables keeps the hierarchy well formed and every leaf, whether it reaches the
  page table or not.\<close>

definition same_view :: "paging_store \<Rightarrow> paging_store \<Rightarrow> bool" where
  "same_view st st' \<longleftrightarrow> root_of st' = root_of st \<and> (\<forall>va. leaf_of st' va = leaf_of st va) \<and>
     pe_cr3 st' = pe_cr3 st \<and> ph_live (pe_hierarchy st') = ph_live (pe_hierarchy st) \<and> spared st st'"

lemma spared_refl [simp]: "spared st st"
  by (simp add: spared_def)

lemma spared_trans: "spared st st1 \<Longrightarrow> spared st1 st2 \<Longrightarrow> spared st st2"
  by (simp add: spared_def)

lemma same_view_refl [simp]: "same_view st st"
  by (simp add: same_view_def)

lemma same_view_trans: "same_view st st1 \<Longrightarrow> same_view st1 st2 \<Longrightarrow> same_view st st2"
  unfolding same_view_def using spared_trans by metis

lemma seg_append: "target \<le> k \<Longrightarrow> k \<le> l \<Longrightarrow> seg l target va = seg l k va @ seg k target va"
proof (induction l)
  case (Suc l)
  then show ?case by (cases "k = Suc l") auto
qed simp

lemma empty_table_path:
  assumes "node T root (seg 4 k va) = Some n" "target \<le> k" "k \<le> 4" "\<And>j. T n j = 0"
    and "node T root (seg 4 target va) = Some s"
  shows "T s i = 0"
proof (cases "target = k")
  case True
  then show ?thesis using assms by simp
next
  case False
  have "node T n (seg k target va) = Some s"
    using assms(1,5) seg_append [OF assms(2,3), of va] by (simp add: node_append)
  moreover obtain j q where "seg k target va = j # q" using False assms(2) by (cases k) auto
  ultimately show ?thesis using assms(4) by (simp add: interior_def)
qed

lemma entry_walk_create:
  assumes "hierarchy_ok st" "node (pe_tables st) (root_of st) (seg 4 (Suc l) va) = Some t" "l < 4"
    and "entry_walk (Suc l) target va True t st = (r, st')" "1 \<le> target" "target \<le> Suc l"
  shows "hierarchy_ok st' \<and> same_view st st' \<and> pe_invalidated st' = pe_invalidated st \<and>
    (\<forall>s. r = Inr s \<longrightarrow> node (pe_tables st') (root_of st') (seg 4 target va) = Some s \<and>
      (bit (pe_tables st' s (table_index va target)) 0 \<longrightarrow>
        node (pe_tables st) (root_of st) (seg 4 target va) = Some s \<and> bit (pe_tables st s (table_index va target)) 0)) \<and>
    r \<noteq> Inl PAGING_STATUS_OK"
  using assms
proof (induction l arbitrary: t st)
  case 0
  then show ?case by auto
next
  case (Suc l)
  let ?i = "table_index va (Suc (Suc l))"
  let ?e = "pe_tables st t ?i"
  show ?case
  proof (cases "target = Suc (Suc l)")
    case True
    then show ?thesis using Suc.prems by auto
  next
    case False
    then have target: "target \<le> Suc l" using Suc.prems(6) by simp
    show ?thesis
    proof (cases "bit ?e 0")
      case present: True
      show ?thesis
      proof (cases "bit ?e 7")
        case True
        then have "r = Inl PAGING_STATUS_HUGE_PAGE_PRESENT" "st' = st"
          using Suc.prems(4) present target by (simp_all add: Let_def entry_bits)
        then show ?thesis using Suc.prems(1) by simp
      next
        case False
        have "node (pe_tables st) (root_of st) (seg 4 (Suc l) va) = Some (frame_of ?e)"
          using Suc.prems(2,3) present False by (simp add: seg_snoc [of "Suc l"] node_snoc interior_def)
        from Suc.IH [OF Suc.prems(1) this] show ?thesis
          using Suc.prems(3-5) present False target by (simp add: Let_def entry_bits)
      qed
    next
      case absent: False
      obtain a st1 where a: "allocate_table st = (a, st1)" by fastforce
      have "ph_arena_capacity (pe_hierarchy st) = 0" using Suc.prems(1) by (simp add: hierarchy_ok_def)
      from this a show ?thesis
      proof (cases rule: allocate_tableE)
        case refused
        then have "r = Inl PAGING_STATUS_OUT_OF_FRAMES" "st' = st1"
          using Suc.prems(4) absent a target by (simp_all add: Let_def entry_bits)
        then show ?thesis using Suc.prems(1) refused by (simp add: hierarchy_ok_def same_view_def leaf_of_def spared_def foreign_def)
      next
        case (fresh n)
        define st2 where "st2 = set_entry t ?i (of_nat n OR PAGE_PRESENT OR PAGE_WRITABLE) st1"
        have link: "hierarchy_ok st2" "node (pe_tables st2) (root_of st2) (seg 4 (Suc l) va) = Some n"
          "leaf_of st2 va' = leaf_of st va'" "spared st st2" for va'
          by (rule link_table [OF Suc.prems(1,2) _ Suc.prems(3) absent, of n]; simp add: fresh st2_def)+
        have walk: "entry_walk (Suc l) target va True n st2 = (r, st')"
          using Suc.prems(4) absent a fresh(1) target by (simp add: Let_def entry_bits st2_def)
        have view: "same_view st st2" "pe_invalidated st2 = pe_invalidated st"
          using link(3,4) fresh by (simp_all add: same_view_def st2_def)
        have "frames_ok (pe_frames st)" using Suc.prems(1) by (simp add: hierarchy_ok_def)
        then have "t \<noteq> n"
          using hierarchy_fresh [OF Suc.prems(1) frame_allocate_owned(3) [OF _ fresh(2)], of "seg 4 (Suc (Suc l)) va"]
            Suc.prems(2) by auto
        then have zero: "pe_tables st2 n j = 0" for j by (simp add: fresh st2_def)
        have "\<not> bit (pe_tables st2 s (table_index va target)) 0"
          if "node (pe_tables st2) (root_of st2) (seg 4 target va) = Some s" for s
          using empty_table_path [OF link(2) target _ zero that] Suc.prems(3) by simp
        then show ?thesis
          using Suc.IH [OF link(1,2) _ walk Suc.prems(5) target] Suc.prems(3) view same_view_trans by auto
      qed
    qed
  qed
qed

section \<open>Empty tables\<close>

lemma table_is_empty_iff: "table_is_empty t st \<longleftrightarrow> (\<forall>j < 512. \<not> bit (pe_tables st t j) 0)"
  by (auto simp: table_is_empty_def list_all_iff entry_bits)

text \<open>Unlinking an empty table and releasing its frame gives a well-formed hierarchy with the same leaves.\<close>

lemma unlink_table:
  assumes ok: "hierarchy_ok st" and s: "node (pe_tables st) (root_of st) (seg 4 (Suc l) va) = Some s"
    and t: "node (pe_tables st) (root_of st) (seg 4 l va) = Some t" and l: "1 \<le> l" "l < 4"
    and empty: "table_is_empty t st"
    and T: "\<And>r j. pe_tables st2 r j = (if r = s \<and> j = table_index va (Suc l) then 0 else pe_tables st r j)"
    and F: "pe_frames st2 = snd (frame_release t (pe_frames st))"
    and root: "root_of st2 = root_of st" "ph_arena_capacity (pe_hierarchy st2) = ph_arena_capacity (pe_hierarchy st)"
  shows "hierarchy_ok st2" "leaf_of st2 va' = leaf_of st va'"
    "\<And>q. index_path q \<Longrightarrow> node (pe_tables st2) (root_of st2) q =
      (if q = seg 4 l va then None else node (pe_tables st) (root_of st) q)"
    "spared st st2"
proof -
  have frames: "frames_ok (pe_frames st)" "fa_initialized (pe_frames st)"
    and tree: "tree (pe_tables st) (root_of st)" and plain: "plain_links (pe_tables st) (root_of st)"
    and owned: "tables_owned (pe_tables st) (root_of st) (pe_frames st)"
    using ok by (simp_all add: hierarchy_ok_def)
  obtain status where step: "frame_step (Op_Release t) (pe_frames st) = (status, pe_frames st2)"
    using F by (cases "frame_release t (pe_frames st)") simp
  have "t div 4096 < FRAME_COUNT" using owned t index_path_seg [OF l(1), of va]
    unfolding tables_owned_def owned_single_def by blast
  then have words: "op_words (Op_Release t)" by (simp add: FRAME_COUNT_eq div_less_iff_less_mult)
  have p: "index_path (seg 4 (Suc l) va)" by simp
  have snoc: "seg 4 l va = seg 4 (Suc l) va @ [table_index va (Suc l)]" using l(2) by (rule seg_snoc)
  let ?e = "pe_tables st s (table_index va (Suc l))"
  have child: "interior ?e" "frame_of ?e = t"
    using t s by (simp_all add: snoc node_snoc split: if_splits)
  have none: "\<not> bit (pe_tables st t j) 0" if "j < 512" for j
    using empty that by (simp add: table_is_empty_iff)
  have st: "s \<noteq> t" using none [OF table_index_less] child(1) by (auto simp: interior_def)
  show nodes: "node (pe_tables st2) (root_of st2) q =
      (if q = seg 4 l va then None else node (pe_tables st) (root_of st) q)" if "index_path q" for q
    unfolding root(1) snoc
    by (rule node_unlink [OF tree s p _ _ _ that]) (use none child(2) in \<open>auto simp: T\<close>)
  show "spared st st2"
    using owned_single_step [OF frames(1) words _ step] t index_path_seg [OF l(1), of va]
    by (auto simp: spared_def foreign_def nodes)
  have old: "node (pe_tables st) (root_of st) q = Some r \<and> q \<noteq> seg 4 l va"
    if "index_path q" "node (pe_tables st2) (root_of st2) q = Some r" for q r
    using that nodes [OF that(1)] by (simp split: if_splits)
  have "tree (pe_tables st2) (root_of st2)"
    unfolding tree_def using treeD [OF tree] old by blast
  moreover have "plain_links (pe_tables st2) (root_of st2)"
    unfolding plain_links_def
  proof (intro allI impI)
    fix q r i assume q: "index_path (q @ [i])" "node (pe_tables st2) (root_of st2) q = Some r" "interior (pe_tables st2 r i)"
    then have "pe_tables st2 r i = pe_tables st r i" by (auto simp: T interior_def)
    then show "bit (pe_tables st2 r i) 1 \<and> \<not> bit (pe_tables st2 r i) 63 \<and> \<not> bit (pe_tables st2 r i) 2"
      using plain q old [OF index_path_append [OF q(1)] q(2)] unfolding plain_links_def by simp
  qed
  moreover have "tables_owned (pe_tables st2) (root_of st2) (pe_frames st2)"
    unfolding tables_owned_def
  proof (intro allI impI)
    fix q r assume q: "index_path q" "node (pe_tables st2) (root_of st2) q = Some r"
    note before = old [OF q]
    have r: "4096 dvd r" "owned_single (pe_frames st) (r div 4096)"
      using owned before q(1) by (auto simp: tables_owned_def)
    have "r \<noteq> t" using treeD [OF tree q(1) _ _ t] before l by auto
    then have "Op_Release t \<noteq> Op_Release (r div 4096 * 4096)" using r(1) by simp
    then show "4096 dvd r \<and> owned_single (pe_frames st2) (r div 4096)"
      using r owned_single_step [OF frames(1) words r(2) step] by simp
  qed
  moreover have "frames_ok (pe_frames st2)" "fa_initialized (pe_frames st2)"
    using frame_step_ok [OF frames(1) step words] frame_step_initialized [OF step] frames(2) by simp_all
  ultimately show "hierarchy_ok st2" using ok root by (simp add: hierarchy_ok_def)
  have "leaf_of st va' = leaf_of st2 va'"
  proof (rule leaf_of_sim [OF root(1) [symmetric]])
    fix k r assume k: "1 \<le> k" "k \<le> 4" "node (pe_tables st2) (root_of st2) (seg 4 k va') = Some r"
    note before = old [OF index_path_seg [OF k(1)] k(3)]
    show "pe_tables st r (table_index va' k) = pe_tables st2 r (table_index va' k) \<or>
      \<not> bit (pe_tables st2 r (table_index va' k)) 0 \<and> dead_end (pe_tables st) k (pe_tables st r (table_index va' k))"
    proof (cases "r = s \<and> table_index va' k = table_index va (Suc l)")
      case True
      have "seg 4 k va' = seg 4 (Suc l) va" using treeD [OF tree _ p _ s] before True k(1) by simp
      then have "k = Suc l" using k(2) l by (intro seg_path_eq) auto
      then show ?thesis using True child none l(1) by (auto simp: T dead_end_def)
    qed (auto simp: T)
  qed
  then show "leaf_of st2 va' = leaf_of st va'" ..
qed

lemma reclaim_climb_keeps:
  assumes "hierarchy_ok st" "1 \<le> level" "length tables + level = 5"
    and "\<And>j. j < length tables \<Longrightarrow> node (pe_tables st) (root_of st) (seg 4 (level + j) va) = Some (tables ! j)"
  shows "hierarchy_ok (reclaim_climb va level tables st) \<and> same_view st (reclaim_climb va level tables st) \<and>
    pe_invalidated (reclaim_climb va level tables st) = pe_invalidated st"
  using assms
proof (induction va level tables st rule: reclaim_climb.induct)
  case (1 va level table parent rest st)
  show ?case
  proof (cases "table_is_empty table st")
    case True
    let ?st = "release_table table (set_entry parent (table_index va (level + 1)) 0 st)"
    have cap: "ph_arena_capacity (pe_hierarchy st) = 0" using "1.prems"(1) by (simp add: hierarchy_ok_def)
    have tables: "node (pe_tables st) (root_of st) (seg 4 (Suc level) va) = Some parent"
      "node (pe_tables st) (root_of st) (seg 4 level va) = Some table" "level < 4"
      using "1.prems"(3) "1.prems"(4) [of 0] "1.prems"(4) [of 1] by simp_all
    have keep: "hierarchy_ok ?st" "leaf_of ?st va' = leaf_of st va'"
      "\<And>q. index_path q \<Longrightarrow> node (pe_tables ?st) (root_of ?st) q =
        (if q = seg 4 level va then None else node (pe_tables st) (root_of st) q)" "spared st ?st" for va'
      by (rule unlink_table [OF "1.prems"(1) tables(1,2) "1.prems"(2) tables(3) True];
          simp add: release_table_def Let_def cap)+
    have "same_view st ?st" using keep(2,4) by (simp add: same_view_def release_table_def Let_def cap)
    moreover have "pe_invalidated ?st = pe_invalidated st" by (simp add: release_table_def Let_def cap)
    moreover have "node (pe_tables ?st) (root_of ?st) (seg 4 (level + 1 + j) va) = Some ((parent # rest) ! j)"
      if "j < length (parent # rest)" for j
    proof -
      have "seg 4 (level + 1 + j) va \<noteq> seg 4 level va"
        using that "1.prems"(3) seg_path_eq [of "level + 1 + j" va level va] by auto
      then show ?thesis using keep(3) [of "seg 4 (level + 1 + j) va"] "1.prems"(4) [of "Suc j"] that by simp
    qed
    ultimately show ?thesis
      using "1.IH" [OF _ keep(1)] True "1.prems"(3) same_view_trans by auto
  next
    case False
    then show ?thesis using "1.prems"(1) by simp
  qed
qed simp_all


lemma reclaim_child_node:
  assumes "node (pe_tables st) (root_of st) (seg 4 (Suc l) va) = Some t" "l < 4"
  shows "reclaim_child va (Suc l) t st = node (pe_tables st) (root_of st) (seg 4 l va)"
  using assms by (simp add: seg_snoc [of l] node_snoc reclaim_child_def Let_def entry_bits interior_def)

lemma reclaim_cases:
  obtains (short) "reclaim_empty_tables va st = st"
  | (full) t1 t2 t3 where "reclaim_empty_tables va st = reclaim_climb va 1 [t1, t2, t3, root_of st] st"
    "\<And>j. j < 4 \<Longrightarrow> node (pe_tables st) (root_of st) (seg 4 (1 + j) va) = Some ([t1, t2, t3, root_of st] ! j)"
proof -
  let ?n = "\<lambda>k. node (pe_tables st) (root_of st) (seg 4 k va)"
  have root: "?n 4 = Some (root_of st)" by simp
  have 3: "reclaim_child va 4 (root_of st) st = ?n 3" using reclaim_child_node [of st 3 va] by simp
  have 2: "?n 3 = Some t3 \<Longrightarrow> reclaim_child va 3 t3 st = ?n 2" for t3
    using reclaim_child_node [of st 2 va] by simp
  have 1: "?n 2 = Some t2 \<Longrightarrow> reclaim_child va 2 t2 st = ?n 1" for t2
    using reclaim_child_node [of st 1 va] by (simp add: numeral_2_eq_2)
  consider "?n 3 = None" | t3 where "?n 3 = Some t3" "?n 2 = None"
    | t3 t2 where "?n 3 = Some t3" "?n 2 = Some t2" "?n 1 = None"
    | t3 t2 t1 where "?n 3 = Some t3" "?n 2 = Some t2" "?n 1 = Some t1" by force
  then show thesis
  proof cases
    case (4 t3 t2 t1)
    show thesis
    proof (rule full [of t1 t2 t3])
      show "reclaim_empty_tables va st = reclaim_climb va 1 [t1, t2, t3, root_of st] st"
        using 4 1 2 3 by (simp add: reclaim_empty_tables_def)
      show "?n (1 + j) = Some ([t1, t2, t3, root_of st] ! j)" if j: "j < 4" for j
      proof -
        consider "j = 0" | "j = 1" | "j = 2" | "j = 3" using j by linarith
        then show ?thesis by cases (use 4 root in \<open>simp_all add: numeral_eq_Suc del: seg.simps\<close>)
      qed
    qed
  qed (use 1 2 3 in \<open>auto intro: short simp: reclaim_empty_tables_def\<close>)
qed

lemma reclaim_keeps:
  assumes "hierarchy_ok st"
  shows "hierarchy_ok (reclaim_empty_tables va st) \<and> same_view st (reclaim_empty_tables va st) \<and>
    pe_invalidated (reclaim_empty_tables va st) = pe_invalidated st"
proof (cases rule: reclaim_cases [of va st])
  case short
  then show ?thesis using assms by simp
next
  case (full t1 t2 t3)
  show ?thesis unfolding full(1) using assms full(2) by (intro reclaim_climb_keeps) simp_all
qed

end
