(* ===== verification/Page_Ranges.thy ===== *)
theory Page_Ranges
  imports Page_Walks
begin

text \<open>
  What the range operations do to the leaves of every address: mapping, clearing, unmapping and
  protecting whole pages change the leaves of the pages named and no others, keep the hierarchy well
  formed, and invalidate every page whose leaf changed. Ranges are counted in pages; a range of
  validated length is canonical throughout when it is at most half the address space.
\<close>

section \<open>Pages\<close>

lemma table_index_page: "va div 4096 = va' div 4096 \<Longrightarrow> 1 \<le> k \<Longrightarrow> table_index va k = table_index va' k"
proof -
  assume eq: "va div 4096 = va' div 4096" and k: "1 \<le> k"
  have "(2 :: nat) ^ (12 + 9 * (k - 1)) = 4096 * 2 ^ (9 * (k - 1))" by (simp add: power_add)
  then show ?thesis by (simp add: table_index_eq div_mult2_eq eq)
qed

lemma vpath_page_iff:
  assumes "address_is_canonical va" "address_is_canonical va'"
  shows "vpath va = vpath va' \<longleftrightarrow> va div 4096 = va' div 4096"
proof
  show "vpath va = vpath va'" if "va div 4096 = va' div 4096"
    unfolding vpath_def by (simp add: table_index_page [OF that])
qed (rule vpath_page [OF _ assms])

definition in_pages :: "nat \<Rightarrow> nat \<Rightarrow> nat \<Rightarrow> nat \<Rightarrow> bool" where
  "in_pages va j n va' \<longleftrightarrow> va + 4096 * j \<le> va' \<and> va' < va + 4096 * n"

definition canonical_pages :: "nat \<Rightarrow> nat \<Rightarrow> bool" where
  "canonical_pages va n \<longleftrightarrow> 4096 dvd va \<and> (\<forall>j < n. address_is_canonical (va + j * 4096))"

lemma in_page_iff:
  assumes "4096 dvd va"
  shows "va' div 4096 = (va + j * 4096) div 4096 \<longleftrightarrow> in_pages va j (Suc j) va'"
proof -
  obtain q where q: "va = 4096 * q" using assms by blast
  have "(va + j * 4096) div 4096 = q + j" using q by simp
  moreover have "in_pages va j (Suc j) va' \<longleftrightarrow> 4096 * (q + j) \<le> va' \<and> va' < 4096 * Suc (q + j)"
    by (simp add: in_pages_def q algebra_simps)
  moreover have "\<dots> \<longleftrightarrow> va' div 4096 = q + j"
    by (metis div_nat_eqI div_times_less_eq_dividend dividend_less_div_times mult.commute mult_Suc_right zero_less_numeral add.commute)
  ultimately show ?thesis by metis
qed

lemma vpath_in_page:
  assumes "canonical_pages va n" "j < n" "address_is_canonical va'"
  shows "vpath va' = vpath (va + j * 4096) \<longleftrightarrow> in_pages va j (Suc j) va'"
  using assms vpath_page_iff [OF assms(3), of "va + j * 4096"] in_page_iff [of va va' j]
  by (simp add: canonical_pages_def)

lemma page_offsets_pages: "page_offsets (n * 4096) 4096 = map (\<lambda>j. j * 4096) [0 ..< n]"
proof -
  have "(n * 4096 + (4096 - 1)) div 4096 = n" by simp
  then show ?thesis unfolding page_offsets_def by (simp only:)
qed

lemma leaf_of_vpath:
  assumes "vpath va = vpath va'"
  shows "leaf_of st va = leaf_of st va'"
proof -
  have "translate_walk T va l t w x u = translate_walk T va' l t w x u" if "l \<le> 4" for T l t w x u
    using that by (induction l arbitrary: t w x u) (simp_all add: Let_def seg_cong [OF assms])
  then show ?thesis by (simp add: leaf_of_def)
qed

section \<open>What the processor has been told\<close>

definition on_processor :: "paging_store \<Rightarrow> bool" where
  "on_processor st \<longleftrightarrow> ph_live (pe_hierarchy st) \<or>
     root_of st \<noteq> 0 \<and> unat (pe_cr3 st AND PAGE_FRAME_MASK) = root_of st"

text \<open>The step from one store to another invalidated the page of every address whose leaf changed, if the
  hierarchy is the one the processor walks, and touched no frame of anybody else.\<close>

definition flushed :: "paging_store \<Rightarrow> paging_store \<Rightarrow> bool" where
  "flushed st st' \<longleftrightarrow> on_processor st' = on_processor st \<and> root_of st' = root_of st \<and> spared st st' \<and>
     set (pe_invalidated st) \<subseteq> set (pe_invalidated st') \<and>
     (on_processor st \<longrightarrow> (\<forall>va. address_is_canonical va \<longrightarrow> leaf_of st' va \<noteq> leaf_of st va \<longrightarrow>
        va div 4096 * 4096 \<in> set (pe_invalidated st')))"

lemma flushed_refl [simp]: "flushed st st"
  by (simp add: flushed_def)

lemma flushed_trans:
  assumes 1: "flushed st st1" and 2: "flushed st1 st2"
  shows "flushed st st2"
proof -
  have "va div 4096 * 4096 \<in> set (pe_invalidated st2)"
    if "on_processor st" "address_is_canonical va" "leaf_of st2 va \<noteq> leaf_of st va" for va
    using 1 2 that unfolding flushed_def by (cases "leaf_of st1 va = leaf_of st va") auto
  moreover have "set (pe_invalidated st) \<subseteq> set (pe_invalidated st2)" using 1 2 unfolding flushed_def by blast
  ultimately show ?thesis using 1 2 spared_trans [of st st1 st2] unfolding flushed_def by simp
qed

lemma flushed_same_view:
  "same_view st st' \<Longrightarrow> pe_invalidated st' = pe_invalidated st \<Longrightarrow> flushed st st'"
  by (simp add: flushed_def same_view_def on_processor_def)

lemma invalidate_keeps [simp]:
  "pe_tables (invalidate va st) = pe_tables st" "pe_hierarchy (invalidate va st) = pe_hierarchy st"
  "pe_frames (invalidate va st) = pe_frames st" "pe_cr3 (invalidate va st) = pe_cr3 st"
  "hierarchy_ok (invalidate va st) = hierarchy_ok st" "leaf_of (invalidate va st) va' = leaf_of st va'"
  "pe_invalidated (invalidate va st) = (if on_processor st then [va] else []) @ pe_invalidated st"
  by (simp_all add: invalidate_def on_processor_def hierarchy_ok_def leaf_of_def)

text \<open>Writing the entry of a page and invalidating it.\<close>

lemma write_page:
  assumes ok: "hierarchy_ok st" and range: "canonical_pages va n" "j < n"
    and s: "node (pe_tables st) (root_of st) (seg 4 1 (va + j * 4096)) = Some s"
    and st': "st' = invalidate (va + j * 4096) (set_entry s (table_index (va + j * 4096) 1) e st)"
  shows "hierarchy_ok st'" "flushed st st'"
    "address_is_canonical va' \<Longrightarrow> leaf_of st' va' = (if in_pages va j (Suc j) va'
      then if bit e 0 then Some (1, e, bit e 1, \<not> bit e 63, False) else None else leaf_of st va')"
proof -
  note W = write_leaf [OF ok s refl, where e = e]
  show "hierarchy_ok st'" using W(1) by (simp add: st')
  show leaf: "leaf_of st' va' = (if in_pages va j (Suc j) va'
      then if bit e 0 then Some (1, e, bit e 1, \<not> bit e 63, False) else None else leaf_of st va')"
    if "address_is_canonical va'" for va'
    using W(2) [of va'] unfolding vpath_in_page [OF range that] by (simp add: st')
  have "va' div 4096 * 4096 = va + j * 4096" if "in_pages va j (Suc j) va'" for va'
    using that in_page_iff [of va va' j] range(1) by (auto simp: canonical_pages_def)
  moreover have "spared st st'"
    using write_entry(2) [OF ok s _ _ refl, where i = "table_index (va + j * 4096) 1" and e = e] by (simp add: spared_def foreign_def st')
  ultimately show "flushed st st'"
    unfolding flushed_def using leaf by (auto simp: st' on_processor_def)
qed


section \<open>Looking up a page\<close>

lemma entry_walk_missing:
  assumes "fst (entry_walk (Suc l) 1 va False t st) = Inl e"
  shows "e = PAGING_STATUS_NOT_MAPPED \<and> translate_walk (pe_tables st) va (Suc l) t w x u = None \<or>
    e = PAGING_STATUS_HUGE_PAGE_PRESENT \<and> (\<exists>lv f. 1 < lv \<and> translate_walk (pe_tables st) va (Suc l) t w x u = Some (lv, f))"
  using assms
proof (induction l arbitrary: t w x u)
  case (Suc l)
  let ?e = "pe_tables st t (table_index va (Suc (Suc l)))"
  have eq: "translate_walk (pe_tables st) va (Suc (Suc l)) t w x u =
    (if \<not> bit ?e 0 then None
     else if bit ?e 7 then Some (Suc (Suc l), ?e, w \<and> bit ?e 1, x \<and> \<not> bit ?e 63, u \<and> bit ?e 2)
     else translate_walk (pe_tables st) va (Suc l) (frame_of ?e) (w \<and> bit ?e 1) (x \<and> \<not> bit ?e 63) (u \<and> bit ?e 2))"
    unfolding translate_walk.simps(2) [of _ _ "Suc l"] by (simp add: Let_def entry_bits)
  have walk: "fst (entry_walk (Suc (Suc l)) 1 va False t st) =
    (if \<not> bit ?e 0 then Inl PAGING_STATUS_NOT_MAPPED else if bit ?e 7 then Inl PAGING_STATUS_HUGE_PAGE_PRESENT
     else fst (entry_walk (Suc l) 1 va False (frame_of ?e) st))"
    unfolding entry_walk.simps(2) [of "Suc l"] by (simp add: Let_def entry_bits)
  show ?case
    using Suc.IH [of "frame_of ?e"] Suc.prems unfolding eq walk by (auto split: if_splits)
qed simp

text \<open>The walk without creation finds the page table of an address, nothing, or a large page.\<close>

lemma entry_for_cases:
  obtains (table) s where "fst (entry_for va 1 False st) = Inr (s, table_index va 1)"
      "node (pe_tables st) (root_of st) (seg 4 1 va) = Some s"
    | (missing) "fst (entry_for va 1 False st) = Inl PAGING_STATUS_NOT_MAPPED" "leaf_of st va = None"
    | (large) lv f where "fst (entry_for va 1 False st) = Inl PAGING_STATUS_HUGE_PAGE_PRESENT"
      "leaf_of st va = Some (lv, f)" "1 < lv"
proof (cases "fst (entry_for va 1 False st)")
  case (Inr r)
  obtain s i where r: "r = (s, i)" by fastforce
  show thesis using Inr entry_for_find(1) [of va 1 st s i] unfolding r by (intro table [of s]) simp_all
next
  case (Inl e)
  have four: "Suc 3 = (4 :: nat)" by simp
  obtain r st1 where walk: "entry_walk 4 1 va False (root_of st) st = (r, st1)" by fastforce
  have "r = Inl e" using Inl unfolding entry_for_def walk by (cases r) simp_all
  then have "fst (entry_walk (Suc 3) 1 va False (root_of st) st) = Inl e" unfolding four walk by simp
  from entry_walk_missing [OF this, of True True True, unfolded four, folded leaf_of_def] show thesis
    using Inl missing large by blast
qed


section \<open>Clearing pages\<close>

lemma in_pages_step: "in_pages va j n va' \<longleftrightarrow> in_pages va j (Suc j) va' \<or> in_pages va (Suc j) n va'" if "j < n"
  using that by (auto simp: in_pages_def)

lemma in_pages_first: "j < n \<Longrightarrow> in_pages va j n (va + j * 4096)" "in_pages va j (Suc j) (va + j * 4096)"
  by (simp_all add: in_pages_def)

lemma clear_page_view:
  assumes ok: "hierarchy_ok st" and range: "canonical_pages va n" "j < n"
    and small: "\<And>lv f. leaf_of st (va + j * 4096) = Some (lv, f) \<Longrightarrow> lv = 1"
    and st': "st' = clear_page 1 (va + j * 4096) st"
  shows "hierarchy_ok st' \<and> flushed st st' \<and> (\<forall>va'. address_is_canonical va' \<longrightarrow>
    leaf_of st' va' = (if in_pages va j (Suc j) va' then None else leaf_of st va'))"
proof (cases rule: entry_for_cases [of "va + j * 4096" st])
  case (table s)
  define st1 where "st1 = invalidate (va + j * 4096) (set_entry s (table_index (va + j * 4096) 1) 0 st)"
  note W = write_page [OF ok range table(2) st1_def]
  note R = reclaim_keeps [OF W(1), of "va + j * 4096"]
  have eq: "st' = reclaim_empty_tables (va + j * 4096) st1"
    unfolding st' clear_page_def table(1) st1_def by (simp add: Let_def)
  have "flushed st st'" unfolding eq using W(2) flushed_trans flushed_same_view R by blast
  moreover have "leaf_of st' va' = leaf_of st1 va'" for va' using R unfolding eq same_view_def by blast
  ultimately show ?thesis using R W(3) unfolding eq by simp
next
  case missing
  have eq: "st' = st" unfolding st' clear_page_def missing(1) by simp
  have "leaf_of st va' = None" if "address_is_canonical va'" "in_pages va j (Suc j) va'" for va'
    using vpath_in_page [OF range that(1)] that(2) missing(2) leaf_of_vpath by metis
  then show ?thesis unfolding eq using ok by simp
next
  case (large lv f)
  then show ?thesis using small by simp
qed

lemma clear_pages_view:
  assumes "hierarchy_ok st" "canonical_pages va n" "j \<le> n"
    and "\<And>va' lv f. address_is_canonical va' \<Longrightarrow> in_pages va j n va' \<Longrightarrow> leaf_of st va' = Some (lv, f) \<Longrightarrow> lv = 1"
    and "st' = fold (\<lambda>offset. clear_page 1 (va + offset)) (map (\<lambda>k. k * 4096) [j ..< n]) st"
  shows "hierarchy_ok st' \<and> flushed st st' \<and> (\<forall>va'. address_is_canonical va' \<longrightarrow>
    leaf_of st' va' = (if in_pages va j n va' then None else leaf_of st va'))"
  using assms
proof (induction "n - j" arbitrary: j st)
  case 0
  then show ?case by (auto simp: in_pages_def)
next
  case (Suc k)
  have j: "j < n" using Suc.hyps(2) by simp
  let ?st = "clear_page 1 (va + j * 4096) st"
  have canon: "address_is_canonical (va + j * 4096)" using Suc.prems(2) j by (simp add: canonical_pages_def)
  have C: "hierarchy_ok ?st" "flushed st ?st" "\<And>va'. address_is_canonical va' \<Longrightarrow>
      leaf_of ?st va' = (if in_pages va j (Suc j) va' then None else leaf_of st va')"
    using clear_page_view [OF Suc.prems(1,2) j _ refl] Suc.prems(4) [OF canon in_pages_first(1) [OF j]] by blast+
  have "st' = fold (\<lambda>offset. clear_page 1 (va + offset)) (map (\<lambda>k. k * 4096) [Suc j ..< n]) ?st"
    using Suc.prems(5) j by (simp add: upt_conv_Cons)
  then have "hierarchy_ok st' \<and> flushed ?st st' \<and> (\<forall>va'. address_is_canonical va' \<longrightarrow>
      leaf_of st' va' = (if in_pages va (Suc j) n va' then None else leaf_of ?st va'))"
  proof (rule Suc.hyps(1) [OF _ C(1) Suc.prems(2), rotated -1])
    show "lv = 1" if "address_is_canonical va'" "in_pages va (Suc j) n va'" "leaf_of ?st va' = Some (lv, f)" for va' lv f
      using Suc.prems(4) [OF that(1), of lv f] that C(3) [OF that(1)]
      by (simp add: in_pages_step [OF j] split: if_splits)
  qed (use Suc.hyps(2) j in simp_all)
  then show ?case using C flushed_trans by (auto simp: in_pages_step [OF j])
qed


section \<open>Mapping pages\<close>

text \<open>The leaf of a page mapped to \<open>a\<close> with permissions \<open>p\<close>.\<close>

definition page_leaf :: "nat \<Rightarrow> u32 \<Rightarrow> leaf" where
  "page_leaf a p = (1, compose_entry a p False, bit p 0, bit p 1, False)"

lemma leaf_compose:
  assumes "4096 dvd a" "a < 2 ^ 52" "e = compose_entry a p False"
  shows "(if bit e 0 then Some (1, e, bit e 1, \<not> bit e 63, False) else None) = Some (page_leaf a p)"
  using bit_compose_entry [OF assms(1,2), of p False] by (simp add: assms(3) page_leaf_def)

text \<open>The leaves after \<open>j\<close> pages have been mapped over a view that had nothing there.\<close>

definition mapped_view :: "nat \<Rightarrow> nat \<Rightarrow> u32 \<Rightarrow> nat \<Rightarrow> paging_store \<Rightarrow> nat \<Rightarrow> leaf option" where
  "mapped_view va pa p j st va' =
     (if in_pages va 0 j va' then Some (page_leaf (pa + (va' - va) div 4096 * 4096) p) else leaf_of st va')"

lemma entry_for_create:
  assumes "hierarchy_ok st" "entry_for va 1 True st = (r, st')"
  shows "hierarchy_ok st'" "flushed st st'" "leaf_of st' va' = leaf_of st va'"
    and "r = Inr (s, i) \<Longrightarrow> node (pe_tables st') (root_of st') (seg 4 1 va) = Some s \<and> i = table_index va 1"
    and "r \<noteq> Inl PAGING_STATUS_OK"
proof -
  obtain w where walk: "entry_walk (Suc 3) 1 va True (root_of st) st = (w, st')"
    and r: "r = (case w of Inl e \<Rightarrow> Inl e | Inr t \<Rightarrow> Inr (t, table_index va 1))"
    using assms(2) by (auto simp: entry_for_def simp del: entry_walk.simps split: prod.splits sum.splits)
  have "hierarchy_ok st' \<and> same_view st st' \<and> pe_invalidated st' = pe_invalidated st \<and>
    (\<forall>s. w = Inr s \<longrightarrow> node (pe_tables st') (root_of st') (seg 4 1 va) = Some s) \<and> w \<noteq> Inl PAGING_STATUS_OK"
    using entry_walk_create [OF assms(1) _ _ walk] by simp
  then show "hierarchy_ok st'" "flushed st st'" "leaf_of st' va' = leaf_of st va'"
    "r = Inr (s, i) \<Longrightarrow> node (pe_tables st') (root_of st') (seg 4 1 va) = Some s \<and> i = table_index va 1"
    "r \<noteq> Inl PAGING_STATUS_OK"
    using flushed_same_view by (auto simp: r same_view_def split: sum.splits)
qed

lemma mapped_view_step:
  assumes "canonical_pages va n" "j < n" "4096 dvd pa" "pa + n * 4096 \<le> 2 ^ 52" "hierarchy_ok st"
    and "node (pe_tables st) (root_of st) (seg 4 1 (va + j * 4096)) = Some s"
    and "st' = invalidate (va + j * 4096) (set_entry s (table_index (va + j * 4096) 1) (compose_entry (pa + j * 4096) p False) st)"
    and view: "\<And>va'. address_is_canonical va' \<Longrightarrow> leaf_of st va' = mapped_view va pa p j st0 va'"
    and "address_is_canonical va'"
  shows "leaf_of st' va' = mapped_view va pa p (Suc j) st0 va'"
proof -
  have a: "4096 dvd pa + j * 4096" "pa + j * 4096 < 2 ^ 52" using assms(2-4) by simp_all
  have "(va' - va) div 4096 = j" if "in_pages va j (Suc j) va'"
    using that by (intro div_nat_eqI) (auto simp: in_pages_def)
  then show ?thesis
    using write_page(3) [OF assms(5,1,2,6,7,9)] leaf_compose [OF a refl, of p] view [OF assms(9)]
    by (auto simp: mapped_view_def in_pages_def)
qed

lemma clear_mapped:
  assumes "canonical_pages va n" "j \<le> n" "hierarchy_ok st"
    and "\<And>va'. address_is_canonical va' \<Longrightarrow> leaf_of st va' = mapped_view va pa p j st0 va'"
    and "\<And>va'. address_is_canonical va' \<Longrightarrow> in_pages va 0 n va' \<Longrightarrow> leaf_of st0 va' = None"
    and "st' = clear_range va (j * 4096) 1 st"
  shows "hierarchy_ok st' \<and> flushed st st' \<and> (\<forall>va'. address_is_canonical va' \<longrightarrow> leaf_of st' va' = leaf_of st0 va')"
proof -
  have size: "level_page_size 1 = 4096" by (simp add: level_page_size_def)
  have st': "st' = fold (\<lambda>offset. clear_page 1 (va + offset)) (map (\<lambda>k. k * 4096) [0 ..< j]) st"
    unfolding assms(6) clear_range_def size page_offsets_pages ..
  have range: "canonical_pages va j" using assms(1,2) by (simp add: canonical_pages_def)
  have "hierarchy_ok st' \<and> flushed st st' \<and> (\<forall>va'. address_is_canonical va' \<longrightarrow>
    leaf_of st' va' = (if in_pages va 0 j va' then None else leaf_of st va'))"
    by (rule clear_pages_view [OF assms(3) range _ _ st'])
      (auto simp: assms(4) mapped_view_def page_leaf_def)
  moreover have "in_pages va 0 n va'" if "in_pages va 0 j va'" for va'
    using that assms(2) by (auto simp: in_pages_def)
  ultimately show ?thesis using assms(4,5) by (auto simp: mapped_view_def)
qed

lemma map_pages_view:
  assumes "canonical_pages va n" "4096 dvd pa" "pa + n * 4096 \<le> 2 ^ 52"
    and free: "\<And>va'. address_is_canonical va' \<Longrightarrow> in_pages va 0 n va' \<Longrightarrow> leaf_of st0 va' = None"
    and "hierarchy_ok st" "j \<le> n" "flushed st0 st"
    and "\<And>va'. address_is_canonical va' \<Longrightarrow> leaf_of st va' = mapped_view va pa p j st0 va'"
    and "map_pages va pa p 1 (map (\<lambda>k. k * 4096) [j ..< n]) st = (status, st')"
  shows "hierarchy_ok st' \<and> flushed st0 st' \<and> (\<forall>va'. address_is_canonical va' \<longrightarrow>
    leaf_of st' va' = (if status = PAGING_STATUS_OK then mapped_view va pa p n st0 va' else leaf_of st0 va'))"
  using assms(5-9)
proof (induction "n - j" arbitrary: j st)
  case 0
  then show ?case by auto
next
  case (Suc k)
  have j: "j < n" using Suc.hyps(2) by simp
  obtain r st1 where e: "entry_for (va + j * 4096) 1 True st = (r, st1)" by fastforce
  note C = entry_for_create [OF Suc.prems(1) e]
  have flush: "flushed st0 st1" using Suc.prems(3) C(2) by (rule flushed_trans)
  have view: "leaf_of st1 va' = mapped_view va pa p j st0 va'" if "address_is_canonical va'" for va'
    using C(3) Suc.prems(4) [OF that] by simp
  show ?case
  proof (cases r)
    case (Inl f)
    then have res: "status = f" "st' = clear_range va (j * 4096) 1 st1" "f \<noteq> PAGING_STATUS_OK"
      using Suc.prems(5) e j C(5) by (auto simp: upt_conv_Cons)
    have "j \<le> n" using j by simp
    from clear_mapped [OF assms(1) this C(1) view free res(2)] show ?thesis
      using res flush flushed_trans by auto
  next
    case (Inr q)
    obtain s i where q: "q = (s, i)" by fastforce
    note s = C(4) [OF Inr [unfolded q]]
    define st2 where "st2 = invalidate (va + j * 4096)
      (set_entry s (table_index (va + j * 4096) 1) (compose_entry (pa + j * 4096) p False) st1)"
    have rest: "map_pages va pa p 1 (map (\<lambda>k. k * 4096) [Suc j ..< n]) st2 = (status, st')"
      using Suc.prems(5) e j s by (simp add: upt_conv_Cons Inr q st2_def)
    note W = write_page [OF C(1) assms(1) j s [THEN conjunct1] st2_def]
    show ?thesis
    proof (rule Suc.hyps(1) [OF _ W(1) _ flushed_trans [OF flush W(2)] _ rest])
      show "leaf_of st2 va' = mapped_view va pa p (Suc j) st0 va'" if "address_is_canonical va'" for va'
        by (rule mapped_view_step [OF assms(1) j assms(2,3) C(1) s [THEN conjunct1] st2_def view that])
    qed (use Suc.hyps(2) j in simp_all)
  qed
qed


section \<open>Checks over a range\<close>

lemma in_pages_page:
  assumes "in_pages va 0 n va'"
  obtains j where "j < n" "in_pages va j (Suc j) va'"
proof -
  define q where "q = (va' - va) div 4096"
  have q: "4096 * q \<le> va' - va" "va' - va < 4096 * Suc q"
    unfolding q_def by (simp_all add: dividend_less_times_div add.commute)
  have range: "va \<le> va'" "va' < va + 4096 * n" using assms by (simp_all add: in_pages_def)
  have "4096 * q < 4096 * n" using q(1) range by linarith
  then have "q < n" by simp
  moreover have "in_pages va q (Suc q) va'" unfolding in_pages_def using range q by linarith
  ultimately show thesis by (rule that)
qed

lemma leaf_of_in_page:
  assumes "canonical_pages va n" "j < n" "in_pages va j (Suc j) va'" "address_is_canonical va'"
  shows "leaf_of st va' = leaf_of st (va + j * 4096)"
  by (rule leaf_of_vpath) (use vpath_in_page [OF assms(1,2,4)] assms(3) in simp)

lemma pages_leaf_iff:
  assumes "canonical_pages va n"
  shows "(\<forall>j < n. P (leaf_of st (va + j * 4096))) \<longleftrightarrow>
    (\<forall>va'. address_is_canonical va' \<longrightarrow> in_pages va 0 n va' \<longrightarrow> P (leaf_of st va'))"
proof (intro iffI allI impI)
  fix va' assume P: "\<forall>j < n. P (leaf_of st (va + j * 4096))" and va': "address_is_canonical va'" "in_pages va 0 n va'"
  obtain j where "j < n" "in_pages va j (Suc j) va'" using va'(2) by (rule in_pages_page)
  then show "P (leaf_of st va')" using P leaf_of_in_page [OF assms _ _ va'(1)] by metis
next
  fix j assume P: "\<forall>va'. address_is_canonical va' \<longrightarrow> in_pages va 0 n va' \<longrightarrow> P (leaf_of st va')" and j: "j < n"
  have "in_pages va 0 n (va + j * 4096)" using j by (simp add: in_pages_def)
  moreover have "address_is_canonical (va + j * 4096)" using assms j by (simp add: canonical_pages_def)
  ultimately show "P (leaf_of st (va + j * 4096))" using P by blast
qed

lemma unmapped_pages_OK:
  assumes "hierarchy_ok st"
  shows "unmapped_pages va 1 offsets st = PAGING_STATUS_OK \<longleftrightarrow> (\<forall>offset \<in> set offsets. leaf_of st (va + offset) = None)"
proof (induction offsets)
  case (Cons offset rest)
  have plain: "plain_links (pe_tables st) (root_of st)" using assms by (simp add: hierarchy_ok_def)
  show ?case
  proof (cases rule: entry_for_cases [of "va + offset" st])
    case (table s)
    then show ?thesis
      unfolding unmapped_pages.simps table(1) using Cons.IH leaf_of_table [OF plain table(2)]
      by (simp add: Let_def entry_bits)
  next
    case missing
    then show ?thesis unfolding unmapped_pages.simps missing(1) using Cons.IH by simp
  next
    case (large lv f)
    then show ?thesis unfolding unmapped_pages.simps large(1) by simp
  qed
qed simp

definition small_leaf :: "leaf option \<Rightarrow> bool" where
  "small_leaf x \<longleftrightarrow> (case x of None \<Rightarrow> False | Some (level, _) \<Rightarrow> level = 1)"

lemma mapped_pages_OK:
  assumes "hierarchy_ok st"
  shows "mapped_pages va offsets st = PAGING_STATUS_OK \<longleftrightarrow>
    (\<forall>offset \<in> set offsets. small_leaf (leaf_of st (va + offset)))"
proof (induction offsets)
  case (Cons offset rest)
  have plain: "plain_links (pe_tables st) (root_of st)" using assms by (simp add: hierarchy_ok_def)
  show ?case
  proof (cases rule: entry_for_cases [of "va + offset" st])
    case (table s)
    then show ?thesis
      unfolding mapped_pages.simps table(1) using Cons.IH leaf_of_table [OF plain table(2)]
      by (simp add: Let_def entry_bits small_leaf_def)
  next
    case missing
    then show ?thesis unfolding mapped_pages.simps missing(1) by (simp add: small_leaf_def)
  next
    case (large lv f)
    then show ?thesis unfolding mapped_pages.simps large(1) by (simp add: small_leaf_def)
  qed
qed simp

lemma aligned_iff: "a AND (4096 - 1) = 0 \<longleftrightarrow> 4096 dvd (a :: nat)"
proof -
  have "a AND (2 ^ 12 - 1) = 0 \<longleftrightarrow> 2 ^ 12 dvd a" by (simp only: and_low_mask mod_eq_0_iff_dvd)
  then show ?thesis by simp
qed

lemma validate_virtual_OK:
  assumes "validate_virtual_range va len 4096 = PAGING_STATUS_OK" "len \<le> 2 ^ 63"
  obtains n where "0 < n" "len = n * 4096" "canonical_pages va n"
proof -
  have v: "0 < len" "4096 dvd va" "4096 dvd len" "address_is_canonical va" "address_is_canonical (va + len - 1)"
    using assms(1) unfolding validate_virtual_range_def aligned_iff by (auto split: if_splits)
  obtain n where n: "len = n * 4096" using v(3) by (metis dvd_div_mult_self)
  have canonical: "address_is_canonical x \<longleftrightarrow> x < 2 ^ 47 \<or> 2 ^ 64 - 2 ^ 47 \<le> x \<and> x < 2 ^ 64" for x
  proof -
    have "x div 2 ^ 47 = 2 ^ 17 - 1 \<longleftrightarrow> 2 ^ 64 - 2 ^ 47 \<le> x \<and> x < 2 ^ 64"
      using div_less_iff_less_mult [of "2 ^ 47" x "2 ^ 17"] less_eq_div_iff_mult_less_eq [of "2 ^ 47" "2 ^ 17 - 1" x] by auto
    then show ?thesis unfolding canonical_iff by simp
  qed
  have "address_is_canonical (va + j * 4096)" if "j < n" for j
  proof -
    have "va + j * 4096 \<le> va + len - 1" using that n by simp
    then show ?thesis using v(1,4,5) assms(2) unfolding canonical by auto
  qed
  then show thesis using v n by (intro that [of n]) (auto simp: canonical_pages_def)
qed


section \<open>Range operations\<close>

lemma page_size_1: "level_page_size 1 = 4096"
  by (simp add: level_page_size_def)

lemma in_pages_range: "in_pages va 0 n va' \<longleftrightarrow> va \<le> va' \<and> va' < va + n * 4096"
  by (simp add: in_pages_def mult.commute)

lemma map_range_OK:
  assumes "hierarchy_ok st" "map_range va pa len p 1 st = (status, st')" "status = PAGING_STATUS_OK \<or> st' \<noteq> st"
  obtains n where "0 < n" "len = n * 4096" "canonical_pages va n" "4096 dvd pa" "pa + len \<le> 2 ^ 52"
    "validate_permissions p = PAGING_STATUS_OK"
    "\<And>va'. address_is_canonical va' \<Longrightarrow> in_pages va 0 n va' \<Longrightarrow> leaf_of st va' = None"
    "map_pages va pa p 1 (map (\<lambda>k. k * 4096) [0 ..< n]) st = (status, st')"
proof -
  have v: "validate_permissions p = PAGING_STATUS_OK" "validate_virtual_range va len 4096 = PAGING_STATUS_OK"
    "validate_physical_range pa len 4096 = PAGING_STATUS_OK"
    "unmapped_pages va 1 (page_offsets len 4096) st = PAGING_STATUS_OK"
    "map_pages va pa p 1 (page_offsets len 4096) st = (status, st')"
    using assms(2,3) unfolding map_range_def page_size_1 Let_def by (auto split: if_splits)
  have pa: "4096 dvd pa" "pa + len \<le> 2 ^ 52"
    using v(3) unfolding validate_physical_range_def aligned_iff PAGE_PHYSICAL_LIMIT_def by (auto split: if_splits)
  then have "len \<le> 2 ^ 63" by simp
  then obtain n where n: "0 < n" "len = n * 4096" "canonical_pages va n" using v(2) validate_virtual_OK by blast
  have "\<forall>j < n. leaf_of st (va + j * 4096) = None"
    using v(4) unfolding unmapped_pages_OK [OF assms(1)] n(2) page_offsets_pages by auto
  then show thesis
    using v(1,5) n pa pages_leaf_iff [OF n(3), of "\<lambda>x. x = None" st]
    by (intro that [of n]) (auto simp: page_offsets_pages)
qed

lemma map_range_view:
  assumes "hierarchy_ok st" "map_range va pa len p 1 st = (status, st')"
  shows "hierarchy_ok st' \<and> flushed st st' \<and> (\<forall>va'. address_is_canonical va' \<longrightarrow>
    leaf_of st' va' = (if status = PAGING_STATUS_OK \<and> va \<le> va' \<and> va' < va + len
      then Some (page_leaf (pa + (va' - va) div 4096 * 4096) p) else leaf_of st va'))"
proof (cases "status = PAGING_STATUS_OK \<or> st' \<noteq> st")
  case True
  obtain n where n: "len = n * 4096" "canonical_pages va n" "4096 dvd pa" "pa + len \<le> 2 ^ 52"
    "\<And>va'. address_is_canonical va' \<Longrightarrow> in_pages va 0 n va' \<Longrightarrow> leaf_of st va' = None"
    "map_pages va pa p 1 (map (\<lambda>k. k * 4096) [0 ..< n]) st = (status, st')"
    using assms True by (rule map_range_OK) blast
  have "hierarchy_ok st' \<and> flushed st st' \<and> (\<forall>va'. address_is_canonical va' \<longrightarrow>
    leaf_of st' va' = (if status = PAGING_STATUS_OK then mapped_view va pa p n st va' else leaf_of st va'))"
    using n(4) by (intro map_pages_view [OF n(2,3) _ n(5) assms(1) _ _ _ n(6)])
      (auto simp: n(1) mapped_view_def in_pages_def)
  then show ?thesis by (simp add: mapped_view_def n(1) in_pages_range)
qed (use assms(1) in simp)

lemma unmap_range_view:
  assumes "hierarchy_ok st" "unmap_range va len st = (status, st')" "len \<le> 2 ^ 63"
  shows "hierarchy_ok st' \<and> flushed st st' \<and> (\<forall>va'. address_is_canonical va' \<longrightarrow>
    leaf_of st' va' = (if status = PAGING_STATUS_OK \<and> va \<le> va' \<and> va' < va + len then None else leaf_of st va'))"
proof (cases "status = PAGING_STATUS_OK")
  case True
  have v: "validate_virtual_range va len 4096 = PAGING_STATUS_OK" "st' = clear_range va len 1 st"
    "mapped_pages va (page_offsets len 4096) st = PAGING_STATUS_OK"
    using assms(2) True unfolding unmap_range_def require_mapped_range_def by (auto split: if_splits)
  obtain n where n: "len = n * 4096" "canonical_pages va n" using v(1) assms(3) validate_virtual_OK by blast
  have "\<forall>j < n. small_leaf (leaf_of st (va + j * 4096))"
    using v(3) unfolding mapped_pages_OK [OF assms(1)] n(1) page_offsets_pages by auto
  then have small: "small_leaf (leaf_of st va')" if "address_is_canonical va'" "in_pages va 0 n va'" for va'
    using that unfolding pages_leaf_iff [OF n(2)] by blast
  have "st' = fold (\<lambda>offset. clear_page 1 (va + offset)) (map (\<lambda>k. k * 4096) [0 ..< n]) st"
    unfolding v(2) clear_range_def page_size_1 n(1) page_offsets_pages ..
  then have "hierarchy_ok st' \<and> flushed st st' \<and> (\<forall>va'. address_is_canonical va' \<longrightarrow>
    leaf_of st' va' = (if in_pages va 0 n va' then None else leaf_of st va'))"
  proof (rule clear_pages_view [OF assms(1) n(2), rotated -1])
    show "lv = 1" if "address_is_canonical va'" "in_pages va 0 n va'" "leaf_of st va' = Some (lv, f)" for va' lv f
      using small [OF that(1,2)] that(3) by (simp add: small_leaf_def)
  qed simp
  then show ?thesis by (simp add: True n(1) in_pages_range)
next
  case False
  then have "st' = st" using assms(2) by (auto simp: unmap_range_def split: if_splits)
  then show ?thesis using assms(1) False by simp
qed

section \<open>Changing permissions\<close>

definition protected_leaf :: "u32 \<Rightarrow> leaf option \<Rightarrow> leaf option" where
  "protected_leaf p x = map_option (\<lambda>(level, e, _). page_leaf (frame_of e) p) x"

lemma frame_of_less: "frame_of e < 2 ^ 52"
proof -
  have "take_bit 52 (e AND PAGE_FRAME_MASK) = e AND PAGE_FRAME_MASK"
    by (rule bit_word_eqI) (auto simp: bit_take_bit_iff bit_and_iff bit_frame_mask)
  then have "take_bit 52 (frame_of e) = frame_of e"
    unfolding frame_of_def by (metis unsigned_take_bit_eq)
  then show ?thesis by (simp add: take_bit_nat_eq_self_iff)
qed

lemma protect_entry: "e AND PAGE_FRAME_MASK OR permissions_to_flags p = compose_entry (frame_of e) p False"
proof -
  have "e AND PAGE_FRAME_MASK = of_nat (frame_of e)" by (simp add: frame_of_def)
  then show ?thesis by (simp add: compose_entry_def)
qed

lemma protect_page_view:
  assumes ok: "hierarchy_ok st" and range: "canonical_pages va n" "j < n"
    and small: "small_leaf (leaf_of st (va + j * 4096))" and st': "st' = protect_page p (va + j * 4096) st"
  shows "hierarchy_ok st' \<and> flushed st st' \<and> (\<forall>va'. address_is_canonical va' \<longrightarrow>
    leaf_of st' va' = (if in_pages va j (Suc j) va' then protected_leaf p (leaf_of st va') else leaf_of st va'))"
proof (cases rule: entry_for_cases [of "va + j * 4096" st])
  case (table s)
  define e where "e = pe_tables st s (table_index (va + j * 4096) 1)"
  have plain: "plain_links (pe_tables st) (root_of st)" using ok by (simp add: hierarchy_ok_def)
  have eq: "st' = invalidate (va + j * 4096) (set_entry s (table_index (va + j * 4096) 1)
      (compose_entry (frame_of e) p False) st)"
    unfolding st' protect_page_def table(1) e_def protect_entry by simp
  note W = write_page [OF ok range table(2) eq]
  have leaf: "leaf_of st (va + j * 4096) = Some (1, e, bit e 1, \<not> bit e 63, False)"
    using leaf_of_table [OF plain table(2)] small by (simp add: e_def Let_def small_leaf_def split: if_splits)
  have "protected_leaf p (leaf_of st va') = Some (page_leaf (frame_of e) p)"
    if "address_is_canonical va'" "in_pages va j (Suc j) va'" for va'
    using leaf leaf_of_in_page [OF range that(2,1), of st] by (simp add: protected_leaf_def)
  then show ?thesis
    using W(1,2) W(3) [unfolded leaf_compose [OF frame_of_aligned frame_of_less refl]] by simp
qed (use small in \<open>simp_all add: small_leaf_def\<close>)

lemma protect_pages_view:
  assumes "hierarchy_ok st" "canonical_pages va n" "j \<le> n"
    and "\<And>k. j \<le> k \<Longrightarrow> k < n \<Longrightarrow> small_leaf (leaf_of st (va + k * 4096))"
    and "st' = fold (\<lambda>offset. protect_page p (va + offset)) (map (\<lambda>k. k * 4096) [j ..< n]) st"
  shows "hierarchy_ok st' \<and> flushed st st' \<and> (\<forall>va'. address_is_canonical va' \<longrightarrow>
    leaf_of st' va' = (if in_pages va j n va' then protected_leaf p (leaf_of st va') else leaf_of st va'))"
  using assms
proof (induction "n - j" arbitrary: j st)
  case 0
  then show ?case by (auto simp: in_pages_def)
next
  case (Suc k)
  have j: "j < n" using Suc.hyps(2) by simp
  let ?st = "protect_page p (va + j * 4096) st"
  have C: "hierarchy_ok ?st" "flushed st ?st" "\<And>va'. address_is_canonical va' \<Longrightarrow>
      leaf_of ?st va' = (if in_pages va j (Suc j) va' then protected_leaf p (leaf_of st va') else leaf_of st va')"
    using protect_page_view [OF Suc.prems(1,2) j Suc.prems(4) [OF le_refl j] refl] by blast+
  have later: "\<not> in_pages va j (Suc j) va'" if "in_pages va (Suc j) n va'" for va'
    using that by (simp add: in_pages_def)
  have "st' = fold (\<lambda>offset. protect_page p (va + offset)) (map (\<lambda>k. k * 4096) [Suc j ..< n]) ?st"
    using Suc.prems(5) j by (simp add: upt_conv_Cons)
  then have "hierarchy_ok st' \<and> flushed ?st st' \<and> (\<forall>va'. address_is_canonical va' \<longrightarrow>
      leaf_of st' va' = (if in_pages va (Suc j) n va' then protected_leaf p (leaf_of ?st va') else leaf_of ?st va'))"
  proof (rule Suc.hyps(1) [OF _ C(1) Suc.prems(2), rotated -1])
    fix k assume k: "Suc j \<le> k" "k < n"
    have "address_is_canonical (va + k * 4096)" using Suc.prems(2) k by (simp add: canonical_pages_def)
    moreover have "in_pages va (Suc j) n (va + k * 4096)" using k by (simp add: in_pages_def)
    ultimately show "small_leaf (leaf_of ?st (va + k * 4096))"
      using C(3) later Suc.prems(4) [of k] k by simp
  qed (use Suc.hyps(2) j in simp_all)
  then show ?case using C flushed_trans later by (auto simp: in_pages_step [OF j])
qed

lemma protect_range_view:
  assumes "hierarchy_ok st" "protect_range va len p pat st = (status, st')" "len \<le> 2 ^ 63"
  shows "hierarchy_ok st' \<and> flushed st st' \<and> (\<forall>va'. address_is_canonical va' \<longrightarrow>
    leaf_of st' va' = (if status = PAGING_STATUS_OK \<and> va \<le> va' \<and> va' < va + len
      then protected_leaf p (leaf_of st va') else leaf_of st va'))"
proof (cases "status = PAGING_STATUS_OK")
  case True
  have v: "validate_virtual_range va len 4096 = PAGING_STATUS_OK" "st' = apply_permissions va len p st"
    "mapped_pages va (page_offsets len 4096) st = PAGING_STATUS_OK"
    using assms(2) True unfolding protect_range_def require_mapped_range_def by (auto simp: Let_def split: if_splits)
  obtain n where n: "len = n * 4096" "canonical_pages va n" using v(1) assms(3) validate_virtual_OK by blast
  have "\<forall>j < n. small_leaf (leaf_of st (va + j * 4096))"
    using v(3) unfolding mapped_pages_OK [OF assms(1)] n(1) page_offsets_pages by auto
  moreover have "st' = fold (\<lambda>offset. protect_page p (va + offset)) (map (\<lambda>k. k * 4096) [0 ..< n]) st"
    unfolding v(2) apply_permissions_def n(1) page_offsets_pages ..
  ultimately have "hierarchy_ok st' \<and> flushed st st' \<and> (\<forall>va'. address_is_canonical va' \<longrightarrow>
    leaf_of st' va' = (if in_pages va 0 n va' then protected_leaf p (leaf_of st va') else leaf_of st va'))"
    by (intro protect_pages_view [OF assms(1) n(2)]) simp_all
  then show ?thesis by (simp add: True n(1) in_pages_range)
next
  case False
  then have "st' = st" using assms(2) by (auto simp: protect_range_def Let_def split: if_splits)
  then show ?thesis using assms(1) False by simp
qed

end
