(* ===== verification/Paging.thy ===== *)
theory Paging
  imports Page_Ranges
begin

text \<open>
  The public calls of \<open>src/kernel/paging.c\<close> on the live hierarchy, with the registry of supervisor
  mappings that new process hierarchies replay.
\<close>

section \<open>State\<close>

record supervisor_mapping_intent =
  si_virtual_address :: nat
  si_physical_address :: nat
  si_length :: nat
  si_permissions :: u32

text \<open>The fields of \<open>state\<close> these calls use, the registry (the first \<open>supervisor_intent_count\<close> entries
  of the array) and the tables, with the live hierarchy.\<close>

record paging_system =
  ps_active :: bool
  ps_pat_after :: u64
  ps_table_frames :: nat
  ps_intents :: "supervisor_mapping_intent list"
  ps_store :: paging_store

definition PAGING_SUPERVISOR_INTENT_CAPACITY :: nat where "PAGING_SUPERVISOR_INTENT_CAPACITY = 8192"

section \<open>The registry\<close>

fun find_intent :: "nat \<Rightarrow> nat \<Rightarrow> nat \<Rightarrow> supervisor_mapping_intent list \<Rightarrow> nat option" where
  "find_intent address len index [] = None"
| "find_intent address len index (i # rest) =
     (if si_virtual_address i = address \<and> si_length i = len then Some index
      else find_intent address len (Suc index) rest)"

definition supervisor_intent_find :: "nat \<Rightarrow> nat \<Rightarrow> paging_system \<Rightarrow> nat option" where
  "supervisor_intent_find address len s = find_intent address len 0 (ps_intents s)"

definition supervisor_intent_add :: "nat \<Rightarrow> nat \<Rightarrow> nat \<Rightarrow> u32 \<Rightarrow> paging_system \<Rightarrow> paging_status \<times> paging_system" where
  "supervisor_intent_add virtual_address physical_address len permissions s =
     (if length (ps_intents s) = PAGING_SUPERVISOR_INTENT_CAPACITY
      then (PAGING_STATUS_SUPERVISOR_INTENT_FULL, s)
      else (PAGING_STATUS_OK, s\<lparr>ps_intents := ps_intents s @
        [\<lparr>si_virtual_address = virtual_address, si_physical_address = physical_address,
          si_length = len, si_permissions = permissions\<rparr>]\<rparr>))"

text \<open>The entries behind \<open>index\<close> move down one place, then the count drops by one.\<close>

definition supervisor_intent_remove :: "nat \<Rightarrow> paging_system \<Rightarrow> paging_system" where
  "supervisor_intent_remove index s =
     (let intents = ps_intents s in
      if index \<ge> length intents then s
      else s\<lparr>ps_intents := take (length intents - 1)
        (fold (\<lambda>move a. a[move - 1 := a ! move]) [index + 1 ..< length intents] intents)\<rparr>)"

fun replay_intents :: "supervisor_mapping_intent list \<Rightarrow> paging_store \<Rightarrow> paging_status \<times> paging_store" where
  "replay_intents [] st = (PAGING_STATUS_OK, st)"
| "replay_intents (i # rest) st =
     (case map_range (si_virtual_address i) (si_physical_address i) (si_length i) (si_permissions i) 1 st of
        (status, st1) \<Rightarrow> if status \<noteq> PAGING_STATUS_OK then (status, st1) else replay_intents rest st1)"

definition replay_supervisor_intent :: "paging_system \<Rightarrow> paging_store \<Rightarrow> paging_status \<times> paging_store" where
  "replay_supervisor_intent s st = replay_intents (ps_intents s) st"

section \<open>Calls\<close>

definition report_frames :: "paging_system \<Rightarrow> paging_system" where
  "report_frames s = s\<lparr>ps_table_frames := ph_table_frames (pe_hierarchy (ps_store s))\<rparr>"

definition paging_map :: "nat \<Rightarrow> nat \<Rightarrow> nat \<Rightarrow> u32 \<Rightarrow> paging_system \<Rightarrow> paging_status \<times> paging_system" where
  "paging_map virtual_address physical_address len permissions s =
     (if \<not> ps_active s then (PAGING_STATUS_NOT_INITIALIZED, s)
      else
        (case map_range virtual_address physical_address len permissions 1 (ps_store s) of
           (status, st1) \<Rightarrow>
             if status \<noteq> PAGING_STATUS_OK then (status, report_frames (s\<lparr>ps_store := st1\<rparr>))
             else
               (case supervisor_intent_add virtual_address physical_address len permissions (s\<lparr>ps_store := st1\<rparr>) of
                  (status, s2) \<Rightarrow>
                    if status \<noteq> PAGING_STATUS_OK
                    then (status, report_frames (s2\<lparr>ps_store := snd (unmap_range virtual_address len (ps_store s2))\<rparr>))
                    else (status, report_frames s2))))"

definition paging_unmap :: "nat \<Rightarrow> nat \<Rightarrow> paging_system \<Rightarrow> paging_status \<times> paging_system" where
  "paging_unmap virtual_address len s =
     (if \<not> ps_active s then (PAGING_STATUS_NOT_INITIALIZED, s)
      else
        (let intent = supervisor_intent_find virtual_address len s in
         case unmap_range virtual_address len (ps_store s) of
           (status, st1) \<Rightarrow>
             (let s1 = s\<lparr>ps_store := st1\<rparr>;
                  s2 = (case intent of
                          Some index \<Rightarrow> if status = PAGING_STATUS_OK then supervisor_intent_remove index s1 else s1
                        | None \<Rightarrow> s1) in
              (status, report_frames s2))))"

definition paging_protect :: "nat \<Rightarrow> nat \<Rightarrow> u32 \<Rightarrow> paging_system \<Rightarrow> paging_status \<times> paging_system" where
  "paging_protect virtual_address len permissions s =
     (let intent = supervisor_intent_find virtual_address len s in
      if \<not> ps_active s then (PAGING_STATUS_NOT_INITIALIZED, s)
      else
        (case protect_range virtual_address len permissions (ps_pat_after s) (ps_store s) of
           (status, st1) \<Rightarrow>
             (let s1 = s\<lparr>ps_store := st1\<rparr> in
              (status,
               case intent of
                 Some index \<Rightarrow>
                   if status = PAGING_STATUS_OK
                   then s1\<lparr>ps_intents := (ps_intents s1)[index := (ps_intents s1 ! index)\<lparr>si_permissions := permissions\<rparr>]\<rparr>
                   else s1
               | None \<Rightarrow> s1))))"

definition paging_translate ::
    "nat \<Rightarrow> paging_translation option \<Rightarrow> paging_system \<Rightarrow> paging_status \<times> paging_translation option" where
  "paging_translate virtual_address translation s =
     (case translation of
        None \<Rightarrow> (PAGING_STATUS_NULL_ARGUMENT, None)
      | Some _ \<Rightarrow>
          if \<not> ps_active s then (PAGING_STATUS_NOT_INITIALIZED, Some empty_translation)
          else map_prod id Some (translate_address virtual_address (ps_pat_after s) (ps_store s)))"

definition empty_audit :: paging_audit where
  "empty_audit = \<lparr>pa_leaf_count = 0, pa_huge_leaves = 0, pa_writable_leaves = 0, pa_executable_leaves = 0,
     pa_write_execute_leaves = 0, pa_user_leaves = 0\<rparr>"

definition paging_audit_hierarchy :: "paging_audit option \<Rightarrow> paging_system \<Rightarrow> paging_status \<times> paging_audit option" where
  "paging_audit_hierarchy audit s =
     (case audit of
        None \<Rightarrow> (PAGING_STATUS_NULL_ARGUMENT, None)
      | Some _ \<Rightarrow>
          if \<not> ps_active s then (PAGING_STATUS_NOT_INITIALIZED, Some empty_audit)
          else (PAGING_STATUS_OK, Some (audit_hierarchy (ps_store s))))"

section \<open>Translations\<close>

text \<open>The translation of an address in a page mapped to \<open>a\<close> with permissions \<open>p\<close>.\<close>

definition page_translation :: "nat \<Rightarrow> u32 \<Rightarrow> paging_translation" where
  "page_translation a p = \<lparr>tr_physical_address = a, tr_permissions = p,
     tr_memory_type = (if bit p 2 then PAGING_MEMORY_UNCACHEABLE else if bit p 3 then PAGING_MEMORY_WRITE_COMBINING
       else PAGING_MEMORY_WRITE_BACK),
     tr_level = 1, tr_user = False\<rparr>"

lemma page_address:
  assumes "4096 dvd a" "a < 2 ^ 52"
  shows "(a AND not64 4095) OR (va AND 4095) = a + va mod 4096"
proof -
  have "a AND not64 4095 = a" using page_floor [of a] assms by auto
  moreover have "va AND 4095 = take_bit 12 va" using and_low_mask [of va 12] by (simp add: take_bit_eq_mod)
  moreover have "a + take_bit 12 va = a OR take_bit 12 va"
  proof (rule disjunctive_add)
    have "take_bit 12 a = 0" using assms(1) by (simp add: take_bit_eq_mod mod_eq_0_iff_dvd)
    then show "\<not> bit a n \<or> \<not> bit (take_bit 12 va) n" for n by (metis bit_0_eq bit_take_bit_iff bot_apply bot_bool_def)
  qed
  ultimately show ?thesis by (simp add: take_bit_eq_mod)
qed

lemma translate_page:
  assumes "leaf_of st va = Some (page_leaf a p)" "address_is_canonical va" "4096 dvd a" "a < 2 ^ 52"
    and "validate_permissions p = PAGING_STATUS_OK" "pat_ready pat"
  shows "translate_address va pat st = (PAGING_STATUS_OK, page_translation (a + va mod 4096) p)"
proof -
  have type: "leaf_memory_type (compose_entry a p False) 1 pat = tr_memory_type (page_translation (a + va mod 4096) p)"
    using memory_type_compose [OF assms(5,6,3,4), of 1 False] by (simp add: page_translation_def)
  have entry: "compose_entry a p False AND PAGE_WRITABLE \<noteq> 0 \<longleftrightarrow> bit p 0"
    "compose_entry a p False AND PAGE_NO_EXECUTE = 0 \<longleftrightarrow> bit p 1"
    using bit_compose_entry [OF assms(3,4), of p False] by (simp_all add: entry_bits)
  have "PAGING_READ OR (if bit p 0 then PAGING_WRITE else 0) OR (if bit p 1 then PAGING_EXECUTE else 0) OR
      memory_type_permission (leaf_memory_type (compose_entry a p False) 1 pat) = p"
    using flags_to_permissions_compose [OF assms(5,6,3,4), of 1 False]
    unfolding flags_to_permissions_def entry by simp
  then have "fill_translation (compose_entry a p False) va 1 (bit p 0) (bit p 1) False pat = page_translation (a + va mod 4096) p"
    using page_address [OF assms(3,4), of va] unfolding fill_translation_def page_size_1 Let_def type
    by (simp add: frame_of_compose [OF assms(3,4)] page_translation_def)
  then show ?thesis using assms(1,2) unfolding leaf_of_def by (simp add: translate_address_def page_leaf_def)
qed

lemma translate_same:
  "leaf_of st' va = leaf_of st va \<Longrightarrow> translate_address va pat st' = translate_address va pat st"
  by (simp add: translate_address_def leaf_of_def)

lemma translate_none:
  "leaf_of st va = None \<Longrightarrow> address_is_canonical va \<Longrightarrow>
    translate_address va pat st = (PAGING_STATUS_NOT_MAPPED, empty_translation)"
  by (simp add: translate_address_def leaf_of_def)

section \<open>The calls and the view\<close>

definition paging_ok :: "paging_system \<Rightarrow> bool" where
  "paging_ok s \<longleftrightarrow> ps_active s \<and> pat_ready (ps_pat_after s) \<and> hierarchy_ok (ps_store s)"

text \<open>What an address translates to.\<close>

abbreviation view :: "paging_system \<Rightarrow> nat \<Rightarrow> paging_status \<times> paging_translation" where
  "view s va \<equiv> translate_address va (ps_pat_after s) (ps_store s)"

lemma report_frames_keeps [simp]:
  "ps_active (report_frames s) = ps_active s" "ps_pat_after (report_frames s) = ps_pat_after s"
  "ps_intents (report_frames s) = ps_intents s" "ps_store (report_frames s) = ps_store s"
  by (simp_all add: report_frames_def)

lemma supervisor_intent_remove_keeps [simp]:
  "ps_active (supervisor_intent_remove i s) = ps_active s" "ps_pat_after (supervisor_intent_remove i s) = ps_pat_after s"
  "ps_store (supervisor_intent_remove i s) = ps_store s"
  by (simp_all add: supervisor_intent_remove_def Let_def)


lemma unmap_range_succeeds:
  assumes "hierarchy_ok st" "validate_virtual_range va len 4096 = PAGING_STATUS_OK" "len \<le> 2 ^ 63"
    and "\<And>va'. address_is_canonical va' \<Longrightarrow> va \<le> va' \<Longrightarrow> va' < va + len \<Longrightarrow> small_leaf (leaf_of st va')"
  shows "fst (unmap_range va len st) = PAGING_STATUS_OK"
proof -
  obtain n where n: "len = n * 4096" "canonical_pages va n" using assms(2,3) validate_virtual_OK by blast
  have "\<forall>j < n. small_leaf (leaf_of st (va + j * 4096))"
    unfolding pages_leaf_iff [OF n(2)] using assms(4) by (simp add: in_pages_range n(1))
  then have "mapped_pages va (page_offsets len 4096) st = PAGING_STATUS_OK"
    unfolding mapped_pages_OK [OF assms(1)] n(1) page_offsets_pages by auto
  then show ?thesis using assms(2) by (simp add: unmap_range_def require_mapped_range_def)
qed

lemma map_range_valid:
  assumes "map_range va pa len p 1 st = (PAGING_STATUS_OK, st')"
  shows "validate_virtual_range va len 4096 = PAGING_STATUS_OK" "len \<le> 2 ^ 63" "4096 dvd va" "4096 dvd pa"
    "pa + len \<le> 2 ^ 52" "validate_permissions p = PAGING_STATUS_OK" "0 < len"
proof -
  have v: "validate_permissions p = PAGING_STATUS_OK" "validate_virtual_range va len 4096 = PAGING_STATUS_OK"
    "validate_physical_range pa len 4096 = PAGING_STATUS_OK"
    using assms unfolding map_range_def page_size_1 Let_def by (auto split: if_splits)
  then show "validate_permissions p = PAGING_STATUS_OK" "validate_virtual_range va len 4096 = PAGING_STATUS_OK" by simp_all
  show "4096 dvd pa" "pa + len \<le> 2 ^ 52"
    using v(3) unfolding validate_physical_range_def aligned_iff PAGE_PHYSICAL_LIMIT_def by (auto split: if_splits)
  then show "len \<le> 2 ^ 63" by simp
  show "4096 dvd va" "0 < len"
    using v(2) unfolding validate_virtual_range_def aligned_iff by (auto split: if_splits)
qed

text \<open>A mapping just made can be unmapped, and that restores every leaf.\<close>

lemma map_unmap_range:
  assumes "hierarchy_ok st" "map_range va pa len p 1 st = (PAGING_STATUS_OK, st1)" "unmap_range va len st1 = (status, st2)"
  shows "status = PAGING_STATUS_OK" "hierarchy_ok st2" "flushed st st2"
    "address_is_canonical va' \<Longrightarrow> leaf_of st2 va' = leaf_of st va'"
proof -
  note V = map_range_valid [OF assms(2)]
  have M: "hierarchy_ok st1" "flushed st st1" "\<And>va'. address_is_canonical va' \<Longrightarrow>
    leaf_of st1 va' = (if va \<le> va' \<and> va' < va + len
      then Some (page_leaf (pa + (va' - va) div 4096 * 4096) p) else leaf_of st va')"
    using map_range_view [OF assms(1,2)] by simp_all
  have "fst (unmap_range va len st1) = PAGING_STATUS_OK"
    by (rule unmap_range_succeeds [OF M(1) V(1,2)]) (simp add: M(3) page_leaf_def small_leaf_def)
  then show ok: "status = PAGING_STATUS_OK" using assms(3) by simp
  note U = unmap_range_view [OF M(1) assms(3) V(2)]
  then show "hierarchy_ok st2" "flushed st st2" using M(2) flushed_trans by blast+
  have "leaf_of st va' = None" if "address_is_canonical va'" "va \<le> va'" "va' < va + len" for va'
  proof -
    obtain n where "len = n * 4096"
      "\<And>va'. address_is_canonical va' \<Longrightarrow> in_pages va 0 n va' \<Longrightarrow> leaf_of st va' = None"
      using assms(1,2) by (rule map_range_OK) auto
    then show ?thesis using that by (simp add: in_pages_range)
  qed
  then show "leaf_of st2 va' = leaf_of st va'" if "address_is_canonical va'"
    using U M(3) that ok by simp
qed

lemma paging_map_view:
  assumes ok: "paging_ok s" and call: "paging_map va pa len p s = (status, s')"
  shows "paging_ok s' \<and> flushed (ps_store s) (ps_store s') \<and> ps_pat_after s' = ps_pat_after s \<and>
    (\<forall>va'. address_is_canonical va' \<longrightarrow>
      leaf_of (ps_store s') va' = (if status = PAGING_STATUS_OK \<and> va \<le> va' \<and> va' < va + len
        then Some (page_leaf (pa + (va' - va) div 4096 * 4096) p) else leaf_of (ps_store s) va')) \<and>
    (status = PAGING_STATUS_OK \<longrightarrow> fst (map_range va pa len p 1 (ps_store s)) = PAGING_STATUS_OK \<and>
      ps_intents s' = ps_intents s @ [\<lparr>si_virtual_address = va, si_physical_address = pa, si_length = len, si_permissions = p\<rparr>]) \<and>
    (status \<noteq> PAGING_STATUS_OK \<longrightarrow> ps_intents s' = ps_intents s)"
proof -
  have s: "ps_active s" "pat_ready (ps_pat_after s)" "hierarchy_ok (ps_store s)" using ok by (simp_all add: paging_ok_def)
  obtain m st1 where m: "map_range va pa len p 1 (ps_store s) = (m, st1)" by fastforce
  note M = map_range_view [OF s(3) m]
  consider "m \<noteq> PAGING_STATUS_OK" | "m = PAGING_STATUS_OK" "length (ps_intents s) = PAGING_SUPERVISOR_INTENT_CAPACITY"
    | "m = PAGING_STATUS_OK" "length (ps_intents s) \<noteq> PAGING_SUPERVISOR_INTENT_CAPACITY" by blast
  then show ?thesis
  proof cases
    case 1
    then show ?thesis using call s m M by (auto simp: paging_map_def paging_ok_def)
  next
    case 2
    obtain u st2 where u: "unmap_range va len st1 = (u, st2)" by fastforce
    have "status \<noteq> PAGING_STATUS_OK" "ps_store s' = st2" "ps_active s'" "ps_pat_after s' = ps_pat_after s"
      "ps_intents s' = ps_intents s"
      using call s m 2 u by (auto simp: paging_map_def supervisor_intent_add_def)
    then show ?thesis using s map_unmap_range [OF s(3) m [unfolded 2(1)] u] by (simp add: paging_ok_def)
  next
    case 3
    then show ?thesis using call s m M by (auto simp: paging_map_def supervisor_intent_add_def paging_ok_def)
  qed
qed

lemma paging_unmap_view:
  assumes ok: "paging_ok s" and call: "paging_unmap va len s = (status, s')" and len: "len \<le> 2 ^ 63"
  shows "paging_ok s' \<and> flushed (ps_store s) (ps_store s') \<and> ps_pat_after s' = ps_pat_after s \<and>
    (\<forall>va'. address_is_canonical va' \<longrightarrow> leaf_of (ps_store s') va' =
      (if status = PAGING_STATUS_OK \<and> va \<le> va' \<and> va' < va + len then None else leaf_of (ps_store s) va'))"
proof -
  have s: "ps_active s" "pat_ready (ps_pat_after s)" "hierarchy_ok (ps_store s)" using ok by (simp_all add: paging_ok_def)
  obtain u st1 where u: "unmap_range va len (ps_store s) = (u, st1)" by fastforce
  have "status = u" "ps_store s' = st1" "ps_active s'" "ps_pat_after s' = ps_pat_after s"
    using call s u by (auto simp: paging_unmap_def Let_def split: option.splits)
  then show ?thesis using s unmap_range_view [OF s(3) u len] by (simp add: paging_ok_def)
qed

lemma paging_protect_view:
  assumes ok: "paging_ok s" and call: "paging_protect va len p s = (status, s')" and len: "len \<le> 2 ^ 63"
  shows "paging_ok s' \<and> flushed (ps_store s) (ps_store s') \<and> ps_pat_after s' = ps_pat_after s \<and>
    (\<forall>va'. address_is_canonical va' \<longrightarrow> leaf_of (ps_store s') va' =
      (if status = PAGING_STATUS_OK \<and> va \<le> va' \<and> va' < va + len then protected_leaf p (leaf_of (ps_store s) va')
       else leaf_of (ps_store s) va'))"
proof -
  have s: "ps_active s" "pat_ready (ps_pat_after s)" "hierarchy_ok (ps_store s)" using ok by (simp_all add: paging_ok_def)
  obtain u st1 where u: "protect_range va len p (ps_pat_after s) (ps_store s) = (u, st1)" by fastforce
  have "status = u" "ps_store s' = st1" "ps_active s'" "ps_pat_after s' = ps_pat_after s"
    using call s u by (auto simp: paging_protect_def Let_def split: option.splits)
  then show ?thesis using s protect_range_view [OF s(3) u len] by (simp add: paging_ok_def)
qed


section \<open>Progress\<close>

lemma frame_allocate_free:
  assumes "frames_ok st" "fa_initialized st" "0 < fs_free_frames (fa_stats st)"
  obtains a st' where "frame_allocate (Some d) st = (FRAME_STATUS_OK, Some a, st')"
    "fs_free_frames (fa_stats st') = fs_free_frames (fa_stats st) - 1"
proof -
  have stats: "fa_stats st = stats_of st" using assms(1,2) by (rule frames_okD)
  then have "frames_with (frame_free st) \<noteq> {}" using assms(3) by (auto simp: stats_of_def)
  then obtain f where f: "f < FRAME_COUNT" "frame_free st f" by (auto simp: frames_with_def)
  have "search_pass st ISA_DMA_FRAME_LIMIT FRAME_COUNT \<noteq> None \<or> search_pass st 0 ISA_DMA_FRAME_LIMIT \<noteq> None"
    using search_pass_None [OF _ FRAME_COUNT_pass(1), of st f] search_pass_None [OF _ FRAME_COUNT_pass(2), of st f]
      f by fastforce
  then have "\<exists>a st'. frame_allocate (Some d) st = (FRAME_STATUS_OK, Some a, st')"
    using assms(2,3) by (cases "search_pass st ISA_DMA_FRAME_LIMIT FRAME_COUNT") (auto simp: frame_allocate_def)
  then obtain a st' where a: "frame_allocate (Some d) st = (FRAME_STATUS_OK, Some a, st')" by blast
  moreover obtain g where "st' = take_frame st g" using a by (rule frame_allocate_OK) blast
  moreover have "sub64 (fs_free_frames (fa_stats st)) 1 = fs_free_frames (fa_stats st) - 1"
    using assms(3) stats_bounds(1) [of st] stats by (intro sub64_exact) simp_all
  ultimately show thesis by (intro that [of a st']) (simp_all add: take_frame_def)
qed

abbreviation free_frames :: "paging_store \<Rightarrow> nat" where
  "free_frames st \<equiv> fs_free_frames (fa_stats (pe_frames st))"

definition failure_armed :: "paging_store \<Rightarrow> bool" where
  "failure_armed st \<longleftrightarrow> ptf_armed (pe_failure st) \<and> ph_process (pe_hierarchy st)"

text \<open>The count of tables is positive and does not wrap even if every free frame becomes a table.\<close>

definition counted :: "paging_store \<Rightarrow> bool" where
  "counted st \<longleftrightarrow> 0 < ph_table_frames (pe_hierarchy st) \<and> ph_table_frames (pe_hierarchy st) + free_frames st < 2 ^ 64"

lemma allocate_table_free:
  assumes "frames_ok (pe_frames st)" "fa_initialized (pe_frames st)" "ph_arena_capacity (pe_hierarchy st) = 0"
    and "0 < free_frames st" "\<not> failure_armed st"
  obtains n st' where "allocate_table st = (Inr n, st')" "free_frames st' = free_frames st - 1"
    "\<not> failure_armed st'" "pe_tables st' = (pe_tables st)(n := (\<lambda>_. 0))"
    "ph_table_frames (pe_hierarchy st) + free_frames st < 2 ^ 64 \<longrightarrow> counted st'"
proof -
  note h = assms(1-3)
  obtain a F where F: "frame_allocate (Some 0) (pe_frames st) = (FRAME_STATUS_OK, Some a, F)"
    "fs_free_frames (fa_stats F) = free_frames st - 1"
    using h(1,2) assms(4) by (rule frame_allocate_free)
  have c: "count_failure st = (False, st)" using assms(5) by (auto simp: count_failure_def failure_armed_def Let_def)
  obtain r st' where r: "allocate_table st = (r, st')" by fastforce
  have "a < RSD_EARLY_PHYSICAL_LIMIT"
    using frame_allocate_owned(4) [OF h(1) F(1)] by (simp add: FRAME_COUNT_eq div_less_iff_less_mult)
  then have "r = Inr a" "st' = (zero_table a (st\<lparr>pe_frames := F\<rparr>))\<lparr>pe_hierarchy :=
      (pe_hierarchy st)\<lparr>ph_table_frames := add64 (ph_table_frames (pe_hierarchy st)) 1\<rparr>\<rparr>"
    using r c F(1) h(3) by (simp_all add: allocate_table_def supply_table_def)
  then show thesis using r F(2) assms(4,5)
    by (intro that [of a st']) (simp_all add: zero_table_def failure_armed_def counted_def add64_def)
qed

text \<open>A walk that creates tables succeeds on an address with no leaf when there are frames enough. It leaves
  the other vacant regions vacant.\<close>

definition walked :: "nat \<Rightarrow> paging_store \<Rightarrow> paging_store \<Rightarrow> bool" where
  "walked va st st' \<longleftrightarrow> \<not> failure_armed st' \<and> (counted st \<longrightarrow> counted st') \<and>
     (\<forall>va'. vacant st va' \<longrightarrow> seg 4 1 va' \<noteq> seg 4 1 va \<longrightarrow> vacant st' va')"

lemma entry_walk_progress:
  assumes "hierarchy_ok st" "node (pe_tables st) (root_of st) (seg 4 (Suc l) va) = Some t" "l < 4"
    and "l \<le> free_frames st" "\<not> failure_armed st" "translate_walk (pe_tables st) va (Suc l) t w x u = None"
    and "1 \<le> target" "target \<le> Suc l"
  shows "\<exists>s st'. entry_walk (Suc l) target va True t st = (Inr s, st') \<and> free_frames st - l \<le> free_frames st' \<and> walked va st st'"
  using assms
proof (induction l arbitrary: t st w x u)
  case 0
  then have "target = 1" by simp
  then show ?case using 0(5) by (simp add: walked_def)
next
  case (Suc l)
  let ?i = "table_index va (Suc (Suc l))"
  let ?e = "pe_tables st t ?i"
  show ?case
  proof (cases "target = Suc (Suc l)")
    case True
    then show ?thesis using Suc.prems(5) by (simp add: walked_def)
  next
    case other: False
    then have target: "target \<le> Suc l" using Suc.prems(8) by simp
    show ?thesis
    proof (cases "bit ?e 0")
      case present: True
      have walk: "\<not> bit ?e 7" "translate_walk (pe_tables st) va (Suc l) (frame_of ?e) (w \<and> bit ?e 1) (x \<and> \<not> bit ?e 63) (u \<and> bit ?e 2) = None"
        using Suc.prems(6) present unfolding translate_walk.simps(2) [of _ _ "Suc l"]
        by (auto simp: Let_def entry_bits split: if_splits)
      have "node (pe_tables st) (root_of st) (seg 4 (Suc l) va) = Some (frame_of ?e)"
        using Suc.prems(2,3) present walk(1) by (simp add: seg_snoc [of "Suc l"] node_snoc interior_def)
      from Suc.IH [OF Suc.prems(1) this _ _ Suc.prems(5) walk(2) Suc.prems(7) target] Suc.prems(3,4)
      obtain s st' where "entry_walk (Suc l) target va True (frame_of ?e) st = (Inr s, st')"
        "free_frames st - l \<le> free_frames st'" "walked va st st'" by auto
      then show ?thesis
        using present walk(1) target unfolding entry_walk.simps(2) [of "Suc l"]
        by (auto simp: Let_def entry_bits simp del: entry_walk.simps)
    next
      case absent: False
      have ok: "frames_ok (pe_frames st)" "fa_initialized (pe_frames st)" "ph_arena_capacity (pe_hierarchy st) = 0"
        "0 < free_frames st"
        using Suc.prems(1,4) by (simp_all add: hierarchy_ok_def)
      then obtain n st1 where a: "allocate_table st = (Inr n, st1)" "free_frames st1 = free_frames st - 1"
        "\<not> failure_armed st1" "pe_tables st1 = (pe_tables st)(n := (\<lambda>_. 0))"
        "ph_table_frames (pe_hierarchy st) + free_frames st < 2 ^ 64 \<longrightarrow> counted st1"
        using Suc.prems(5) by (rule allocate_table_free)
      define st2 where "st2 = set_entry t ?i (of_nat n OR PAGE_PRESENT OR PAGE_WRITABLE) st1"
      have link: "hierarchy_ok st2" "node (pe_tables st2) (root_of st2) (seg 4 (Suc l) va) = Some n"
        "vacant st va' \<Longrightarrow> seg 4 1 va' \<noteq> seg 4 1 va \<Longrightarrow> vacant st2 va'" for va'
        using ok(3) a(1)
        by (atomize(full), cases rule: allocate_tableE)
          (use link_table(1,2,5) [OF Suc.prems(1,2) _ Suc.prems(3) absent, of n st2] in \<open>auto simp: st2_def\<close>)
      have tn: "t \<noteq> n"
      proof -
        have "frame_free (pe_frames st) (n div 4096)"
          using ok(3) a(1) frame_allocate_owned(3) ok(1) by (cases rule: allocate_tableE) auto
        from hierarchy_fresh [OF Suc.prems(1) this, of "seg 4 (Suc (Suc l)) va"] show ?thesis using Suc.prems(2) by auto
      qed
      have "translate_walk (pe_tables st2) va (Suc l) n True True True = None"
        using a(4) tn by (simp add: entry_bits st2_def)
      moreover have "\<not> failure_armed st2" using a(3) by (simp add: failure_armed_def set_entry_def st2_def)
      ultimately obtain s st' where "entry_walk (Suc l) target va True n st2 = (Inr s, st')"
        "free_frames st1 - l \<le> free_frames st'" "walked va st2 st'"
        using Suc.IH [OF link(1,2), of True True True] Suc.prems(3,4,7) target a(2) by (fastforce simp: st2_def)
      moreover have "counted st \<longrightarrow> counted st2" using a(5) by (simp add: counted_def st2_def)
      ultimately show ?thesis
        using absent a(1,2) target link(3) unfolding entry_walk.simps(2) [of "Suc l"]
        by (auto simp: Let_def entry_bits st2_def [symmetric] walked_def simp del: entry_walk.simps)
    qed
  qed
qed


lemma map_pages_progress:
  assumes "canonical_pages va n"
    and "hierarchy_ok st" "j \<le> n" "3 * (n - j) \<le> free_frames st" "\<not> failure_armed st"
    and "\<And>k. j \<le> k \<Longrightarrow> k < n \<Longrightarrow> leaf_of st (va + k * 4096) = None"
  shows "\<exists>st'. map_pages va pa p 1 (map (\<lambda>k. k * 4096) [j ..< n]) st = (PAGING_STATUS_OK, st') \<and>
    free_frames st \<le> free_frames st' + 3 * (n - j) \<and> \<not> failure_armed st'"
  using assms(2-)
proof (induction "n - j" arbitrary: j st)
  case 0
  then show ?case by simp
next
  case (Suc d)
  have j: "j < n" using Suc.hyps(2) by simp
  have free: "3 \<le> free_frames st" using Suc.prems(3) j by simp
  have "translate_walk (pe_tables st) (va + j * 4096) (Suc 3) (root_of st) True True True = None"
    using Suc.prems(5) [OF le_refl j] by (simp add: leaf_of_def)
  from entry_walk_progress [OF Suc.prems(1) _ _ free Suc.prems(4) this, of 1]
  obtain s st1 where w: "entry_walk (Suc 3) 1 (va + j * 4096) True (root_of st) st = (Inr s, st1)"
    "free_frames st - 3 \<le> free_frames st1" "\<not> failure_armed st1" by (auto simp: walked_def)
  then have e: "entry_for (va + j * 4096) 1 True st = (Inr (s, table_index (va + j * 4096) 1), st1)"
    by (simp add: entry_for_def del: entry_walk.simps)
  note C = entry_for_create [OF Suc.prems(1) e]
  define st2 where "st2 = invalidate (va + j * 4096)
      (set_entry s (table_index (va + j * 4096) 1) (compose_entry (pa + j * 4096) p False) st1)"
  note W = write_page [OF C(1) assms(1) j C(4) [OF refl, THEN conjunct1] st2_def]
  have "\<exists>st'. map_pages va pa p 1 (map (\<lambda>k. k * 4096) [Suc j ..< n]) st2 = (PAGING_STATUS_OK, st') \<and>
    free_frames st2 \<le> free_frames st' + 3 * (n - Suc j) \<and> \<not> failure_armed st'"
  proof (rule Suc.hyps(1) [OF _ W(1)])
    show "3 * (n - Suc j) \<le> free_frames st2" using w(2) Suc.prems(3) j by (simp add: st2_def)
    show "\<not> failure_armed st2" using w(3) by (simp add: st2_def failure_armed_def set_entry_def invalidate_def)
    fix k assume k: "Suc j \<le> k" "k < n"
    have "address_is_canonical (va + k * 4096)" using assms(1) k by (simp add: canonical_pages_def)
    moreover have "\<not> in_pages va j (Suc j) (va + k * 4096)" using k by (simp add: in_pages_def)
    ultimately show "leaf_of st2 (va + k * 4096) = None" using W(3) C(3) Suc.prems(5) [of k] k by simp
  qed (use Suc.hyps(2) j in simp_all)
  then obtain st' where st': "map_pages va pa p 1 (map (\<lambda>k. k * 4096) [Suc j ..< n]) st2 = (PAGING_STATUS_OK, st')"
    "free_frames st2 \<le> free_frames st' + 3 * (n - Suc j)" "\<not> failure_armed st'" by blast
  have "free_frames st2 = free_frames st1" by (simp add: st2_def)
  then have "free_frames st \<le> free_frames st' + 3 * (n - j)" using w(2) st'(2) j by linarith
  then show ?case using e j st'(1,3) by (simp add: upt_conv_Cons st2_def)
qed

lemma map_range_progress:
  assumes ok: "hierarchy_ok st" and v: "validate_permissions p = PAGING_STATUS_OK"
    "validate_virtual_range va len 4096 = PAGING_STATUS_OK" "validate_physical_range pa len 4096 = PAGING_STATUS_OK"
    and free: "3 * (len div 4096) \<le> free_frames st" "\<not> failure_armed st"
    and none: "\<And>va'. address_is_canonical va' \<Longrightarrow> va \<le> va' \<Longrightarrow> va' < va + len \<Longrightarrow> leaf_of st va' = None"
  shows "\<exists>st'. map_range va pa len p 1 st = (PAGING_STATUS_OK, st') \<and>
    free_frames st \<le> free_frames st' + 3 * (len div 4096) \<and> \<not> failure_armed st'"
proof -
  have "pa + len \<le> 2 ^ 52"
    using v(3) unfolding validate_physical_range_def PAGE_PHYSICAL_LIMIT_def by (auto split: if_splits)
  then have "len \<le> 2 ^ 63" by simp
  then obtain n where n: "0 < n" "len = n * 4096" "canonical_pages va n" using v(2) validate_virtual_OK by blast
  have leaf: "\<forall>k < n. leaf_of st (va + k * 4096) = None"
    unfolding pages_leaf_iff [OF n(3), of "\<lambda>x. x = None"] using none by (simp add: in_pages_range n(2))
  then have "unmapped_pages va 1 (page_offsets len 4096) st = PAGING_STATUS_OK"
    unfolding unmapped_pages_OK [OF ok] n(2) page_offsets_pages by auto
  moreover have "\<exists>st'. map_pages va pa p 1 (map (\<lambda>k. k * 4096) [0 ..< n]) st = (PAGING_STATUS_OK, st') \<and>
    free_frames st \<le> free_frames st' + 3 * (n - 0) \<and> \<not> failure_armed st'"
    by (rule map_pages_progress [OF n(3) ok]) (use free leaf n(2) in simp_all)
  then have "\<exists>st'. map_pages va pa p 1 (page_offsets len 4096) st = (PAGING_STATUS_OK, st') \<and>
    free_frames st \<le> free_frames st' + 3 * (len div 4096) \<and> \<not> failure_armed st'"
    unfolding n(2) page_offsets_pages by simp
  ultimately show ?thesis using v by (simp add: map_range_def page_size_1 [simplified] Let_def)
qed

section \<open>The audit\<close>

text \<open>The walk along given indices, one per level.\<close>

fun walk_along :: "(nat \<Rightarrow> nat \<Rightarrow> u64) \<Rightarrow> (nat \<Rightarrow> nat) \<Rightarrow> nat \<Rightarrow> nat \<Rightarrow> bool \<Rightarrow> bool \<Rightarrow> bool \<Rightarrow> leaf option" where
  "walk_along T f 0 t w x u = None"
| "walk_along T f (Suc l) t w x u =
     (let e = T t (f (Suc l)) in
      if \<not> bit e 0 then None
      else if l = 0 \<or> bit e 7 then Some (Suc l, e, w \<and> bit e 1, x \<and> \<not> bit e 63, u \<and> bit e 2)
      else walk_along T f l (frame_of e) (w \<and> bit e 1) (x \<and> \<not> bit e 63) (u \<and> bit e 2))"

lemma translate_walk_along: "translate_walk T va l t w x u = walk_along T (table_index va) l t w x u"
  by (induction l arbitrary: t w x u) (simp_all add: Let_def entry_bits)

lemma walk_along_cong: "(\<And>k. 1 \<le> k \<Longrightarrow> k \<le> l \<Longrightarrow> f k = g k) \<Longrightarrow> walk_along T f l t w x u = walk_along T g l t w x u"
  by (induction l arbitrary: t w x u) (simp_all add: Let_def)

text \<open>Every choice of indices is the path of a canonical address.\<close>

definition address_along :: "(nat \<Rightarrow> nat) \<Rightarrow> nat" where
  "address_along f = f 4 * 2 ^ 39 + f 3 * 2 ^ 30 + f 2 * 2 ^ 21 + f 1 * 2 ^ 12 +
     (if f 4 < 256 then 0 else 2 ^ 64 - 2 ^ 48)"

lemma address_along:
  assumes "\<And>k. f k < 512"
  shows "address_is_canonical (address_along f)" "1 \<le> k \<Longrightarrow> k \<le> 4 \<Longrightarrow> table_index (address_along f) k = f k"
proof -
  have b: "f 4 < 512" "f 3 < 512" "f 2 < 512" "f 1 < 512" using assms by simp_all
  define h where "h = (if f 4 < 256 then 0 else 65535 :: nat)"
  have eq: "address_along f = (((h * 512 + f 4) * 512 + f 3) * 512 + f 2) * 512 * 4096 + f 1 * 4096"
    by (simp add: address_along_def h_def)
  have digits: "address_along f div 2 ^ 12 = (((h * 512 + f 4) * 512 + f 3) * 512 + f 2) * 512 + f 1"
    "address_along f div 2 ^ 21 = ((h * 512 + f 4) * 512 + f 3) * 512 + f 2"
    "address_along f div 2 ^ 30 = (h * 512 + f 4) * 512 + f 3"
    "address_along f div 2 ^ 39 = h * 512 + f 4"
    unfolding eq using b by (intro div_nat_eqI; simp)+
  have mods: "address_along f div 2 ^ 12 mod 512 = f 1" "address_along f div 2 ^ 21 mod 512 = f 2"
    "address_along f div 2 ^ 30 mod 512 = f 3" "address_along f div 2 ^ 39 mod 512 = f 4"
    by (simp_all only: digits mod_mult_self3 mod_less b)
  show "table_index (address_along f) k = f k" if "1 \<le> k" "k \<le> 4"
  proof -
    consider "k = 1" | "k = 2" | "k = 3" | "k = 4" using \<open>1 \<le> k\<close> \<open>k \<le> 4\<close> by linarith
    then show ?thesis
      by cases (use mods in \<open>simp_all add: table_index_eq\<close>)
  qed
  have "address_along f div 2 ^ 47 = (h * 512 + f 4) div 256"
    using div_mult2_eq [of "address_along f" "2 ^ 39" 256] digits(4) by simp
  then have "address_along f div 2 ^ 47 = (if f 4 < 256 then 0 else 2 ^ 17 - 1)"
    using b(1) by (auto simp: h_def intro!: div_nat_eqI)
  then show "address_is_canonical (address_along f)"
    by (auto simp: address_is_canonical_def drop_bit_eq_div Let_def)
qed

definition safe_leaf :: "leaf option \<Rightarrow> bool" where
  "safe_leaf x \<longleftrightarrow> (case x of None \<Rightarrow> True | Some (level, e, w, x, u) \<Rightarrow> \<not> (w \<and> x))"

lemma fold_count:
  fixes c :: "'a \<Rightarrow> nat"
  assumes "\<And>i a. i \<in> set xs \<Longrightarrow> c a \<le> c (g i a) \<and> (c (g i a) = c a \<longleftrightarrow> P i)"
  shows "c a \<le> c (fold g xs a) \<and> (c (fold g xs a) = c a \<longleftrightarrow> (\<forall>i \<in> set xs. P i))"
  using assms
proof (induction xs arbitrary: a)
  case (Cons i xs)
  have "c a \<le> c (g i a)" "c (g i a) = c a \<longleftrightarrow> P i" using Cons.prems by simp_all
  moreover have "c (g i a) \<le> c (fold g xs (g i a))" "c (fold g xs (g i a)) = c (g i a) \<longleftrightarrow> (\<forall>i \<in> set xs. P i)"
    using Cons.IH [of "g i a"] Cons.prems by simp_all
  ultimately show ?case by auto
qed simp

lemma audit_table_count:
  fixes c :: "paging_audit \<Rightarrow> nat"
  assumes leaf: "\<And>l e w x u a. c (audit_leaf l w x u a) = c a + (if P (Some (l, e, w, x, u)) then 0 else 1)" and "P None"
  shows "c a \<le> c (audit_table l T t w x u a) \<and>
   (c (audit_table l T t w x u a) = c a \<longleftrightarrow>
     (\<forall>f. (\<forall>k. f k < 512) \<longrightarrow> P (walk_along T f l t w x u)))"
proof (induction l arbitrary: t w x u a)
  case 0
  then show ?case using assms(2) by simp
next
  case (Suc l)
  let ?Q = "\<lambda>i. \<forall>f. (\<forall>k. f k < 512) \<longrightarrow> P (walk_along T (f(Suc l := i)) (Suc l) t w x u)"
  have lower: "walk_along T (f(Suc l := i)) l s w' x' u' = walk_along T f l s w' x' u'" for f i s w' x' u'
    by (rule walk_along_cong) simp
  have "c a \<le> c (audit_table (Suc l) T t w x u a) \<and>
    (c (audit_table (Suc l) T t w x u a) = c a \<longleftrightarrow> (\<forall>i \<in> set [0 ..< 512]. ?Q i))"
    unfolding audit_table.simps
  proof (rule fold_count)
    fix i a assume "i \<in> set [0 ..< 512]"
    let ?e = "T t i"
    have "\<exists>f :: nat \<Rightarrow> nat. \<forall>k. f k < 512" by (rule exI [of _ "\<lambda>_. 0"]) simp
    then show "c a \<le> c (let entry = ?e in
         if entry AND PAGE_PRESENT = 0 then a
         else (let leaf_writable = (w \<and> entry AND PAGE_WRITABLE \<noteq> 0);
                leaf_executable = (x \<and> entry AND PAGE_NO_EXECUTE = 0);
                leaf_user = (u \<and> entry AND PAGE_USER \<noteq> 0) in
            if l > 0 \<and> entry AND PAGE_HUGE = 0
            then audit_table l T (frame_of entry) leaf_writable leaf_executable leaf_user a
            else audit_leaf (Suc l) leaf_writable leaf_executable leaf_user a)) \<and>
      (c (let entry = ?e in
         if entry AND PAGE_PRESENT = 0 then a
         else (let leaf_writable = (w \<and> entry AND PAGE_WRITABLE \<noteq> 0);
                leaf_executable = (x \<and> entry AND PAGE_NO_EXECUTE = 0);
                leaf_user = (u \<and> entry AND PAGE_USER \<noteq> 0) in
            if l > 0 \<and> entry AND PAGE_HUGE = 0
            then audit_table l T (frame_of entry) leaf_writable leaf_executable leaf_user a
            else audit_leaf (Suc l) leaf_writable leaf_executable leaf_user a)) = c a \<longleftrightarrow> ?Q i)"
      using Suc.IH [of a "frame_of ?e"] assms(2)
      by (auto simp: Let_def entry_bits lower leaf [where e = ?e])
  qed
  moreover have "(\<forall>i \<in> set [0 ..< 512]. ?Q i) \<longleftrightarrow> (\<forall>f. (\<forall>k. f k < 512) \<longrightarrow> P (walk_along T f (Suc l) t w x u))"
  proof (intro iffI allI impI ballI)
    fix f :: "nat \<Rightarrow> nat" assume "\<forall>i \<in> set [0 ..< 512]. ?Q i" and f: "\<forall>k. f k < 512"
    then have "P (walk_along T (f(Suc l := f (Suc l))) (Suc l) t w x u)"
      by (simp del: walk_along.simps fun_upd_triv)
    then show "P (walk_along T f (Suc l) t w x u)" by (simp only: fun_upd_triv)
  next
    fix i and f :: "nat \<Rightarrow> nat"
    assume "\<forall>f. (\<forall>k. f k < 512) \<longrightarrow> P (walk_along T f (Suc l) t w x u)" "i \<in> set [0 ..< 512]" "\<forall>k. f k < 512"
    then show "P (walk_along T (f(Suc l := i)) (Suc l) t w x u)" by (simp del: walk_along.simps)
  qed
  ultimately show ?case by simp
qed


lemma audit_count_iff:
  fixes c :: "paging_audit \<Rightarrow> nat"
  assumes "\<And>l e w x u a. c (audit_leaf l w x u a) = c a + (if P (Some (l, e, w, x, u)) then 0 else 1)" "P None" "c empty_audit = 0"
  shows "c (audit_hierarchy st) = 0 \<longleftrightarrow> (\<forall>va. address_is_canonical va \<longrightarrow> P (leaf_of st va))"
proof -
  let ?walk = "\<lambda>f. walk_along (pe_tables st) f 4 (root_of st) True True True"
  have "c (audit_hierarchy st) = 0 \<longleftrightarrow> (\<forall>f. (\<forall>k. f k < 512) \<longrightarrow> P (?walk f))"
    unfolding audit_hierarchy_def empty_audit_def [symmetric]
    using audit_table_count [of c P, OF assms(1,2), of empty_audit] assms(3) by simp
  also have "\<dots> \<longleftrightarrow> (\<forall>va. address_is_canonical va \<longrightarrow> P (leaf_of st va))"
  proof (intro iffI allI impI)
    fix f :: "nat \<Rightarrow> nat"
    assume safe: "\<forall>va. address_is_canonical va \<longrightarrow> P (leaf_of st va)" and "\<forall>k. f k < 512"
    then have f: "f k < 512" for k by simp
    have "?walk f = ?walk (table_index (address_along f))"
      by (rule walk_along_cong) (simp add: address_along(2) [OF f])
    also have "\<dots> = leaf_of st (address_along f)" by (simp add: leaf_of_def translate_walk_along)
    finally show "P (?walk f)" using safe address_along(1) [OF f] by simp
  next
    fix va assume "\<forall>f. (\<forall>k. f k < 512) \<longrightarrow> P (?walk f)"
    then have "P (?walk (table_index va))" by (simp add: table_index_less)
    then show "P (leaf_of st va)" by (simp add: leaf_of_def translate_walk_along)
  qed
  finally show ?thesis .
qed

definition user_leaf :: "leaf option \<Rightarrow> bool" where
  "user_leaf x \<longleftrightarrow> (case x of None \<Rightarrow> False | Some (level, e, w, x, u) \<Rightarrow> u)"

lemma audit_safe_iff:
  "pa_write_execute_leaves (audit_hierarchy st) = 0 \<longleftrightarrow> (\<forall>va. address_is_canonical va \<longrightarrow> safe_leaf (leaf_of st va))"
  by (rule audit_count_iff) (simp_all add: audit_leaf_def safe_leaf_def empty_audit_def)

lemma audit_user_iff:
  "pa_user_leaves (audit_hierarchy st) = 0 \<longleftrightarrow> (\<forall>va. address_is_canonical va \<longrightarrow> \<not> user_leaf (leaf_of st va))"
  by (rule audit_count_iff [where P = "\<lambda>x. \<not> user_leaf x"]) (simp_all add: audit_leaf_def user_leaf_def empty_audit_def)

text \<open>A translation that allows both writing and executing.\<close>

definition writable_executable :: "paging_status \<times> paging_translation \<Rightarrow> bool" where
  "writable_executable r \<longleftrightarrow> fst r = PAGING_STATUS_OK \<and>
     tr_permissions (snd r) AND PAGING_WRITE \<noteq> 0 \<and> tr_permissions (snd r) AND PAGING_EXECUTE \<noteq> 0"

lemma writable_executable_iff:
  assumes "address_is_canonical va"
  shows "writable_executable (translate_address va pat st) \<longleftrightarrow> \<not> safe_leaf (leaf_of st va)"
proof (cases "leaf_of st va")
  case None
  then show ?thesis using assms by (simp add: translate_none writable_executable_def safe_leaf_def)
next
  case (Some f)
  obtain lv e w x u where f: "f = (lv, e, w, x, u)" by (metis prod_cases5)
  let ?p = "PAGING_READ OR (if w then PAGING_WRITE else 0) OR (if x then PAGING_EXECUTE else 0) OR
    memory_type_permission (leaf_memory_type e lv pat)"
  have p: "?p AND PAGING_WRITE \<noteq> 0 \<longleftrightarrow> w" "?p AND PAGING_EXECUTE \<noteq> 0 \<longleftrightarrow> x"
    by (auto simp: entry_bits bit_or_iff bit_permission memory_type_permission_def)
  have eq: "translate_address va pat st = (PAGING_STATUS_OK, fill_translation e va lv w x u pat)"
    using Some assms by (simp add: translate_address_def leaf_of_def f)
  show ?thesis
    unfolding eq writable_executable_def fill_translation_def Let_def
    using p by (simp add: Some f safe_leaf_def)
qed

section \<open>Sequences of calls\<close>

datatype paging_op =
    Op_Map nat nat nat u32
  | Op_Unmap nat nat
  | Op_Protect nat nat u32

fun paging_step :: "paging_op \<Rightarrow> paging_system \<Rightarrow> paging_status \<times> paging_system" where
  "paging_step (Op_Map va pa len p) s = paging_map va pa len p s"
| "paging_step (Op_Unmap va len) s = paging_unmap va len s"
| "paging_step (Op_Protect va len p) s = paging_protect va len p s"

definition paging_run :: "paging_op list \<Rightarrow> paging_system \<Rightarrow> paging_system" where
  "paging_run ops s = fold (\<lambda>op s. snd (paging_step op s)) ops s"

fun short_op :: "paging_op \<Rightarrow> bool" where
  "short_op (Op_Map va pa len p) \<longleftrightarrow> True"
| "short_op (Op_Unmap va len) \<longleftrightarrow> len \<le> 2 ^ 63"
| "short_op (Op_Protect va len p) \<longleftrightarrow> len \<le> 2 ^ 63"

lemma safe_page_leaf: "validate_permissions p = PAGING_STATUS_OK \<Longrightarrow> safe_leaf (Some (page_leaf a p))"
  using permissions_ok(1) [of p] by (auto simp: safe_leaf_def page_leaf_def)

lemma protect_range_valid:
  "protect_range va len p pat st = (PAGING_STATUS_OK, st') \<Longrightarrow> validate_permissions p = PAGING_STATUS_OK"
  by (auto simp: protect_range_def Let_def split: if_splits)

lemma paging_step_ok:
  assumes ok: "paging_ok s" and step: "paging_step op s = (status, s')" and short: "short_op op"
  shows "paging_ok s'" "flushed (ps_store s) (ps_store s')" "ps_pat_after s' = ps_pat_after s"
    and "(\<forall>va. address_is_canonical va \<longrightarrow> safe_leaf (leaf_of (ps_store s) va)) \<Longrightarrow>
      address_is_canonical va \<Longrightarrow> safe_leaf (leaf_of (ps_store s') va)"
proof -
  have "paging_ok s' \<and> flushed (ps_store s) (ps_store s') \<and> ps_pat_after s' = ps_pat_after s \<and>
    ((\<forall>va. address_is_canonical va \<longrightarrow> safe_leaf (leaf_of (ps_store s) va)) \<longrightarrow>
      address_is_canonical va \<longrightarrow> safe_leaf (leaf_of (ps_store s') va))"
  proof (cases op)
    case (Op_Map a pa len p)
    have call: "paging_map a pa len p s = (status, s')" using step by (simp add: Op_Map)
    note M = paging_map_view [OF ok call]
    have "validate_permissions p = PAGING_STATUS_OK" if "status = PAGING_STATUS_OK"
      using M that map_range_valid(6) [of a pa len p "ps_store s"] by (metis prod.collapse)
    then show ?thesis using M safe_page_leaf by auto
  next
    case (Op_Unmap a len)
    have "paging_unmap a len s = (status, s')" "len \<le> 2 ^ 63" using step short by (simp_all add: Op_Unmap)
    note U = paging_unmap_view [OF ok this]
    then show ?thesis by (auto simp: safe_leaf_def)
  next
    case (Op_Protect a len p)
    have call: "paging_protect a len p s = (status, s')" "len \<le> 2 ^ 63" using step short by (simp_all add: Op_Protect)
    note P = paging_protect_view [OF ok call]
    have "validate_permissions p = PAGING_STATUS_OK" if "status = PAGING_STATUS_OK"
      using call(1) that protect_range_valid ok
      by (auto simp: paging_protect_def paging_ok_def Let_def split: prod.splits option.splits)
    then have "safe_leaf (protected_leaf p y)" if "status = PAGING_STATUS_OK" for y
      using that safe_page_leaf by (cases y) (auto simp: protected_leaf_def safe_leaf_def [of None])
    then show ?thesis using P by auto
  qed
  then show "paging_ok s'" "flushed (ps_store s) (ps_store s')" "ps_pat_after s' = ps_pat_after s"
    "(\<forall>va. address_is_canonical va \<longrightarrow> safe_leaf (leaf_of (ps_store s) va)) \<Longrightarrow>
      address_is_canonical va \<Longrightarrow> safe_leaf (leaf_of (ps_store s') va)" by blast+
qed

lemma paging_run_ok:
  "paging_ok s \<Longrightarrow> list_all short_op ops \<Longrightarrow>
    paging_ok (paging_run ops s) \<and> flushed (ps_store s) (ps_store (paging_run ops s)) \<and>
    ps_pat_after (paging_run ops s) = ps_pat_after s \<and>
    ((\<forall>va. address_is_canonical va \<longrightarrow> safe_leaf (leaf_of (ps_store s) va)) \<longrightarrow>
     (\<forall>va. address_is_canonical va \<longrightarrow> safe_leaf (leaf_of (ps_store (paging_run ops s)) va)))"
proof (induction ops arbitrary: s)
  case Nil
  then show ?case by (simp add: paging_run_def)
next
  case (Cons op ops)
  obtain status s1 where step: "paging_step op s = (status, s1)" by fastforce
  have run: "paging_run (op # ops) s = paging_run ops s1" by (simp add: paging_run_def step)
  have short: "short_op op" "list_all short_op ops" using Cons.prems(2) by simp_all
  note S = paging_step_ok [OF Cons.prems(1) step short(1)]
  note IH = Cons.IH [OF S(1) short(2)]
  show ?case unfolding run using IH S(2-4) flushed_trans by auto
qed


section \<open>The registry of supervisor mappings\<close>

lemma shift_down:
  assumes "i < k" "k \<le> length xs"
  shows "fold (\<lambda>m a. a[m - 1 := a ! m]) [i + 1 ..< k] xs = take i xs @ drop (i + 1) (take k xs) @ drop (k - 1) xs"
  using assms
proof (induction k)
  case (Suc k)
  show ?case
  proof (cases "i = k")
    case True
    then show ?thesis using Suc.prems by simp
  next
    case False
    then have k: "i < k" "k < length xs" using Suc.prems by simp_all
    let ?pre = "take i xs @ drop (i + 1) (take k xs)"
    have len: "length ?pre = k - 1" using k by simp
    have ne: "drop (k - 1) xs = xs ! (k - 1) # drop k xs" using k Cons_nth_drop_Suc [of "k - 1" xs] by simp
    have IH: "fold (\<lambda>m a. a[m - 1 := a ! m]) [i + 1 ..< k] xs = ?pre @ drop (k - 1) xs"
      using Suc.IH k by simp
    have "(?pre @ drop (k - 1) xs) ! k = xs ! k"
      using k by (simp add: nth_append) linarith
    moreover have "(?pre @ drop (k - 1) xs)[k - 1 := xs ! k] = ?pre @ xs ! k # drop k xs"
      unfolding ne using len by (simp only: list_update_append length_append) simp
    moreover have "drop (i + 1) (take (Suc k) xs) = drop (i + 1) (take k xs) @ [xs ! k]"
      using k by (simp add: take_Suc_conv_app_nth)
    ultimately show ?thesis using k IH by simp
  qed
qed simp

lemma supervisor_intent_remove_intents:
  assumes "i < length (ps_intents s)"
  shows "ps_intents (supervisor_intent_remove i s) = take i (ps_intents s) @ drop (Suc i) (ps_intents s)"
  using assms shift_down [of i "length (ps_intents s)" "ps_intents s"]
  by (simp add: supervisor_intent_remove_def Let_def)

text \<open>What the calls owe the registry: the first record of a range is dropped, or its permissions are changed.\<close>

primrec forget_intent :: "nat \<Rightarrow> nat \<Rightarrow> supervisor_mapping_intent list \<Rightarrow> supervisor_mapping_intent list" where
  "forget_intent va len [] = []"
| "forget_intent va len (i # rest) =
     (if si_virtual_address i = va \<and> si_length i = len then rest else i # forget_intent va len rest)"

primrec amend_intent :: "nat \<Rightarrow> nat \<Rightarrow> u32 \<Rightarrow> supervisor_mapping_intent list \<Rightarrow> supervisor_mapping_intent list" where
  "amend_intent va len p [] = []"
| "amend_intent va len p (i # rest) =
     (if si_virtual_address i = va \<and> si_length i = len then i\<lparr>si_permissions := p\<rparr> # rest else i # amend_intent va len p rest)"

lemma find_intent_None:
  "find_intent va len n xs = None \<Longrightarrow> forget_intent va len xs = xs \<and> amend_intent va len p xs = xs"
  by (induction xs arbitrary: n) (auto split: if_splits)

lemma find_intent_Some:
  "find_intent va len n xs = Some k \<Longrightarrow> \<exists>j < length xs. k = n + j \<and>
    forget_intent va len xs = take j xs @ drop (Suc j) xs \<and>
    amend_intent va len p xs = xs[j := (xs ! j)\<lparr>si_permissions := p\<rparr>]"
proof (induction xs arbitrary: n)
  case (Cons i rest)
  show ?case
  proof (cases "si_virtual_address i = va \<and> si_length i = len")
    case True
    then show ?thesis using Cons.prems by (intro exI [of _ 0]) simp
  next
    case False
    then have "find_intent va len (Suc n) rest = Some k" using Cons.prems by (simp split: if_splits)
    from Cons.IH [OF this] obtain j where "j < length rest" "k = Suc n + j"
      "forget_intent va len rest = take j rest @ drop (Suc j) rest"
      "amend_intent va len p rest = rest[j := (rest ! j)\<lparr>si_permissions := p\<rparr>]" by blast
    then show ?thesis using False by (intro exI [of _ "Suc j"]) auto
  qed
qed simp

lemma forget_intent_append:
  assumes "si_virtual_address i = va" "si_length i = len"
  shows "find_intent va len n xs = None \<Longrightarrow> forget_intent va len (xs @ [i]) = xs"
    "length (forget_intent va len (xs @ [i])) = length xs"
  using assms by (induction xs arbitrary: n) (auto split: if_splits)

lemma paging_unmap_registry:
  assumes "ps_active s" "paging_unmap va len s = (status, s')"
  shows "ps_intents s' = (if status = PAGING_STATUS_OK then forget_intent va len (ps_intents s) else ps_intents s)"
    "status \<noteq> PAGING_STATUS_OK \<Longrightarrow> s' = report_frames s"
proof -
  obtain u st1 where u: "unmap_range va len (ps_store s) = (u, st1)" by fastforce
  show "ps_intents s' = (if status = PAGING_STATUS_OK then forget_intent va len (ps_intents s) else ps_intents s)"
  proof (cases "supervisor_intent_find va len s")
    case None
    then show ?thesis
      using assms u find_intent_None [of va len 0 "ps_intents s"] by (auto simp: paging_unmap_def supervisor_intent_find_def)
  next
    case (Some k)
    then obtain j where "j < length (ps_intents s)" "k = j"
      "forget_intent va len (ps_intents s) = take j (ps_intents s) @ drop (Suc j) (ps_intents s)"
      using find_intent_Some [of va len 0 "ps_intents s" k] by (auto simp: supervisor_intent_find_def)
    then show ?thesis using assms u Some by (auto simp: paging_unmap_def supervisor_intent_remove_intents Let_def)
  qed
  have same: "st1 = ps_store s" if "u \<noteq> PAGING_STATUS_OK" using u that by (auto simp: unmap_range_def split: if_splits)
  show "s' = report_frames s" if "status \<noteq> PAGING_STATUS_OK"
  proof -
    have "u \<noteq> PAGING_STATUS_OK" using assms u that by (auto simp: paging_unmap_def Let_def)
    with same show ?thesis using assms u by (auto simp: paging_unmap_def Let_def split: option.splits)
  qed
qed

lemma paging_protect_registry:
  assumes "ps_active s" "paging_protect va len p s = (status, s')"
  shows "ps_intents s' = (if status = PAGING_STATUS_OK then amend_intent va len p (ps_intents s) else ps_intents s)"
    "status \<noteq> PAGING_STATUS_OK \<Longrightarrow> s' = s"
proof -
  obtain u st1 where u: "protect_range va len p (ps_pat_after s) (ps_store s) = (u, st1)" by fastforce
  show "ps_intents s' = (if status = PAGING_STATUS_OK then amend_intent va len p (ps_intents s) else ps_intents s)"
  proof (cases "supervisor_intent_find va len s")
    case None
    then show ?thesis
      using assms u find_intent_None [of va len 0 "ps_intents s"] by (auto simp: paging_protect_def supervisor_intent_find_def)
  next
    case (Some k)
    then obtain j where "j < length (ps_intents s)" "k = j"
      "amend_intent va len p (ps_intents s) = (ps_intents s)[j := (ps_intents s ! j)\<lparr>si_permissions := p\<rparr>]"
      using find_intent_Some [of va len 0 "ps_intents s" k p] by (auto simp: supervisor_intent_find_def)
    then show ?thesis using assms u Some by (auto simp: paging_protect_def Let_def)
  qed
  have same: "st1 = ps_store s" if "u \<noteq> PAGING_STATUS_OK"
    using u that by (auto simp: protect_range_def Let_def split: if_splits)
  show "s' = s" if "status \<noteq> PAGING_STATUS_OK"
  proof -
    have "u \<noteq> PAGING_STATUS_OK" using assms u that by (auto simp: paging_protect_def Let_def)
    with same show ?thesis using assms u by (auto simp: paging_protect_def Let_def split: option.splits)
  qed
qed

section \<open>Guarantees\<close>

lemma paging_translate_view:
  "ps_active s \<Longrightarrow> paging_translate va (Some d) s = map_prod id Some (view s va)"
  by (simp add: paging_translate_def)

text \<open>C25. A mapping that is accepted gives every address of the range exactly the physical address and
  the permissions asked for; every other canonical address, and every address when the call is refused
  (for want of tables or of room in the registry too), translates as before.\<close>

theorem paging_map_exact:
  assumes "paging_ok s" "paging_map va pa len p s = (status, s')" "address_is_canonical va'"
  shows "paging_ok s' \<and> paging_translate va' (Some d) s' =
    (if status = PAGING_STATUS_OK \<and> va \<le> va' \<and> va' < va + len
     then (PAGING_STATUS_OK, Some (page_translation (pa + (va' - va)) p)) else paging_translate va' (Some d) s)"
proof -
  note M = paging_map_view [OF assms(1,2)]
  have act: "ps_active s" "ps_active s'" "pat_ready (ps_pat_after s)" using M assms(1) by (simp_all add: paging_ok_def)
  show ?thesis
  proof (cases "status = PAGING_STATUS_OK \<and> va \<le> va' \<and> va' < va + len")
    case True
    have V: "4096 dvd va" "4096 dvd pa" "pa + len \<le> 2 ^ 52" "validate_permissions p = PAGING_STATUS_OK"
      using map_range_valid [of va pa len p "ps_store s"] M True by (metis prod.collapse)+
    let ?a = "pa + (va' - va) div 4096 * 4096"
    have "(va' - va) div 4096 * 4096 \<le> va' - va" by simp
    then have a: "4096 dvd ?a" "?a < 2 ^ 52" using V(2) V(3) True by (simp, linarith)
    have "leaf_of (ps_store s') va' = Some (page_leaf ?a p)" using M True assms(3) by simp
    from translate_page [OF this assms(3) a V(4), of "ps_pat_after s'"]
    have "view s' va' = (PAGING_STATUS_OK, page_translation (?a + va' mod 4096) p)" using M act(3) by simp
    moreover have "va' mod 4096 = (va' - va) mod 4096"
      using V(1) True by (metis dvd_div_mult_self le_add_diff_inverse mod_mult_self3 mod_add_left_eq add.commute)
    then have "?a + va' mod 4096 = pa + (va' - va)" by simp
    ultimately show ?thesis using M True act by (simp add: paging_translate_view)
  next
    case False
    then have "leaf_of (ps_store s') va' = leaf_of (ps_store s) va'" using M assms(3) by auto
    then show ?thesis
      using M False act translate_same [of "ps_store s'" va' "ps_store s"] by (auto simp: paging_translate_view)
  qed
qed

text \<open>C26. Unmapping removes exactly the pages of the range: accepted, the addresses of the range stop
  translating, all others translate as before, and the registry loses the first record of that very range, if
  there is one, and no other; refused, the state is as before except that the count of table frames is read
  again from the hierarchy.\<close>

theorem paging_unmap_exact:
  assumes "paging_ok s" "len \<le> 2 ^ 63" "paging_unmap va len s = (status, s')" "address_is_canonical va'"
  shows "paging_ok s' \<and> paging_translate va' (Some d) s' =
    (if status = PAGING_STATUS_OK \<and> va \<le> va' \<and> va' < va + len
     then (PAGING_STATUS_NOT_MAPPED, Some empty_translation) else paging_translate va' (Some d) s) \<and>
    (status = PAGING_STATUS_OK \<longrightarrow> ps_intents s' = forget_intent va len (ps_intents s)) \<and>
    (status \<noteq> PAGING_STATUS_OK \<longrightarrow> s' = report_frames s)"
proof -
  note U = paging_unmap_view [OF assms(1,3,2)]
  have act: "ps_active s" "ps_active s'" using U assms(1) by (simp_all add: paging_ok_def)
  have "paging_translate va' (Some d) s' =
    (if status = PAGING_STATUS_OK \<and> va \<le> va' \<and> va' < va + len
     then (PAGING_STATUS_NOT_MAPPED, Some empty_translation) else paging_translate va' (Some d) s)"
    using U act assms(4) translate_none [of "ps_store s'" va'] translate_same [of "ps_store s'" va' "ps_store s"]
    by (auto simp: paging_translate_view)
  then show ?thesis using U paging_unmap_registry [OF act(1) assms(3)] by simp
qed

text \<open>C31. Mapping and unmapping the same range: the second call is accepted and every address translates as
  at the start. The registry keeps its length and loses the first record of that range among the old ones and
  the new one; so it is as at the start, unless a record of the same range had been left behind by unmapping
  that range piece by piece: then that record goes and the new one stays.\<close>

theorem paging_map_unmap:
  assumes "paging_ok s" "paging_map va pa len p s = (PAGING_STATUS_OK, s1)" "paging_unmap va len s1 = (status, s2)"
    and "address_is_canonical va'"
  shows "status = PAGING_STATUS_OK \<and> paging_translate va' (Some d) s2 = paging_translate va' (Some d) s \<and>
    ps_intents s2 = forget_intent va len (ps_intents s @
      [\<lparr>si_virtual_address = va, si_physical_address = pa, si_length = len, si_permissions = p\<rparr>]) \<and>
    length (ps_intents s2) = length (ps_intents s) \<and>
    (supervisor_intent_find va len s = None \<longrightarrow> ps_intents s2 = ps_intents s)"
proof -
  note M = paging_map_view [OF assms(1,2)]
  have act: "ps_active s" "ps_active s1" "hierarchy_ok (ps_store s)" "hierarchy_ok (ps_store s1)"
    using M assms(1) by (simp_all add: paging_ok_def)
  let ?i = "\<lparr>si_virtual_address = va, si_physical_address = pa, si_length = len, si_permissions = p\<rparr>"
  obtain st where st: "map_range va pa len p 1 (ps_store s) = (PAGING_STATUS_OK, st)"
    using M by (metis prod.collapse)
  then have st1: "ps_store s1 = st" "ps_pat_after s1 = ps_pat_after s" "ps_intents s1 = ps_intents s @ [?i]"
    using assms(2) act(1) M by (auto simp: paging_map_def supervisor_intent_add_def split: if_splits)
  obtain u st2 where u: "unmap_range va len st = (u, st2)" by fastforce
  note R = map_unmap_range [OF act(3) st u]
  have s2: "status = u" "ps_store s2 = st2" "ps_pat_after s2 = ps_pat_after s1" "ps_active s2"
    using assms(3) act(2) u st1(1) by (auto simp: paging_unmap_def Let_def split: option.splits)
  have "ps_intents s2 = forget_intent va len (ps_intents s @ [?i])"
    using paging_unmap_registry(1) [OF act(2) assms(3)] s2(1) R(1) st1(3) by simp
  moreover have "paging_translate va' (Some d) s2 = paging_translate va' (Some d) s"
    using translate_same [OF R(4) [OF assms(4)]] act(1) s2(2-4) st1(2) by (simp add: paging_translate_view)
  ultimately show ?thesis
    using s2(1) R(1) forget_intent_append [of ?i va len] by (simp add: supervisor_intent_find_def)
qed


lemma same_type_pages_OK:
  assumes "hierarchy_ok st" "same_type_pages r pat va offsets st = PAGING_STATUS_OK" "offset \<in> set offsets"
    and "leaf_of st (va + offset) = Some (1, e, f)"
  shows "leaf_memory_type e 1 pat = r"
  using assms(2,3)
proof (induction offsets)
  case (Cons o' rest)
  have plain: "plain_links (pe_tables st) (root_of st)" using assms(1) by (simp add: hierarchy_ok_def)
  show ?case
  proof (cases rule: entry_for_cases [of "va + o'" st])
    case (table s)
    have rest: "leaf_memory_type (pe_tables st s (table_index (va + o') 1)) 1 pat = r"
      "same_type_pages r pat va rest st = PAGING_STATUS_OK"
      using Cons.prems(1) unfolding same_type_pages.simps table(1) by (auto split: if_splits)
    show ?thesis
    proof (cases "offset = o'")
      case True
      then show ?thesis using rest(1) leaf_of_table [OF plain table(2)] assms(4) by (simp add: Let_def split: if_splits)
    next
      case False
      then show ?thesis using Cons rest(2) by simp
    qed
  next
    case missing
    then show ?thesis using Cons.prems(1) unfolding same_type_pages.simps missing(1) by simp
  next
    case (large lv f)
    then show ?thesis using Cons.prems(1) unfolding same_type_pages.simps large(1) by simp
  qed
qed simp

lemma same_type_pagesI:
  assumes "hierarchy_ok st"
    and "\<And>offset. offset \<in> set offsets \<Longrightarrow> \<exists>e f. leaf_of st (va + offset) = Some (1, e, f) \<and> leaf_memory_type e 1 pat = r"
  shows "same_type_pages r pat va offsets st = PAGING_STATUS_OK"
  using assms(2)
proof (induction offsets)
  case (Cons o' rest)
  have plain: "plain_links (pe_tables st) (root_of st)" using assms(1) by (simp add: hierarchy_ok_def)
  have IH: "same_type_pages r pat va rest st = PAGING_STATUS_OK" using Cons by simp
  obtain e f where e: "leaf_of st (va + o') = Some (1, e, f)" "leaf_memory_type e 1 pat = r" using Cons.prems [of o'] by auto
  show ?case
  proof (cases rule: entry_for_cases [of "va + o'" st])
    case (table s)
    have "leaf_memory_type (pe_tables st s (table_index (va + o') 1)) 1 pat = r"
      using leaf_of_table [OF plain table(2)] e by (simp add: Let_def split: if_splits)
    then show ?thesis using IH unfolding same_type_pages.simps table(1) by simp
  qed (use e(1) in simp_all)
qed simp

lemma protect_range_succeeds:
  assumes "hierarchy_ok st" "validate_permissions p = PAGING_STATUS_OK"
    and "validate_virtual_range va len 4096 = PAGING_STATUS_OK" "len \<le> 2 ^ 63"
    and "\<And>va'. address_is_canonical va' \<Longrightarrow> va \<le> va' \<Longrightarrow> va' < va + len \<Longrightarrow> \<exists>e f. leaf_of st va' = Some (1, e, f) \<and>
      leaf_memory_type e 1 pat = leaf_memory_type (permissions_to_flags p) 1 pat"
  shows "fst (protect_range va len p pat st) = PAGING_STATUS_OK"
proof -
  obtain n where n: "len = n * 4096" "canonical_pages va n" using assms(3,4) validate_virtual_OK by blast
  have "\<forall>j < n. \<exists>e f. leaf_of st (va + j * 4096) = Some (1, e, f) \<and>
      leaf_memory_type e 1 pat = leaf_memory_type (permissions_to_flags p) 1 pat"
    unfolding pages_leaf_iff [OF n(2), where P = "\<lambda>x. \<exists>e f. x = Some (1, e, f) \<and>
      leaf_memory_type e 1 pat = leaf_memory_type (permissions_to_flags p) 1 pat"]
    using assms(5) by (simp add: in_pages_range n(1))
  then have all: "\<exists>e f. leaf_of st (va + offset) = Some (1, e, f) \<and>
      leaf_memory_type e 1 pat = leaf_memory_type (permissions_to_flags p) 1 pat" if "offset \<in> set (page_offsets len 4096)" for offset
    using that unfolding n(1) page_offsets_pages by auto
  have "mapped_pages va (page_offsets len 4096) st = PAGING_STATUS_OK"
    unfolding mapped_pages_OK [OF assms(1)] small_leaf_def using all by fastforce
  then show ?thesis
    using assms(2,3) same_type_pagesI [OF assms(1) all]
    by (simp add: protect_range_def require_mapped_range_def Let_def)
qed

lemma protect_range_types:
  assumes "hierarchy_ok st" "protect_range va len p pat st = (PAGING_STATUS_OK, st')" "len \<le> 2 ^ 63"
    and "address_is_canonical va'" "va \<le> va'" "va' < va + len"
  obtains e w x where "leaf_of st va' = Some (1, e, w, x, False)"
    "leaf_memory_type e 1 pat = leaf_memory_type (permissions_to_flags p) 1 pat"
proof -
  let ?r = "leaf_memory_type (permissions_to_flags p) 1 pat"
  have v: "validate_virtual_range va len 4096 = PAGING_STATUS_OK"
    "mapped_pages va (page_offsets len 4096) st = PAGING_STATUS_OK"
    "same_type_pages ?r pat va (page_offsets len 4096) st = PAGING_STATUS_OK"
    using assms(2) unfolding protect_range_def require_mapped_range_def by (auto simp: Let_def split: if_splits)
  obtain n where n: "len = n * 4096" "canonical_pages va n" using v(1) assms(3) validate_virtual_OK by blast
  have "in_pages va 0 n va'" using assms(5,6) n(1) by (simp add: in_pages_range)
  then obtain j where j: "j < n" "in_pages va j (Suc j) va'" by (rule in_pages_page)
  have offset: "j * 4096 \<in> set (page_offsets len 4096)" unfolding n(1) page_offsets_pages using j(1) by simp
  note leaf = leaf_of_in_page [OF n(2) j assms(4), of st]
  have small: "small_leaf (leaf_of st (va + j * 4096))"
    using v(2) offset unfolding mapped_pages_OK [OF assms(1)] by blast
  have plain: "plain_links (pe_tables st) (root_of st)" using assms(1) by (simp add: hierarchy_ok_def)
  show thesis
  proof (cases rule: entry_for_cases [of "va + j * 4096" st])
    case (table s)
    obtain e w x where "leaf_of st (va + j * 4096) = Some (1, e, w, x, False)"
      using leaf_of_table [OF plain table(2)] small by (auto simp: Let_def small_leaf_def split: if_splits)
    then show thesis using that leaf same_type_pages_OK [OF assms(1) v(3) offset] by metis
  qed (use small in \<open>simp_all add: small_leaf_def\<close>)
qed

text \<open>C27. Changing permissions changes nothing else: an accepted call gives every address of the range
  the permissions asked for and keeps its physical address and memory type, every other address translates as
  before, and the registry notes the permissions in the first record of that very range, if there is one; a
  refused call leaves the whole state as it was.\<close>

theorem paging_protect_exact:
  assumes "paging_ok s" "len \<le> 2 ^ 63" "paging_protect va len p s = (status, s')" "address_is_canonical va'"
  shows "paging_ok s' \<and>
    (if status = PAGING_STATUS_OK \<and> va \<le> va' \<and> va' < va + len
     then \<exists>t. paging_translate va' (Some d) s = (PAGING_STATUS_OK, Some t) \<and>
       paging_translate va' (Some d) s' = (PAGING_STATUS_OK, Some (t\<lparr>tr_permissions := p\<rparr>))
     else paging_translate va' (Some d) s' = paging_translate va' (Some d) s) \<and>
    (status = PAGING_STATUS_OK \<longrightarrow> ps_intents s' = amend_intent va len p (ps_intents s)) \<and>
    (status \<noteq> PAGING_STATUS_OK \<longrightarrow> s' = s)"
proof -
  note P = paging_protect_view [OF assms(1,3,2)]
  have act: "ps_active s" "ps_active s'" "pat_ready (ps_pat_after s)" "hierarchy_ok (ps_store s)"
    using P assms(1) by (simp_all add: paging_ok_def)
  note registry = paging_protect_registry [OF act(1) assms(3)]
  show ?thesis
  proof (cases "status = PAGING_STATUS_OK \<and> va \<le> va' \<and> va' < va + len")
    case True
    obtain st' where st': "protect_range va len p (ps_pat_after s) (ps_store s) = (PAGING_STATUS_OK, st')"
      using assms(3) act(1) True by (auto simp: paging_protect_def Let_def split: prod.splits option.splits)
    obtain e w x where e: "leaf_of (ps_store s) va' = Some (1, e, w, x, False)"
      "leaf_memory_type e 1 (ps_pat_after s) = leaf_memory_type (permissions_to_flags p) 1 (ps_pat_after s)"
      using act(4) st' assms(2,4) True by (auto elim: protect_range_types)
    have ok: "validate_permissions p = PAGING_STATUS_OK" using st' by (rule protect_range_valid)
    let ?t = "fill_translation e va' 1 w x False (ps_pat_after s)"
    have old: "view s va' = (PAGING_STATUS_OK, ?t)"
      using e(1) assms(4) by (simp add: translate_address_def leaf_of_def)
    have flags: "permissions_to_flags p = compose_entry 0 p False" by (simp add: compose_entry_def)
    have type: "leaf_memory_type e 1 (ps_pat_after s) = tr_memory_type (page_translation a p)" for a
      using memory_type_compose [OF ok act(3), of 0 1 False] unfolding e(2) flags by (simp add: page_translation_def)
    have "leaf_of (ps_store s') va' = Some (page_leaf (frame_of e) p)"
      using P True assms(4) e(1) by (simp add: protected_leaf_def)
    from translate_page [OF this assms(4) frame_of_aligned frame_of_less ok]
    have new: "view s' va' = (PAGING_STATUS_OK, page_translation (frame_of e + va' mod 4096) p)" using P act(3) by simp
    have "?t\<lparr>tr_permissions := p\<rparr> = page_translation (frame_of e + va' mod 4096) p"
      using page_address [OF frame_of_aligned frame_of_less, of e va'] type [of "frame_of e + va' mod 4096"]
      unfolding fill_translation_def page_size_1 Let_def by (simp add: page_translation_def)
    then show ?thesis using True P old new act registry by (simp add: paging_translate_view)
  next
    case False
    then have "leaf_of (ps_store s') va' = leaf_of (ps_store s) va'" using P assms(4) by auto
    then show ?thesis
      using P False act registry translate_same [of "ps_store s'" va' "ps_store s"] by (auto simp: paging_translate_view)
  qed
qed


text \<open>C32. A valid mapping of pages that are all unmapped succeeds whenever three frames per page are
  free, the registry has room and no table failure is armed: it needs no more tables than that.\<close>

theorem paging_map_progress:
  assumes "paging_ok s" "validate_permissions p = PAGING_STATUS_OK"
    and "validate_virtual_range va len PAGING_PAGE_SIZE = PAGING_STATUS_OK"
    and "validate_physical_range pa len PAGING_PAGE_SIZE = PAGING_STATUS_OK"
    and "\<And>va'. address_is_canonical va' \<Longrightarrow> va \<le> va' \<Longrightarrow> va' < va + len \<Longrightarrow>
      fst (paging_translate va' (Some d) s) = PAGING_STATUS_NOT_MAPPED"
    and "3 * (len div 4096) \<le> free_frames (ps_store s)" "\<not> failure_armed (ps_store s)"
    and "length (ps_intents s) < PAGING_SUPERVISOR_INTENT_CAPACITY"
  shows "fst (paging_map va pa len p s) = PAGING_STATUS_OK"
proof -
  have act: "ps_active s" "hierarchy_ok (ps_store s)" using assms(1) by (simp_all add: paging_ok_def)
  have "leaf_of (ps_store s) va' = None" if "address_is_canonical va'" "va \<le> va'" "va' < va + len" for va'
    using assms(5) [OF that] that(1) act(1)
    by (auto simp: paging_translate_view translate_address_def leaf_of_def split: option.splits)
  from map_range_progress [OF act(2) assms(2-4,6,7) this]
  obtain st' where "map_range va pa len p 1 (ps_store s) = (PAGING_STATUS_OK, st')" by blast
  then show ?thesis
    using act(1) assms(8) by (simp add: paging_map_def supervisor_intent_add_def)
qed

text \<open>C30. The audit is exact: it reports no leaf that is both writable and executable if and only if no
  canonical address translates with both permissions.\<close>

theorem paging_audit_exact:
  assumes "ps_active s"
  shows "pa_write_execute_leaves (the (snd (paging_audit_hierarchy (Some a) s))) = 0 \<longleftrightarrow>
    (\<forall>va. address_is_canonical va \<longrightarrow>
      \<not> writable_executable (map_prod id the (paging_translate va (Some d) s)))"
  using assms audit_safe_iff [of "ps_store s"] writable_executable_iff [of _ "ps_pat_after s" "ps_store s"]
  by (simp add: paging_audit_hierarchy_def paging_translate_view prod.map_comp comp_def prod.map_id0)

text \<open>C29. No sequence of mappings, unmappings and permission changes, accepted or refused, makes an
  address both writable and executable, if none is at the start.\<close>

theorem paging_write_xor_execute:
  assumes "paging_ok s" "list_all short_op ops"
    and "\<forall>va. address_is_canonical va \<longrightarrow> \<not> writable_executable (translate_address va (ps_pat_after s) (ps_store s))"
    and "s' = paging_run ops s"
  shows "paging_ok s' \<and> (\<forall>va. address_is_canonical va \<longrightarrow>
    \<not> writable_executable (translate_address va (ps_pat_after s') (ps_store s')))"
  using paging_run_ok [OF assms(1,2)] assms(3) writable_executable_iff unfolding assms(4) by simp

text \<open>C28. The processor never keeps a stale translation: after any sequence of calls, every canonical
  address of the live hierarchy whose leaf differs from the start lies in a page the calls invalidated.\<close>

theorem paging_no_stale_translation:
  assumes "paging_ok s" "ph_live (pe_hierarchy (ps_store s))" "list_all short_op ops" "s' = paging_run ops s"
    and "address_is_canonical va" "paging_translate va (Some d) s' \<noteq> paging_translate va (Some d) s"
  shows "va div 4096 * 4096 \<in> set (pe_invalidated (ps_store s'))"
proof -
  note R = paging_run_ok [OF assms(1,3), folded assms(4)]
  have "leaf_of (ps_store s') va \<noteq> leaf_of (ps_store s) va"
    using assms(1,6) R translate_same [of "ps_store s'" va "ps_store s"] by (auto simp: paging_translate_view paging_ok_def)
  then show ?thesis using R assms(2,5) by (auto simp: flushed_def on_processor_def)
qed


section \<open>Witnesses\<close>

text \<open>A live hierarchy with an empty root, in the first frame of an allocator that has all others free.\<close>

definition demo_store :: paging_store where
  "demo_store =
     \<lparr>pe_tables = (\<lambda>_ _. 0), pe_frames = take_frame demo_frames 4096, pe_cr3 = 16777216, pe_invalidated = [],
      pe_failure = \<lparr>ptf_failure_ordinal = 0, ptf_allocation_count = 0, ptf_observed = False, ptf_armed = False\<rparr>,
      pe_hierarchy = \<lparr>ph_root = 16777216, ph_arena_base = 0, ph_arena_capacity = 0, ph_arena_used = 0,
        ph_table_frames = 1, ph_live = True, ph_process = False\<rparr>\<rparr>"

definition demo_paging :: paging_system where
  "demo_paging = \<lparr>ps_active = True, ps_pat_after = demo_pat, ps_table_frames = 1, ps_intents = [], ps_store = demo_store\<rparr>"

lemma demo_leaf: "leaf_of demo_store va = None"
proof -
  have "translate_walk (\<lambda>_ _. 0) va (Suc 3) t True True True = None" for t
    unfolding translate_walk.simps by (simp add: entry_bits)
  then show ?thesis by (simp add: leaf_of_def demo_store_def)
qed

lemma demo_paging_ok: "paging_ok demo_paging"
proof -
  have step: "frame_step (Op_Allocate (Some 0)) demo_frames = (FRAME_STATUS_OK, take_frame demo_frames 4096)"
    by (simp add: demo_allocate)
  have root: "node (pe_tables demo_store) 16777216 p = Some t \<longleftrightarrow> p = [] \<and> t = 16777216" for p t
    by (cases p) (auto simp: demo_store_def interior_def)
  have "frames_ok (take_frame demo_frames 4096)" "fa_initialized (take_frame demo_frames 4096)"
    using frame_step_ok [OF demo_frames_ok(1) step] frame_step_initialized [OF step] demo_frames_ok(2) by simp_all
  moreover have "owned_single (take_frame demo_frames 4096) 4096"
    using frame_allocate_owned(1) [OF demo_frames_ok(1) demo_allocate] by simp
  ultimately have "hierarchy_ok demo_store"
    unfolding hierarchy_ok_def tree_def plain_links_def tables_owned_def
    by (simp add: demo_store_def root [unfolded demo_store_def, simplified] interior_def)
  then show ?thesis using demo_pat_ready by (simp add: paging_ok_def demo_paging_def)
qed

abbreviation demo_range :: "nat \<Rightarrow> bool" where
  "demo_range va \<equiv> 0x200000000 \<le> va \<and> va < 0x200002000"

lemma demo_valid:
  "validate_virtual_range 0x200000000 0x2000 4096 = PAGING_STATUS_OK"
  "validate_physical_range 0x5000 0x2000 4096 = PAGING_STATUS_OK"
  by (simp_all add: validate_virtual_range_def validate_physical_range_def address_is_canonical_def
      UINT64_MAX_def PAGE_PHYSICAL_LIMIT_def drop_bit_eq_div)

theorem paging_map_progress_witness:
  "fst (paging_map 0x200000000 0x5000 0x2000 PAGING_WRITE demo_paging) = PAGING_STATUS_OK"
proof (rule paging_map_progress [OF demo_paging_ok write_permission_ok demo_valid, of empty_translation])
  show "fst (paging_translate va' (Some empty_translation) demo_paging) = PAGING_STATUS_NOT_MAPPED"
    if "address_is_canonical va'" for va'
    using that translate_none [OF demo_leaf, of va'] by (simp add: paging_translate_def demo_paging_def)
  show "3 * (0x2000 div 4096) \<le> free_frames (ps_store demo_paging)"
    by (simp add: demo_paging_def demo_store_def take_frame_def demo_frames_def sub64_def FRAME_COUNT_eq)
qed (simp_all add: demo_paging_def demo_store_def failure_armed_def PAGING_SUPERVISOR_INTENT_CAPACITY_def)


definition demo_mapped :: paging_system where
  "demo_mapped = snd (paging_map 0x200000000 0x5000 0x2000 PAGING_WRITE demo_paging)"

lemma demo_map: "paging_map 0x200000000 0x5000 0x2000 PAGING_WRITE demo_paging = (PAGING_STATUS_OK, demo_mapped)"
proof -
  have "\<exists>st'. map_range 0x200000000 0x5000 0x2000 PAGING_WRITE 1 demo_store = (PAGING_STATUS_OK, st') \<and>
      free_frames demo_store \<le> free_frames st' + 3 * (0x2000 div 4096) \<and> \<not> failure_armed st'"
    using demo_paging_ok write_permission_ok demo_valid demo_leaf
    by (intro map_range_progress)
      (simp_all add: paging_ok_def demo_paging_def failure_armed_def,
       simp_all add: demo_store_def take_frame_def demo_frames_def sub64_def FRAME_COUNT_eq)
  then have "fst (paging_map 0x200000000 0x5000 0x2000 PAGING_WRITE demo_paging) = PAGING_STATUS_OK"
    by (auto simp: paging_map_def supervisor_intent_add_def demo_paging_def PAGING_SUPERVISOR_INTENT_CAPACITY_def
        split: prod.splits)
  then show ?thesis unfolding demo_mapped_def by (intro prod_eqI) simp_all
qed

lemma demo_canonical: "address_is_canonical 0x200001234"
  by (simp add: address_is_canonical_def drop_bit_eq_div)

theorem paging_map_exact_witness:
  "paging_translate 0x200001234 (Some empty_translation) demo_mapped =
     (PAGING_STATUS_OK, Some (page_translation 0x6234 PAGING_WRITE))"
  using paging_map_exact [OF demo_paging_ok demo_map demo_canonical, of empty_translation] by simp

lemma demo_mapped_ok: "paging_ok demo_mapped"
  using paging_map_view [OF demo_paging_ok demo_map] by blast

definition demo_unmapped :: paging_system where
  "demo_unmapped = snd (paging_unmap 0x200000000 0x2000 demo_mapped)"

definition demo_protected :: paging_system where
  "demo_protected = snd (paging_protect 0x200000000 0x2000 PAGING_READ demo_mapped)"

lemma demo_mapped_intents:
  "ps_intents demo_mapped = [\<lparr>si_virtual_address = 0x200000000, si_physical_address = 0x5000, si_length = 0x2000,
     si_permissions = PAGING_WRITE\<rparr>]"
  using paging_map_view [OF demo_paging_ok demo_map] by (simp add: demo_paging_def)

lemma demo_mapped_leaf:
  assumes "address_is_canonical va" "demo_range va"
  shows "leaf_of (ps_store demo_mapped) va = Some (page_leaf (0x5000 + (va - 0x200000000) div 4096 * 4096) PAGING_WRITE)"
  using paging_map_view [OF demo_paging_ok demo_map] assms by simp

lemma demo_unmap: "paging_unmap 0x200000000 0x2000 demo_mapped = (PAGING_STATUS_OK, demo_unmapped)"
proof -
  have "fst (unmap_range 0x200000000 0x2000 (ps_store demo_mapped)) = PAGING_STATUS_OK"
    using demo_mapped_ok demo_valid(1)
    by (intro unmap_range_succeeds) (simp_all add: paging_ok_def demo_mapped_leaf small_leaf_def page_leaf_def)
  then have "fst (paging_unmap 0x200000000 0x2000 demo_mapped) = PAGING_STATUS_OK"
    using demo_mapped_ok by (auto simp: paging_unmap_def paging_ok_def Let_def split: prod.splits)
  then show ?thesis unfolding demo_unmapped_def by (intro prod_eqI) simp_all
qed

lemma read_permission_ok: "validate_permissions PAGING_READ = PAGING_STATUS_OK"
  by (simp add: validate_permissions_def PAGING_READ_def)

lemma demo_protect: "paging_protect 0x200000000 0x2000 PAGING_READ demo_mapped = (PAGING_STATUS_OK, demo_protected)"
proof -
  let ?pat = "ps_pat_after demo_mapped"
  have ready: "pat_ready ?pat" "hierarchy_ok (ps_store demo_mapped)" using demo_mapped_ok by (simp_all add: paging_ok_def)
  have read: "leaf_memory_type (permissions_to_flags PAGING_READ) 1 ?pat = PAGING_MEMORY_WRITE_BACK"
    using memory_type_compose [OF read_permission_ok ready(1), of 0 1 False] by (simp add: compose_entry_def bit_permission)
  have "leaf_memory_type (compose_entry (0x5000 + (va - 0x200000000) div 4096 * 4096) PAGING_WRITE False) 1 ?pat = PAGING_MEMORY_WRITE_BACK"
    if "demo_range va" for va
  proof -
    have "(va - 0x200000000) div 4096 * 4096 \<le> va - 0x200000000" by simp
    then have "0x5000 + (va - 0x200000000) div 4096 * 4096 < 0x8000" using that by linarith
    then have "0x5000 + (va - 0x200000000) div 4096 * 4096 < 2 ^ 52" by (rule less_trans) simp
    then show ?thesis
      using memory_type_compose [OF write_permission_ok ready(1), of "0x5000 + (va - 0x200000000) div 4096 * 4096" 1 False] by (simp add: bit_permission)
  qed
  then have "fst (protect_range 0x200000000 0x2000 PAGING_READ ?pat (ps_store demo_mapped)) = PAGING_STATUS_OK"
    using demo_valid(1) ready(2) read
    by (intro protect_range_succeeds read_permission_ok) (auto simp: demo_mapped_leaf page_leaf_def)
  then have "fst (paging_protect 0x200000000 0x2000 PAGING_READ demo_mapped) = PAGING_STATUS_OK"
    using demo_mapped_ok by (auto simp: paging_protect_def paging_ok_def Let_def split: prod.splits)
  then show ?thesis unfolding demo_protected_def by (intro prod_eqI) simp_all
qed

theorem paging_map_unmap_witness:
  "paging_unmap 0x200000000 0x2000 demo_mapped = (PAGING_STATUS_OK, demo_unmapped) \<and> ps_intents demo_unmapped = [] \<and>
   paging_translate 0x200001234 (Some empty_translation) demo_unmapped =
     paging_translate 0x200001234 (Some empty_translation) demo_paging"
  using paging_map_unmap [OF demo_paging_ok demo_map demo_unmap demo_canonical, of empty_translation] demo_unmap
  by (simp add: demo_paging_def)

theorem paging_unmap_exact_witness:
  "paging_unmap 0x200000000 0x2000 demo_mapped = (PAGING_STATUS_OK, demo_unmapped) \<and>
   paging_translate 0x200001234 (Some empty_translation) demo_unmapped = (PAGING_STATUS_NOT_MAPPED, Some empty_translation) \<and>
   ps_intents demo_unmapped = []"
proof -
  have "(0x2000 :: nat) \<le> 2 ^ 63" by simp
  from paging_unmap_exact [OF demo_mapped_ok this demo_unmap demo_canonical, of empty_translation] show ?thesis
    using demo_unmap by (simp add: demo_mapped_intents)
qed

theorem paging_protect_exact_witness:
  "paging_protect 0x200000000 0x2000 PAGING_READ demo_mapped = (PAGING_STATUS_OK, demo_protected) \<and>
   (\<exists>t. paging_translate 0x200001234 (Some empty_translation) demo_mapped = (PAGING_STATUS_OK, Some t) \<and>
     paging_translate 0x200001234 (Some empty_translation) demo_protected =
       (PAGING_STATUS_OK, Some (t\<lparr>tr_permissions := PAGING_READ\<rparr>))) \<and>
   map si_permissions (ps_intents demo_protected) = [PAGING_READ]"
proof -
  have "(0x2000 :: nat) \<le> 2 ^ 63" by simp
  from paging_protect_exact [OF demo_mapped_ok this demo_protect demo_canonical, of empty_translation] show ?thesis
    using demo_protect by (simp add: demo_mapped_intents)
qed

theorem paging_audit_exact_witness:
  "pa_write_execute_leaves (the (snd (paging_audit_hierarchy (Some empty_audit) demo_paging))) = 0"
proof -
  have act: "ps_active demo_paging" by (simp add: demo_paging_def)
  have "\<not> writable_executable (map_prod id the (paging_translate va (Some empty_translation) demo_paging))"
    if "address_is_canonical va" for va
    using translate_none [OF demo_leaf that] by (simp add: paging_translate_def demo_paging_def writable_executable_def)
  then show ?thesis using paging_audit_exact [OF act, of empty_audit empty_translation] by blast
qed

definition demo_ops :: "paging_op list" where
  "demo_ops = [Op_Map 0x200000000 0x5000 0x2000 PAGING_WRITE, Op_Unmap 0x200001000 0x1000,
     Op_Protect 0x200000000 0x1000 PAGING_EXECUTE]"

theorem paging_write_xor_execute_witness: "paging_ok (paging_run demo_ops demo_paging)"
proof -
  have "\<forall>va. address_is_canonical va \<longrightarrow>
      \<not> writable_executable (translate_address va (ps_pat_after demo_paging) (ps_store demo_paging))"
    using translate_none [OF demo_leaf] by (simp add: demo_paging_def writable_executable_def)
  from paging_write_xor_execute [OF demo_paging_ok _ this refl, of demo_ops] show ?thesis
    by (simp add: demo_ops_def)
qed

theorem paging_no_stale_translation_witness:
  "0x200001000 \<in> set (pe_invalidated (ps_store demo_mapped))"
proof -
  let ?op = "Op_Map 0x200000000 0x5000 0x2000 PAGING_WRITE"
  have run: "demo_mapped = paging_run [?op] demo_paging" by (simp add: paging_run_def demo_map)
  have "leaf_of (ps_store demo_mapped) 0x200001234 \<noteq> None"
    using paging_map_view [OF demo_paging_ok demo_map] demo_canonical by simp
  then have "paging_translate 0x200001234 (Some empty_translation) demo_mapped \<noteq>
      paging_translate 0x200001234 (Some empty_translation) demo_paging"
    using demo_canonical demo_leaf demo_mapped_ok
    by (auto simp: paging_translate_def paging_ok_def translate_address_def leaf_of_def demo_paging_def split: option.splits)
  from paging_no_stale_translation [OF demo_paging_ok _ _ run demo_canonical this] show ?thesis
    by (simp add: demo_paging_def demo_store_def)
qed

end
