(* ===== verification/Device_Windows.thy ===== *)
theory Device_Windows
  imports Paging "HOL-Library.Multiset" "HOL-Library.Product_Lexorder"
begin

text \<open>
  The registry of device windows of \<open>src/kernel/paging.c\<close>: the physical ranges of devices that paging
  must map with a given memory type. Entries are checked one by one as they are added; the whole
  registry is checked again and brought into a fixed order before it is installed.
\<close>

section \<open>State\<close>

text \<open>Kinds are numbers: the check accepts any value of the enumeration type and refuses those outside it.\<close>

abbreviation (input) PAGING_DEVICE_WINDOW_VGA_TEXT :: nat where "PAGING_DEVICE_WINDOW_VGA_TEXT \<equiv> 0"
abbreviation (input) PAGING_DEVICE_WINDOW_LOCAL_APIC :: nat where "PAGING_DEVICE_WINDOW_LOCAL_APIC \<equiv> 1"
abbreviation (input) PAGING_DEVICE_WINDOW_IO_APIC :: nat where "PAGING_DEVICE_WINDOW_IO_APIC \<equiv> 2"
abbreviation (input) PAGING_DEVICE_WINDOW_PCI_ECAM :: nat where "PAGING_DEVICE_WINDOW_PCI_ECAM \<equiv> 3"
abbreviation (input) PAGING_DEVICE_WINDOW_FRAMEBUFFER :: nat where "PAGING_DEVICE_WINDOW_FRAMEBUFFER \<equiv> 4"
abbreviation (input) PAGING_DEVICE_WINDOW_KIND_COUNT :: nat where "PAGING_DEVICE_WINDOW_KIND_COUNT \<equiv> 5"

definition PAGING_DEVICE_WINDOW_WRITE :: u32 where "PAGING_DEVICE_WINDOW_WRITE = push_bit 0 1"
abbreviation (input) ACPI_MAX_IO_APICS :: nat where "ACPI_MAX_IO_APICS \<equiv> 8"
abbreviation (input) PAGING_DEVICE_WINDOW_CAPACITY :: nat where "PAGING_DEVICE_WINDOW_CAPACITY \<equiv> 12"
abbreviation (input) PAGING_DEVICE_WINDOW_MAX_LENGTH :: nat where "PAGING_DEVICE_WINDOW_MAX_LENGTH \<equiv> 8 * 0x200000"
abbreviation (input) PAGING_ECAM_WINDOW_SIZE :: nat where "PAGING_ECAM_WINDOW_SIZE \<equiv> 0x200000"
abbreviation (input) PAGING_VGA_TEXT_BUFFER_BASE :: nat where "PAGING_VGA_TEXT_BUFFER_BASE \<equiv> 0xB8000"

record paging_device_window =
  dw_kind :: nat
  dw_instance :: nat
  dw_physical_base :: nat
  dw_length :: nat
  dw_memory_type :: paging_memory_type
  dw_permissions :: u32

text \<open>The registry is the list of its entries: the first \<open>count\<close> of the array.\<close>

type_synonym paging_device_windows = "paging_device_window list"

definition paging_device_windows_reset :: "paging_device_windows option \<Rightarrow> paging_device_windows option" where
  "paging_device_windows_reset windows = map_option (\<lambda>_. []) windows"

definition device_memory_type_supported :: "paging_memory_type \<Rightarrow> bool" where
  "device_memory_type_supported memory_type \<longleftrightarrow>
     memory_type = PAGING_MEMORY_WRITE_BACK \<or> memory_type = PAGING_MEMORY_WRITE_COMBINING \<or>
     memory_type = PAGING_MEMORY_UNCACHEABLE"

definition validate_device_window_entry :: "paging_device_window \<Rightarrow> paging_status" where
  "validate_device_window_entry window =
     (if dw_kind window \<ge> PAGING_DEVICE_WINDOW_KIND_COUNT then PAGING_STATUS_BAD_DEVICE_WINDOW_KIND
      else if dw_kind window \<noteq> PAGING_DEVICE_WINDOW_IO_APIC \<and> dw_instance window \<noteq> 0 \<or>
              dw_kind window = PAGING_DEVICE_WINDOW_IO_APIC \<and> dw_instance window \<ge> ACPI_MAX_IO_APICS
        then PAGING_STATUS_BAD_DEVICE_WINDOW_INSTANCE
      else if \<not> device_memory_type_supported (dw_memory_type window)
        then PAGING_STATUS_UNSUPPORTED_DEVICE_WINDOW_MEMORY_TYPE
      else if dw_permissions window AND NOT PAGING_DEVICE_WINDOW_WRITE \<noteq> 0
        then PAGING_STATUS_BAD_DEVICE_WINDOW_PERMISSIONS
      else if dw_length window = 0 then PAGING_STATUS_ZERO_LENGTH_DEVICE_WINDOW
      else if dw_length window > UINT64_MAX - dw_physical_base window
        then PAGING_STATUS_DEVICE_WINDOW_RANGE_OVERFLOW
      else if dw_physical_base window AND (PAGING_PAGE_SIZE - 1) \<noteq> 0 \<or> dw_length window AND (PAGING_PAGE_SIZE - 1) \<noteq> 0
        then PAGING_STATUS_UNALIGNED_DEVICE_WINDOW
      else if dw_kind window = PAGING_DEVICE_WINDOW_PCI_ECAM \<and>
              dw_physical_base window AND (PAGING_HUGE_PAGE_SIZE - 1) \<noteq> 0
        then PAGING_STATUS_UNALIGNED_DEVICE_WINDOW
      else if dw_kind window = PAGING_DEVICE_WINDOW_VGA_TEXT \<and> dw_physical_base window \<noteq> PAGING_VGA_TEXT_BUFFER_BASE \<or>
              (dw_kind window = PAGING_DEVICE_WINDOW_VGA_TEXT \<or> dw_kind window = PAGING_DEVICE_WINDOW_LOCAL_APIC \<or>
               dw_kind window = PAGING_DEVICE_WINDOW_IO_APIC) \<and> dw_length window \<noteq> PAGING_PAGE_SIZE \<or>
              dw_kind window = PAGING_DEVICE_WINDOW_PCI_ECAM \<and> dw_length window \<noteq> PAGING_ECAM_WINDOW_SIZE
        then PAGING_STATUS_DEVICE_WINDOW_UNSUPPORTED_RANGE
      else if dw_physical_base window = 0 \<or> dw_length window > PAGING_DEVICE_WINDOW_MAX_LENGTH \<or>
              dw_physical_base window + dw_length window > RSD_EARLY_PHYSICAL_LIMIT
        then PAGING_STATUS_DEVICE_WINDOW_UNSUPPORTED_RANGE
      else PAGING_STATUS_OK)"

definition paging_device_windows_add ::
    "paging_device_windows option \<Rightarrow> nat \<Rightarrow> nat \<Rightarrow> nat \<Rightarrow> nat \<Rightarrow> paging_memory_type \<Rightarrow> u32 \<Rightarrow>
     paging_status \<times> paging_device_windows option" where
  "paging_device_windows_add windows kind inst physical_base len memory_type permissions =
     (case windows of
        None \<Rightarrow> (PAGING_STATUS_NULL_ARGUMENT, None)
      | Some ws \<Rightarrow>
          if length ws \<ge> PAGING_DEVICE_WINDOW_CAPACITY then (PAGING_STATUS_TOO_MANY_DEVICE_WINDOWS, Some ws)
          else
            (let window = \<lparr>dw_kind = kind, dw_instance = inst, dw_physical_base = physical_base, dw_length = len,
                   dw_memory_type = memory_type, dw_permissions = permissions\<rparr>;
                 status = validate_device_window_entry window in
             if status \<noteq> PAGING_STATUS_OK then (status, Some ws) else (PAGING_STATUS_OK, Some (ws @ [window]))))"

section \<open>Order and overlap\<close>

definition memory_type_code :: "paging_memory_type \<Rightarrow> nat" where
  "memory_type_code t =
     (case t of PAGING_MEMORY_WRITE_BACK \<Rightarrow> 0 | PAGING_MEMORY_WRITE_COMBINING \<Rightarrow> 1 | PAGING_MEMORY_UNCACHEABLE \<Rightarrow> 2
      | PAGING_MEMORY_WRITE_THROUGH \<Rightarrow> 3 | PAGING_MEMORY_WRITE_PROTECTED \<Rightarrow> 4 | PAGING_MEMORY_UNCACHED_MINUS \<Rightarrow> 5
      | PAGING_MEMORY_INVALID \<Rightarrow> 6)"

definition compare_device_windows :: "paging_device_window \<Rightarrow> paging_device_window \<Rightarrow> int" where
  "compare_device_windows left right =
     (if dw_physical_base left \<noteq> dw_physical_base right
        then if dw_physical_base left < dw_physical_base right then -1 else 1
      else if dw_length left \<noteq> dw_length right then if dw_length left < dw_length right then -1 else 1
      else if dw_kind left \<noteq> dw_kind right then if dw_kind left < dw_kind right then -1 else 1
      else if dw_instance left \<noteq> dw_instance right then if dw_instance left < dw_instance right then -1 else 1
      else if dw_memory_type left \<noteq> dw_memory_type right
        then if memory_type_code (dw_memory_type left) < memory_type_code (dw_memory_type right) then -1 else 1
      else if dw_permissions left \<noteq> dw_permissions right
        then if dw_permissions left < dw_permissions right then -1 else 1
      else 0)"

definition ranges_overlap :: "paging_device_window \<Rightarrow> paging_device_window \<Rightarrow> bool" where
  "ranges_overlap left right \<longleftrightarrow>
     dw_physical_base left < add64 (dw_physical_base right) (dw_length right) \<and>
     dw_physical_base right < add64 (dw_physical_base left) (dw_length left)"

section \<open>Validation\<close>

text \<open>The first loop: every entry, and which of the required kinds were seen.\<close>

fun validate_entries :: "paging_device_windows \<Rightarrow> paging_status" where
  "validate_entries [] = PAGING_STATUS_OK"
| "validate_entries (window # rest) =
     (if validate_device_window_entry window \<noteq> PAGING_STATUS_OK then validate_device_window_entry window
      else validate_entries rest)"

record window_faults =
  wf_conflicting_overlap :: bool
  wf_duplicate :: bool
  wf_overlap :: bool

definition fault_pair :: "paging_device_window \<Rightarrow> paging_device_window \<Rightarrow> window_faults \<Rightarrow> window_faults" where
  "fault_pair first second faults =
     (let pair_overlaps = ranges_overlap first second;
          faults = (if pair_overlaps \<and> dw_memory_type first \<noteq> dw_memory_type second
                    then faults\<lparr>wf_conflicting_overlap := True\<rparr> else faults) in
      if compare_device_windows first second = 0 \<or>
         dw_kind first = dw_kind second \<and> dw_instance first = dw_instance second
      then faults\<lparr>wf_duplicate := True\<rparr>
      else if pair_overlaps then faults\<lparr>wf_overlap := True\<rparr> else faults)"

fun fault_pairs :: "paging_device_windows \<Rightarrow> window_faults \<Rightarrow> window_faults" where
  "fault_pairs [] faults = faults"
| "fault_pairs (first # rest) faults = fault_pairs rest (fold (fault_pair first) rest faults)"

text \<open>The insertion loop of the sort: entries above \<open>current\<close> move up one place.\<close>

fun sift_window :: "paging_device_window \<Rightarrow> nat \<Rightarrow> paging_device_windows \<Rightarrow> paging_device_windows" where
  "sift_window current 0 entries = entries[0 := current]"
| "sift_window current (Suc destination) entries =
     (if compare_device_windows current (entries ! destination) < 0
      then sift_window current destination (entries[Suc destination := entries ! destination])
      else entries[Suc destination := current])"

definition sort_windows :: "paging_device_windows \<Rightarrow> paging_device_windows" where
  "sort_windows entries = fold (\<lambda>index entries. sift_window (entries ! index) index entries) [1 ..< length entries] entries"

definition paging_device_windows_validate ::
    "paging_device_windows option \<Rightarrow> paging_device_windows option \<Rightarrow> paging_status \<times> paging_device_windows option" where
  "paging_device_windows_validate windows validated =
     (case (windows, validated) of
        (Some ws, Some out) \<Rightarrow>
          if length ws > PAGING_DEVICE_WINDOW_CAPACITY then (PAGING_STATUS_TOO_MANY_DEVICE_WINDOWS, validated)
          else if validate_entries ws \<noteq> PAGING_STATUS_OK then (validate_entries ws, validated)
          else
            (let found = (\<lambda>kind. list_ex (\<lambda>window. dw_kind window = kind) ws);
                 faults = fault_pairs ws \<lparr>wf_conflicting_overlap = False, wf_duplicate = False, wf_overlap = False\<rparr> in
             if wf_conflicting_overlap faults then (PAGING_STATUS_CONFLICTING_DEVICE_WINDOW_OVERLAP, validated)
             else if wf_duplicate faults then (PAGING_STATUS_DUPLICATE_DEVICE_WINDOW, validated)
             else if wf_overlap faults then (PAGING_STATUS_OVERLAPPING_DEVICE_WINDOWS, validated)
             else if \<not> found PAGING_DEVICE_WINDOW_VGA_TEXT \<or> \<not> found PAGING_DEVICE_WINDOW_LOCAL_APIC \<or>
                     \<not> found PAGING_DEVICE_WINDOW_IO_APIC
               then (PAGING_STATUS_REQUIRED_DEVICE_WINDOW_MISSING, validated)
             else (PAGING_STATUS_OK, Some (sort_windows ws)))
      | _ \<Rightarrow> (PAGING_STATUS_NULL_ARGUMENT, validated))"


section \<open>The sort\<close>

definition window_key :: "paging_device_window \<Rightarrow> nat \<times> nat \<times> nat \<times> nat \<times> nat \<times> nat" where
  "window_key w = (dw_physical_base w, dw_length w, dw_kind w, dw_instance w,
     memory_type_code (dw_memory_type w), unat (dw_permissions w))"

lemma memory_type_code_eq: "memory_type_code s = memory_type_code t \<longleftrightarrow> s = t"
  by (cases s; cases t) (simp_all add: memory_type_code_def)

lemma window_key_eq: "window_key v = window_key w \<longleftrightarrow> v = w"
  by (cases v; cases w) (auto simp: window_key_def memory_type_code_eq dest: word_unat_eq_iff [THEN iffD2])

lemma compare_window_key:
  "compare_device_windows v w < 0 \<longleftrightarrow> window_key v < window_key w"
  "compare_device_windows v w = 0 \<longleftrightarrow> v = w"
proof -
  show "compare_device_windows v w < 0 \<longleftrightarrow> window_key v < window_key w"
    by (auto simp: compare_device_windows_def window_key_def less_prod_def' memory_type_code_eq word_less_nat_alt)
  show "compare_device_windows v w = 0 \<longleftrightarrow> v = w"
    by (cases v; cases w) (auto simp: compare_device_windows_def)
qed

lemma sift_window_sorted:
  assumes "sorted (map window_key pre)"
  shows "\<exists>r. sift_window c (length pre) (pre @ y # rest) = r @ rest \<and> mset r = add_mset c (mset pre) \<and>
    sorted (map window_key r)"
  using assms
proof (induction pre arbitrary: y rest rule: rev_induct)
  case Nil
  show ?case by (intro exI [of _ "[c]"]) simp
next
  case (snoc z pre)
  have pre: "sorted (map window_key pre)" "\<forall>x \<in> set pre. window_key x \<le> window_key z"
    using snoc.prems by (simp_all add: sorted_append)
  show ?case
  proof (cases "window_key c < window_key z")
    case True
    obtain r where r: "sift_window c (length pre) (pre @ z # z # rest) = r @ z # rest" "mset r = add_mset c (mset pre)"
      "sorted (map window_key r)"
      using snoc.IH [OF pre(1), of z "z # rest"] by blast
    have "set r = insert c (set pre)" using arg_cong [OF r(2), of set_mset] by simp
    then have le: "\<forall>x \<in> set r. window_key x \<le> window_key z" using True pre(2) by (metis insert_iff less_imp_le)
    have "sift_window c (length (pre @ [z])) ((pre @ [z]) @ y # rest) = (r @ [z]) @ rest"
      using r(1) True by (simp add: compare_window_key nth_append list_update_append)
    then show ?thesis using r le by (intro exI [of _ "r @ [z]"]) (auto simp: sorted_append)
  next
    case False
    then have zc: "window_key z \<le> window_key c" by simp
    then have le: "\<forall>x \<in> set pre. window_key x \<le> window_key c" using pre(2) by (meson order_trans)
    have "sift_window c (length (pre @ [z])) ((pre @ [z]) @ y # rest) = (pre @ [z, c]) @ rest"
      using False by (simp add: compare_window_key nth_append list_update_append)
    then show ?thesis using pre zc le by (intro exI [of _ "pre @ [z, c]"]) (auto simp: sorted_append)
  qed
qed

text \<open>The insertion sort of the code is the stable sort of the library.\<close>

lemma sort_windows_eq: "sort_windows ws = sort_key window_key ws"
proof -
  have "\<exists>r. fold (\<lambda>index entries. sift_window (entries ! index) index entries) [1 ..< k] ws = r @ drop k ws \<and>
      mset r = mset (take k ws) \<and> sorted (map window_key r)" if "1 \<le> k" "k \<le> length ws" for k
    using that
  proof (induction k)
    case (Suc k)
    show ?case
    proof (cases "k = 0")
      case True
      then show ?thesis using Suc.prems by (cases ws) (auto intro!: exI [of _ "[hd ws]"])
    next
      case False
      then obtain r where r: "fold (\<lambda>index entries. sift_window (entries ! index) index entries) [1 ..< k] ws = r @ drop k ws"
        "mset r = mset (take k ws)" "sorted (map window_key r)" using Suc by auto
      have len: "length r = k" using arg_cong [OF r(2), of size] Suc.prems by simp
      have split: "drop k ws = ws ! k # drop (Suc k) ws" using Suc.prems by (simp add: Cons_nth_drop_Suc)
      obtain r' where r': "sift_window (ws ! k) (length r) (r @ ws ! k # drop (Suc k) ws) = r' @ drop (Suc k) ws"
        "mset r' = add_mset (ws ! k) (mset r)" "sorted (map window_key r')"
        using sift_window_sorted [OF r(3), of "ws ! k" "ws ! k" "drop (Suc k) ws"] by blast
      have "fold (\<lambda>index entries. sift_window (entries ! index) index entries) [1 ..< Suc k] ws = r' @ drop (Suc k) ws"
        using False r(1) r'(1) len by (simp add: split nth_append)
      moreover have "mset r' = mset (take (Suc k) ws)" using r'(2) r(2) Suc.prems by (simp add: take_Suc_conv_app_nth)
      ultimately show ?thesis using r'(3) by blast
    qed
  qed simp
  from this [of "length ws"] obtain r where "sort_windows ws = r" "mset r = mset ws" "sorted (map window_key r)"
    by (cases ws) (auto simp: sort_windows_def)
  moreover have "inj_on window_key (set ws)" by (simp add: inj_on_def window_key_eq)
  ultimately show ?thesis using sort_key_inj_key_eq [of ws r window_key] by simp
qed


section \<open>Faults between pairs\<close>

fun some_pair :: "('a \<Rightarrow> 'a \<Rightarrow> bool) \<Rightarrow> 'a list \<Rightarrow> bool" where
  "some_pair P [] = False"
| "some_pair P (x # xs) = (list_ex (P x) xs \<or> some_pair P xs)"

lemma some_pair_mset:
  assumes "\<And>a b. P a b \<longleftrightarrow> P b a"
  shows "some_pair P xs \<longleftrightarrow> (\<exists>a b M. mset xs = add_mset a (add_mset b M) \<and> P a b)"
proof (induction xs)
  case (Cons x xs)
  show ?case
  proof
    assume "some_pair P (x # xs)"
    then consider y where "y \<in> set xs" "P x y" | "some_pair P xs" by (auto simp: list_ex_iff)
    then show "\<exists>a b M. mset (x # xs) = add_mset a (add_mset b M) \<and> P a b"
    proof cases
      case 1
      then have "mset (x # xs) = add_mset x (add_mset y (mset xs - {#y#}))" by simp
      then show ?thesis using 1(2) by blast
    next
      case 2
      then obtain a b M where "mset xs = add_mset a (add_mset b M)" "P a b" using Cons.IH by blast
      then have "mset (x # xs) = add_mset a (add_mset b (add_mset x M))" "P a b" by simp_all
      then show ?thesis by blast
    qed
  next
    assume "\<exists>a b M. mset (x # xs) = add_mset a (add_mset b M) \<and> P a b"
    then obtain a b M where ab: "add_mset x (mset xs) = add_mset a (add_mset b M)" "P a b" by auto
    consider "x = a" | "x = b" | "x \<noteq> a" "x \<noteq> b" by blast
    then show "some_pair P (x # xs)"
    proof cases
      case 1
      then have "b \<in># mset xs" using ab(1) by simp
      then show ?thesis using 1 ab(2) by (auto simp: list_ex_iff)
    next
      case 2
      then have "mset xs = add_mset a M" using ab(1) by (simp add: add_mset_commute)
      then have "a \<in># mset xs" by simp
      then show ?thesis using 2 ab(2) assms by (auto simp: list_ex_iff)
    next
      case 3
      have "x \<in># add_mset a (add_mset b M)" using ab(1) by (metis union_single_eq_member)
      then have "x \<in># M" using 3 by simp
      then obtain N where "M = add_mset x N" by (meson mset_add)
      then have "mset xs = add_mset a (add_mset b N)" using ab(1) by (simp add: add_mset_commute [of x])
      then show ?thesis using Cons.IH ab(2) by auto
    qed
  qed
qed simp

definition same_slot :: "paging_device_window \<Rightarrow> paging_device_window \<Rightarrow> bool" where
  "same_slot a b \<longleftrightarrow> dw_kind a = dw_kind b \<and> dw_instance a = dw_instance b"

definition type_conflict :: "paging_device_window \<Rightarrow> paging_device_window \<Rightarrow> bool" where
  "type_conflict a b \<longleftrightarrow> ranges_overlap a b \<and> dw_memory_type a \<noteq> dw_memory_type b"

definition plain_overlap :: "paging_device_window \<Rightarrow> paging_device_window \<Rightarrow> bool" where
  "plain_overlap a b \<longleftrightarrow> ranges_overlap a b \<and> \<not> same_slot a b"

lemma fault_sym:
  "same_slot a b \<longleftrightarrow> same_slot b a" "type_conflict a b \<longleftrightarrow> type_conflict b a" "plain_overlap a b \<longleftrightarrow> plain_overlap b a"
  by (auto simp: same_slot_def type_conflict_def plain_overlap_def ranges_overlap_def)

lemma fault_pair_eq:
  "fault_pair a b f =
     \<lparr>wf_conflicting_overlap = (wf_conflicting_overlap f \<or> type_conflict a b),
      wf_duplicate = (wf_duplicate f \<or> same_slot a b),
      wf_overlap = (wf_overlap f \<or> plain_overlap a b)\<rparr>"
  by (auto simp: fault_pair_def Let_def compare_window_key same_slot_def type_conflict_def plain_overlap_def)

lemma fold_fault_pair:
  "fold (fault_pair a) xs f =
     \<lparr>wf_conflicting_overlap = (wf_conflicting_overlap f \<or> list_ex (type_conflict a) xs),
      wf_duplicate = (wf_duplicate f \<or> list_ex (same_slot a) xs),
      wf_overlap = (wf_overlap f \<or> list_ex (plain_overlap a) xs)\<rparr>"
  by (induction xs arbitrary: f) (simp_all add: fault_pair_eq disj_assoc)

lemma fault_pairs_eq:
  "fault_pairs xs f =
     \<lparr>wf_conflicting_overlap = (wf_conflicting_overlap f \<or> some_pair type_conflict xs),
      wf_duplicate = (wf_duplicate f \<or> some_pair same_slot xs),
      wf_overlap = (wf_overlap f \<or> some_pair plain_overlap xs)\<rparr>"
  by (induction xs arbitrary: f) (simp_all add: fold_fault_pair disj_assoc)

lemma some_pair_permute:
  assumes "mset xs = mset ys" "\<And>a b. P a b \<longleftrightarrow> P b a"
  shows "some_pair P xs = some_pair P ys"
  unfolding some_pair_mset [OF assms(2)] assms(1) ..

lemmas faults_permute = some_pair_permute [OF _ fault_sym(1)] some_pair_permute [OF _ fault_sym(2)]
  some_pair_permute [OF _ fault_sym(3)]

lemma fault_pairs_mset:
  assumes "mset xs = mset ys"
  shows "fault_pairs xs f = fault_pairs ys f"
  unfolding fault_pairs_eq faults_permute [OF assms] ..

lemma validate_entries_OK: "validate_entries ws = PAGING_STATUS_OK \<longleftrightarrow> (\<forall>w \<in> set ws. validate_device_window_entry w = PAGING_STATUS_OK)"
  by (induction ws) auto

lemma guard_OK: "e \<noteq> PAGING_STATUS_OK \<Longrightarrow> (if c then e else r) = PAGING_STATUS_OK \<longleftrightarrow> \<not> c \<and> r = PAGING_STATUS_OK"
  by simp

lemma window_entry_OK:
  assumes "validate_device_window_entry w = PAGING_STATUS_OK"
  shows "0 < dw_length w" "4096 dvd dw_physical_base w" "4096 dvd dw_length w" "4096 \<le> dw_physical_base w"
    "dw_physical_base w + dw_length w \<le> 2 ^ 32" "device_memory_type_supported (dw_memory_type w)"
    "dw_kind w = PAGING_DEVICE_WINDOW_VGA_TEXT \<Longrightarrow> dw_physical_base w = PAGING_VGA_TEXT_BUFFER_BASE"
    "dw_permissions w AND NOT PAGING_DEVICE_WINDOW_WRITE = 0"
proof -
  have v: "dw_length w \<noteq> 0" "4096 dvd dw_physical_base w" "4096 dvd dw_length w" "dw_physical_base w \<noteq> 0"
    "dw_physical_base w + dw_length w \<le> 2 ^ 32" "device_memory_type_supported (dw_memory_type w)"
    "dw_kind w = 0 \<longrightarrow> dw_physical_base w = 0xB8000" "dw_permissions w AND NOT PAGING_DEVICE_WINDOW_WRITE = 0"
    using assms unfolding validate_device_window_entry_def aligned_iff by (simp_all add: guard_OK, auto)
  then show "0 < dw_length w" "4096 dvd dw_physical_base w" "4096 dvd dw_length w" "4096 \<le> dw_physical_base w"
    "dw_physical_base w + dw_length w \<le> 2 ^ 32" "device_memory_type_supported (dw_memory_type w)"
    "dw_kind w = 0 \<Longrightarrow> dw_physical_base w = 0xB8000" "dw_permissions w AND NOT PAGING_DEVICE_WINDOW_WRITE = 0"
    by (simp_all add: dvd_imp_le)
qed

lemma some_pair_sorted_wrt: "\<not> some_pair P xs \<longleftrightarrow> sorted_wrt (\<lambda>a b. \<not> P a b) xs"
  by (induction xs) (auto simp: list_ex_iff)

lemma device_windows_validate_OK:
  assumes "paging_device_windows_validate (Some ws) (Some out) = (PAGING_STATUS_OK, Some v)"
  shows "v = sort_windows ws" "length ws \<le> 12" "\<forall>w \<in> set ws. validate_device_window_entry w = PAGING_STATUS_OK"
    "\<not> some_pair same_slot ws" "\<not> some_pair plain_overlap ws"
    "list_ex (\<lambda>w. dw_kind w = 0) ws" "list_ex (\<lambda>w. dw_kind w = 1) ws" "list_ex (\<lambda>w. dw_kind w = 2) ws"
  using assms unfolding paging_device_windows_validate_def
  by (auto simp: Let_def fault_pairs_eq validate_entries_OK split: if_splits)

section \<open>Guarantees\<close>

text \<open>C33. The order in which valid windows were added does not matter: every permutation of them gets the
  same status, whatever fault it names, and the same installed registry.\<close>

theorem device_windows_order_independent:
  assumes "mset ws' = mset ws" "\<forall>w \<in> set ws. validate_device_window_entry w = PAGING_STATUS_OK"
  shows "paging_device_windows_validate (Some ws') (Some out) = paging_device_windows_validate (Some ws) (Some out)"
proof -
  have same: "set ws' = set ws" "length ws' = length ws" using assms(1) mset_eq_setD mset_eq_length by blast+
  then have "validate_entries ws' = PAGING_STATUS_OK" "validate_entries ws = PAGING_STATUS_OK"
    using assms(2) by (simp_all add: validate_entries_OK)
  moreover have "sort_windows ws' = sort_windows ws"
  proof -
    have "inj_on window_key (set ws')" by (simp add: inj_on_def window_key_eq)
    from sort_key_inj_key_eq [OF _ this, of "sort_key window_key ws"] show ?thesis
      using assms(1) by (simp add: sort_windows_eq)
  qed
  moreover have "list_ex P ws' = list_ex P ws" for P using same(1) by (simp add: list_ex_iff)
  ultimately show ?thesis
    using same(2) fault_pairs_mset [OF assms(1)] by (simp add: paging_device_windows_validate_def Let_def)
qed

text \<open>C34. An accepted registry is a permutation of the windows given, in ascending order, with no two
  windows overlapping or naming the same device; every window is page-aligned memory below 4 GiB that
  excludes page zero, and the three required devices are present.\<close>

theorem device_windows_accepted:
  assumes "paging_device_windows_validate (Some ws) (Some out) = (PAGING_STATUS_OK, Some v)"
  shows "mset v = mset ws \<and> length v \<le> PAGING_DEVICE_WINDOW_CAPACITY \<and>
    sorted_wrt (\<lambda>a b. dw_physical_base a + dw_length a \<le> dw_physical_base b \<and> \<not> same_slot a b) v \<and>
    (\<forall>w \<in> set v. 0 < dw_length w \<and> 4096 dvd dw_physical_base w \<and> 4096 dvd dw_length w \<and>
       4096 \<le> dw_physical_base w \<and> dw_physical_base w + dw_length w \<le> 2 ^ 32 \<and>
       device_memory_type_supported (dw_memory_type w)) \<and>
    (\<forall>kind < 3. \<exists>w \<in> set v. dw_kind w = kind)"
proof -
  note v = device_windows_validate_OK [OF assms]
  have mset: "mset v = mset ws" and sorted: "sorted (map window_key v)"
    unfolding v(1) sort_windows_eq by simp_all
  have sets: "set v = set ws" "length v = length ws" using mset mset_eq_setD mset_eq_length by blast+
  have no_slot: "\<not> some_pair same_slot v" "\<not> some_pair plain_overlap v" using v(4,5) faults_permute(1,3) [OF mset] by simp_all
  have "validate_device_window_entry w = PAGING_STATUS_OK" if "w \<in> set v" for w using v(3) that sets(1) by simp
  note entry = window_entry_OK [OF this]
  have step: "dw_physical_base a + dw_length a \<le> dw_physical_base b"
    if "a \<in> set v" "b \<in> set v" "dw_physical_base a \<le> dw_physical_base b" "\<not> same_slot a b" "\<not> plain_overlap a b" for a b
  proof -
    have "add64 (dw_physical_base a) (dw_length a) = dw_physical_base a + dw_length a"
      "add64 (dw_physical_base b) (dw_length b) = dw_physical_base b + dw_length b"
      using entry(5) that(1,2) by (auto intro!: add64_exact dest!: entry(5))
    then show ?thesis using that entry(1) [OF that(2)] by (auto simp: plain_overlap_def ranges_overlap_def)
  qed
  have "sorted_wrt (\<lambda>a b. dw_physical_base a \<le> dw_physical_base b) v"
    using sorted unfolding sorted_map by (rule sorted_wrt_mono_rel [rotated]) (auto simp: window_key_def less_eq_prod_def)
  then have "sorted_wrt (\<lambda>a b. dw_physical_base a + dw_length a \<le> dw_physical_base b \<and> \<not> same_slot a b) v"
    using no_slot step unfolding some_pair_sorted_wrt sorted_wrt_iff_nth_less by (auto dest: nth_mem)
  moreover have "\<exists>w \<in> set v. dw_kind w = kind" if "kind < 3" for kind
    using that v(6-8) sets(1) by (auto simp: list_ex_iff less_Suc_eq numeral_eq_Suc)
  ultimately show ?thesis using mset sets(2) v(2) entry by simp
qed


section \<open>Witnesses\<close>

definition demo_window :: "nat \<Rightarrow> nat \<Rightarrow> paging_device_window" where
  "demo_window kind base = \<lparr>dw_kind = kind, dw_instance = 0, dw_physical_base = base, dw_length = 4096,
     dw_memory_type = PAGING_MEMORY_UNCACHEABLE, dw_permissions = PAGING_DEVICE_WINDOW_WRITE\<rparr>"

definition demo_windows :: paging_device_windows where
  "demo_windows = [demo_window 0 0xB8000, demo_window 1 0xFEE00000, demo_window 2 0xFEC00000]"

lemma demo_window_OK:
  "4096 dvd base \<Longrightarrow> 0 < base \<Longrightarrow> base + 4096 \<le> 0x100000000 \<Longrightarrow> kind < 3 \<Longrightarrow> (kind = 0 \<Longrightarrow> base = 0xB8000) \<Longrightarrow>
    validate_device_window_entry (demo_window kind base) = PAGING_STATUS_OK"
  unfolding validate_device_window_entry_def aligned_iff
  by (auto simp: demo_window_def device_memory_type_supported_def UINT64_MAX_def)

lemma demo_windows_valid: "\<forall>w \<in> set demo_windows. validate_device_window_entry w = PAGING_STATUS_OK"
  by (auto simp: demo_windows_def intro!: demo_window_OK)

theorem device_windows_order_independent_witness:
  "paging_device_windows_validate (Some (rev demo_windows)) (Some []) =
   paging_device_windows_validate (Some demo_windows) (Some [])"
  by (rule device_windows_order_independent [OF _ demo_windows_valid]) simp

lemma demo_windows_validate:
  "paging_device_windows_validate (Some demo_windows) (Some []) =
    (PAGING_STATUS_OK, Some [demo_window 0 0xB8000, demo_window 2 0xFEC00000, demo_window 1 0xFEE00000])"
proof -
  let ?v = "[demo_window 0 0xB8000, demo_window 2 0xFEC00000, demo_window 1 0xFEE00000]"
  have "sorted (map window_key ?v)" by (simp add: window_key_def demo_window_def)
  moreover have "mset demo_windows = mset ?v" by (simp add: demo_windows_def add_mset_commute)
  moreover have "inj_on window_key (set demo_windows)" by (simp add: inj_on_def window_key_eq)
  ultimately have sort: "sort_windows demo_windows = ?v" unfolding sort_windows_eq by (intro sort_key_inj_key_eq)
  have pairs: "\<not> some_pair same_slot demo_windows" "\<not> some_pair type_conflict demo_windows" "\<not> some_pair plain_overlap demo_windows"
    by (simp_all add: demo_windows_def same_slot_def plain_overlap_def type_conflict_def ranges_overlap_def,
        simp_all add: demo_window_def add64_def)
  have "list_ex (\<lambda>w. dw_kind w = k) demo_windows" if "k = 0 \<or> k = 1 \<or> k = 2" for k
    using that by (auto simp: demo_windows_def demo_window_def)
  moreover have "length demo_windows = 3" by (simp add: demo_windows_def)
  moreover have "validate_entries demo_windows = PAGING_STATUS_OK" using demo_windows_valid by (simp add: validate_entries_OK)
  ultimately show ?thesis
    by (simp add: paging_device_windows_validate_def Let_def fault_pairs_eq pairs sort)
qed

theorem device_windows_accepted_witness:
  "length [demo_window 0 0xB8000, demo_window 2 0xFEC00000, demo_window 1 0xFEE00000] \<le> 12 \<and>
   sorted_wrt (\<lambda>a b. dw_physical_base a + dw_length a \<le> dw_physical_base b \<and> \<not> same_slot a b)
     [demo_window 0 0xB8000, demo_window 2 0xFEC00000, demo_window 1 0xFEE00000]"
  using device_windows_accepted [OF demo_windows_validate] by blast

end
