(* ===== verification/Large_Pages.thy ===== *)
theory Large_Pages
  imports Paging
begin

text \<open>
  Leaves of 2 MiB, which the identity map at boot uses: what a large page maps its addresses to, when
  mapping one succeeds, and that building in one region of 2 MiB leaves the vacant ones vacant.
\<close>

section \<open>Addresses inside a page\<close>

lemma walk_along_level:
  "walk_along T f l t w x u = Some (lv, e) \<Longrightarrow> (\<And>k. lv \<le> k \<Longrightarrow> k \<le> l \<Longrightarrow> g k = f k) \<Longrightarrow>
    walk_along T g l t w x u = Some (lv, e) \<and> lv \<le> l"
proof (induction l arbitrary: t w x u)
  case (Suc l)
  let ?e = "T t (f (Suc l))"
  show ?case
  proof (cases "l = 0 \<or> bit ?e 7")
    case True
    then have "lv = Suc l" using Suc.prems(1) by (auto simp: Let_def split: if_splits)
    then show ?thesis using Suc.prems True by (auto simp: Let_def split: if_splits)
  next
    case False
    then have step: "bit ?e 0" "walk_along T f l (frame_of ?e) (w \<and> bit ?e 1) (x \<and> \<not> bit ?e 63) (u \<and> bit ?e 2) = Some (lv, e)"
      using Suc.prems(1) by (auto simp: Let_def split: if_splits)
    from Suc.IH [OF step(2)] Suc.prems(2)
    have "walk_along T g l (frame_of ?e) (w \<and> bit ?e 1) (x \<and> \<not> bit ?e 63) (u \<and> bit ?e 2) = Some (lv, e)" "lv \<le> l" by auto
    then show ?thesis using Suc.prems(2) [of "Suc l"] False step(1) by (simp add: Let_def)
  qed
qed simp

lemma leaf_of_same_page:
  assumes "leaf_of st va = Some (lv, e)" "1 \<le> lv" "va' div level_page_size lv = va div level_page_size lv"
  shows "leaf_of st va' = Some (lv, e)"
proof -
  have "table_index va' k = table_index va k" if "lv \<le> k" for k
  proof -
    have "12 + 9 * (k - 1) = (12 + 9 * (lv - 1)) + 9 * (k - lv)" using that assms(2) by simp
    then have "(2 :: nat) ^ (12 + 9 * (k - 1)) = level_page_size lv * 2 ^ (9 * (k - lv))"
      by (simp add: level_page_size_def push_bit_eq_mult power_add)
    then show ?thesis unfolding table_index_eq by (simp only: div_mult2_eq assms(3))
  qed
  then show ?thesis
    using assms(1) walk_along_level unfolding leaf_of_def translate_walk_along by blast
qed

lemma page_physical:
  assumes "a < 2 ^ 64" "k < 64"
  shows "(a AND not64 (2 ^ k - 1)) OR (va AND (2 ^ k - 1)) = (a - a mod 2 ^ k) + va mod 2 ^ k"
proof -
  have "a AND not64 (2 ^ k - 1) = a - a mod 2 ^ k" using assms by (intro and_not64_mask) simp_all
  moreover have "va AND (2 ^ k - 1) = take_bit k va" by (simp only: and_low_mask take_bit_eq_mod)
  moreover have "(a - a mod 2 ^ k) + take_bit k va = (a - a mod 2 ^ k) OR take_bit k va"
  proof (rule disjunctive_add)
    have "take_bit k (a - a mod 2 ^ k) = 0" by (simp add: take_bit_eq_mod minus_mod_eq_mult_div)
    then show "\<not> bit (a - a mod 2 ^ k) n \<or> \<not> bit (take_bit k va) n" for n
      by (metis bit_0_eq bit_take_bit_iff bot_apply bot_bool_def)
  qed
  ultimately show ?thesis by (simp add: take_bit_eq_mod)
qed

lemma translate_same_page:
  assumes "translate_address base pat st = (PAGING_STATUS_OK, t)" "tr_physical_address t = base"
    and "tr_level t = 1 \<or> tr_level t = 2" "level_page_size (tr_level t) dvd base"
    and "address_is_canonical va" "va div level_page_size (tr_level t) = base div level_page_size (tr_level t)"
  shows "translate_address va pat st = (PAGING_STATUS_OK, t\<lparr>tr_physical_address := va\<rparr>)"
proof -
  obtain lv e w x u where leaf: "leaf_of st base = Some (lv, e, w, x, u)" "t = fill_translation e base lv w x u pat"
    using assms(1) by (auto simp: translate_address_def leaf_of_def split: if_splits option.splits)
  have lv: "tr_level t = lv" by (simp add: leaf(2) fill_translation_def Let_def)
  have "leaf_of st va = Some (lv, e, w, x, u)"
    using leaf_of_same_page [OF leaf(1)] assms(3,6) lv by auto
  then have eq: "translate_address va pat st = (PAGING_STATUS_OK, fill_translation e va lv w x u pat)"
    using assms(5) by (simp add: translate_address_def leaf_of_def)
  define k where "k = 12 + 9 * (lv - 1)"
  have k: "level_page_size lv = 2 ^ k" "k < 64" using assms(3) lv by (auto simp: level_page_size_def push_bit_eq_mult k_def)
  have "frame_of e < 2 ^ 64" using frame_of_less by (rule less_trans) simp
  note phys = page_physical [OF this k(2)]
  have "base mod 2 ^ k = 0" using assms(4) lv k(1) by (simp add: mod_eq_0_iff_dvd)
  then have "frame_of e - frame_of e mod 2 ^ k = base"
    using assms(2) phys [of base] unfolding leaf(2) fill_translation_def Let_def k(1) by simp
  moreover have "base + va mod 2 ^ k = va"
    using assms(4,6) lv k(1) by (metis dvd_div_mult_self div_mult_mod_eq)
  ultimately have "(frame_of e AND not64 (2 ^ k - 1)) OR (va AND (2 ^ k - 1)) = va" using phys [of va] by simp
  then have "fill_translation e va lv w x u pat = t\<lparr>tr_physical_address := va\<rparr>"
    unfolding leaf(2) fill_translation_def Let_def k(1) by simp
  then show ?thesis using eq by simp
qed

section \<open>Regions of 2 MiB\<close>

lemma seg_region_iff:
  assumes "address_is_canonical va" "address_is_canonical va'"
  shows "seg 4 1 va = seg 4 1 va' \<longleftrightarrow> va div 0x200000 = va' div 0x200000"
proof
  have path: "seg 4 1 v = [table_index v 4, table_index v 3, table_index v 2]" for v by (simp add: numeral_eq_Suc)
  show "seg 4 1 va = seg 4 1 va'" if "va div 0x200000 = va' div 0x200000"
  proof -
    have "v div 2 ^ 39 = v div 0x200000 div 2 ^ 18" "v div 2 ^ 30 = v div 0x200000 div 2 ^ 9" for v :: nat
      by (simp_all only: div_mult2_eq [symmetric], simp_all)
    then show ?thesis unfolding path table_index_eq using that by simp
  qed
  assume same: "seg 4 1 va = seg 4 1 va'"
  define h where "h = table_index va 2 + 512 * (table_index va 3 + 512 * table_index va 4)"
  have h': "h = table_index va' 2 + 512 * (table_index va' 3 + 512 * table_index va' 4)"
    using same unfolding path h_def by simp
  have "v div 0x200000 = (if h < 2 ^ 26 then h else h + (2 ^ 43 - 2 ^ 27))"
    if "address_is_canonical v" "h = table_index v 2 + 512 * (table_index v 3 + 512 * table_index v 4)" for v
  proof -
    have m: "v div 4096 mod 2 ^ 36 = table_index v 1 + 512 * h" using page_number_indices [of v] that(2) by simp
    have "v div 0x200000 = v div 4096 div 512" by (simp add: div_mult2_eq [symmetric])
    moreover have "v div 4096 = (if h < 2 ^ 26 then table_index v 1 + 512 * h else table_index v 1 + 512 * (h + (2 ^ 43 - 2 ^ 27)))"
      using canonical_page_number [OF that(1)] table_index_less [of v 1] unfolding Let_def m by auto
    moreover have "(table_index v 1 + 512 * y) div 512 = y" for y using table_index_less [of v 1] by simp
    ultimately show ?thesis by (simp only: split: if_split) blast
  qed
  then show "va div 0x200000 = va' div 0x200000" using assms h_def h' by metis
qed

lemma region_iff:
  fixes va :: nat
  assumes "0x200000 dvd base"
  shows "va div 0x200000 = base div 0x200000 \<longleftrightarrow> base \<le> va \<and> va < base + 0x200000"
proof -
  obtain q where q: "base = 0x200000 * q" using assms by blast
  have "va div 0x200000 = q \<longleftrightarrow> 0x200000 * q \<le> va \<and> va < 0x200000 * Suc q"
    by (metis div_nat_eqI div_times_less_eq_dividend dividend_less_div_times mult.commute mult_Suc_right zero_less_numeral add.commute)
  then show ?thesis by (simp add: q add.commute)
qed

lemma leaf_of_large:
  assumes "plain_links (pe_tables st) (root_of st)" "node (pe_tables st) (root_of st) (seg 4 2 va) = Some s"
    and "e = pe_tables st s (table_index va 2)" "bit e 0" "bit e 7"
  shows "leaf_of st va = Some (2, e, bit e 1, \<not> bit e 63, False)"
proof -
  let ?T = "pe_tables st" and ?r = "root_of st"
  let ?e4 = "?T ?r (table_index va 4)"
  let ?e3 = "?T (frame_of ?e4) (table_index va 3)"
  have path: "seg 4 2 va = [table_index va 4, table_index va 3]" by (simp add: numeral_eq_Suc)
  have n: "interior ?e4" "interior ?e3" "frame_of ?e3 = s"
    using assms(2) by (auto simp: path split: if_splits)
  have "node ?T ?r [table_index va 4] = Some (frame_of ?e4)" using n by simp
  then have plain: "bit ?e4 1 \<and> \<not> bit ?e4 63 \<and> \<not> bit ?e4 2" "bit ?e3 1 \<and> \<not> bit ?e3 63 \<and> \<not> bit ?e3 2"
    using assms(1) n(1,2) table_index_less
    by (auto simp: plain_links_def index_path_def dest: spec [of _ "[]"] spec [of _ "[table_index va 4]"])
  have "walk_along ?T (table_index va) (Suc (Suc (Suc (Suc 0)))) ?r True True True = Some (2, e, bit e 1, \<not> bit e 63, False)"
    using n plain assms(3-5) by (simp add: interior_def Let_def numeral_eq_Suc)
  then show ?thesis unfolding leaf_of_def translate_walk_along by (simp add: numeral_eq_Suc)
qed

text \<open>Writing an entry in a page directory leaves the regions of the other entries vacant.\<close>

lemma write_vacant:
  assumes ok: "hierarchy_ok st" and s: "node (pe_tables st) (root_of st) p = Some s" "index_path p"
    and e: "length p = 3 \<or> \<not> interior e \<and> \<not> interior (pe_tables st s i)" and st': "st' = set_entry s i e st"
    and v: "vacant st va'" "\<not> (p = seg 4 2 va' \<and> i = table_index va' 2)"
  shows "vacant st' va'"
  unfolding vacant_def
proof (intro allI impI)
  fix t assume "node (pe_tables st') (root_of st') (seg 4 2 va') = Some t"
  then have t: "node (pe_tables st) (root_of st) (seg 4 2 va') = Some t"
    using write_entry(2) [OF ok s e st', of "seg 4 2 va'"] by simp
  have "\<not> (t = s \<and> table_index va' 2 = i)"
    using treeD [OF _ s(2) _ s(1), of "seg 4 2 va'"] t v(2) ok by (auto simp: hierarchy_ok_def)
  then show "\<not> bit (pe_tables st' t (table_index va' 2)) 0" using v(1) t by (auto simp: vacant_def st')
qed

lemma write_large:
  assumes ok: "hierarchy_ok st" and s: "node (pe_tables st) (root_of st) (seg 4 2 va) = Some s"
    and e: "bit e 0" "bit e 7" "\<not> bit (pe_tables st s (table_index va 2)) 0" and st': "st' = set_entry s (table_index va 2) e st"
  shows "hierarchy_ok st'"
    and "leaf_of st' va' = (if seg 4 1 va' = seg 4 1 va then Some (2, e, bit e 1, \<not> bit e 63, False) else leaf_of st va')"
    and "vacant st va' \<Longrightarrow> seg 4 1 va' \<noteq> seg 4 1 va \<Longrightarrow> vacant st' va'"
proof -
  have tree: "tree (pe_tables st) (root_of st)" using ok by (simp add: hierarchy_ok_def)
  have p: "index_path (seg 4 2 va)"
    "length (seg 4 2 va) = 3 \<or> \<not> interior e \<and> \<not> interior (pe_tables st s (table_index va 2))"
    using e by (simp_all add: interior_def)
  have path: "seg 4 1 v = seg 4 2 v @ [table_index v 2]" for v using seg_snoc [of 1 4 v] by (simp add: numeral_2_eq_2)
  note W = write_entry [OF ok s p st']
  show ok': "hierarchy_ok st'" by (rule W(1))
  show "vacant st' va'" if "vacant st va'" "seg 4 1 va' \<noteq> seg 4 1 va"
    using that(2) unfolding path by (intro write_vacant [OF ok s p st' that(1)]) auto
  show "leaf_of st' va' = (if seg 4 1 va' = seg 4 1 va then Some (2, e, bit e 1, \<not> bit e 63, False) else leaf_of st va')"
  proof (cases "seg 4 1 va' = seg 4 1 va")
    case True
    then have same: "seg 4 2 va' = seg 4 2 va" "table_index va' 2 = table_index va 2" unfolding path by simp_all
    have "plain_links (pe_tables st') (root_of st')" using ok' by (simp add: hierarchy_ok_def)
    then have "leaf_of st' va' = Some (2, e, bit e 1, \<not> bit e 63, False)"
      using W(2) [OF p(1)] s e same by (intro leaf_of_large [of _ _ s]) (simp_all add: st')
    then show ?thesis using True by simp
  next
    case False
    have "leaf_of st' va' = leaf_of st va'"
    proof (rule leaf_of_sim)
      fix k t assume k: "1 \<le> k" "k \<le> 4" "node (pe_tables st) (root_of st) (seg 4 k va') = Some t"
      have "\<not> (t = s \<and> table_index va' k = table_index va 2)"
      proof
        assume a: "t = s \<and> table_index va' k = table_index va 2"
        have same: "seg 4 k va' = seg 4 2 va" using treeD [OF tree _ _ k(3)] a s k(1) by simp
        then have "k = 2" using k(2) by (intro seg_path_eq [OF same]) simp_all
        then show False using False a same unfolding path by simp
      qed
      then show "pe_tables st' t (table_index va' k) = pe_tables st t (table_index va' k) \<or>
          \<not> bit (pe_tables st t (table_index va' k)) 0 \<and> dead_end (pe_tables st') k (pe_tables st' t (table_index va' k))"
        by (auto simp: st')
    qed (simp add: st')
    then show ?thesis using False by simp
  qed
qed

section \<open>Progress\<close>

lemma entry_walk_found:
  assumes "node (pe_tables st) t (seg l target va) = Some s"
  shows "entry_walk l target va create t st = (Inr s, st)"
  using assms
proof (induction l arbitrary: t)
  case (Suc l)
  then show ?case by (auto simp: Let_def interior_def entry_bits split: if_splits)
qed simp

lemma walked_refl: "\<not> failure_armed st \<Longrightarrow> walked va st st"
  by (simp add: walked_def)

lemma level_size_2: "level_page_size 2 = 0x200000"
  by (simp add: level_page_size_def)

lemma low_canonical: "a < 2 ^ 47 \<Longrightarrow> address_is_canonical a"
  by (simp add: canonical_iff)

lemma identity_valid:
  assumes "2 ^ k dvd a" "a + 2 ^ k \<le> 2 ^ 32" "k < 33"
  shows "validate_virtual_range a (2 ^ k) (2 ^ k) = PAGING_STATUS_OK" "validate_physical_range a (2 ^ k) (2 ^ k) = PAGING_STATUS_OK"
proof -
  have "a mod 2 ^ k = 0" using assms(1) by simp
  then have "a AND (2 ^ k - 1) = 0" "2 ^ k AND (2 ^ k - 1 :: nat) = 0" by (simp_all only: and_low_mask mod_self)
  moreover have "a < 2 ^ 47" "a + 2 ^ k - 1 < 2 ^ 47" using assms(2) by auto
  ultimately show "validate_virtual_range a (2 ^ k) (2 ^ k) = PAGING_STATUS_OK"
      "validate_physical_range a (2 ^ k) (2 ^ k) = PAGING_STATUS_OK"
    using assms(2) low_canonical
    by (simp_all add: validate_virtual_range_def validate_physical_range_def UINT64_MAX_def PAGE_PHYSICAL_LIMIT_def)
qed

text \<open>The leaf of a large page mapped to \<open>a\<close>, and what its addresses translate to.\<close>

definition large_leaf :: "nat \<Rightarrow> u32 \<Rightarrow> leaf" where
  "large_leaf a p = (2, compose_entry a p True, bit p 0, bit p 1, False)"

lemma entry_walk_unmapped:
  assumes "translate_walk (pe_tables st) va l t w x u = None" "fst (entry_walk l target va False t st) = Inl e" "1 \<le> target"
  shows "e = PAGING_STATUS_NOT_MAPPED"
  using assms
proof (induction l arbitrary: t w x u)
  case (Suc l)
  then show ?case by (fastforce simp: Let_def entry_bits split: if_splits)
qed simp

lemma unmapped_large:
  assumes "leaf_of st base = None" "vacant st base"
  shows "unmapped_pages base 2 [0] st = PAGING_STATUS_OK"
proof (cases "fst (entry_for base 2 False st)")
  case (Inl e)
  then have "fst (entry_walk 4 2 base False (root_of st) st) = Inl e"
    by (auto simp: entry_for_def split: prod.splits sum.splits)
  from entry_walk_unmapped [OF assms(1) [unfolded leaf_of_def] this] have "e = PAGING_STATUS_NOT_MAPPED" by simp
  then show ?thesis using Inl by simp
next
  case (Inr q)
  obtain s i where q: "q = (s, i)" by fastforce
  have "node (pe_tables st) (root_of st) (seg 4 2 base) = Some s" "i = table_index base 2"
    using entry_for_find(1) [of base 2 st s i] Inr q by simp_all
  then show ?thesis using Inr q assms(2) by (simp add: vacant_def entry_bits)
qed

lemma map_large_progress:
  assumes ok: "hierarchy_ok st" and base: "0x200000 dvd base" "base + 0x200000 \<le> 2 ^ 32"
    and p: "validate_permissions p = PAGING_STATUS_OK"
    and free: "3 \<le> free_frames st" "\<not> failure_armed st" and none: "leaf_of st base = None" "vacant st base"
  shows "\<exists>st'. map_range base base 0x200000 p 2 st = (PAGING_STATUS_OK, st') \<and> hierarchy_ok st' \<and> walked base st st' \<and>
    free_frames st \<le> free_frames st' + 3 \<and> (\<forall>va. address_is_canonical va \<longrightarrow>
      leaf_of st' va = (if base \<le> va \<and> va < base + 0x200000 then Some (large_leaf base p) else leaf_of st va))"
proof -
  have offsets: "page_offsets 0x200000 0x200000 = [0]" by (simp add: page_offsets_def)
  have valid: "validate_virtual_range base 0x200000 0x200000 = PAGING_STATUS_OK"
    "validate_physical_range base 0x200000 0x200000 = PAGING_STATUS_OK"
    using identity_valid [of 21 base] base by simp_all
  have "translate_walk (pe_tables st) base (Suc 3) (root_of st) True True True = None"
    using none(1) by (simp add: leaf_of_def)
  from entry_walk_progress [OF ok _ _ free this, of 2]
  obtain s st1 where w: "entry_walk (Suc 3) 2 base True (root_of st) st = (Inr s, st1)"
    "free_frames st - 3 \<le> free_frames st1" "walked base st st1" by auto
  have C: "hierarchy_ok st1" "same_view st st1" "node (pe_tables st1) (root_of st1) (seg 4 2 base) = Some s"
    "\<not> bit (pe_tables st1 s (table_index base 2)) 0"
    using entry_walk_create [OF ok _ _ w(1)] none(2) by (auto simp: vacant_def)
  have a: "4096 dvd base" "base < 2 ^ 52" using base dvd_trans [of 4096 "0x200000" base] by simp_all
  let ?e = "compose_entry base p True"
  define st2 where "st2 = set_entry s (table_index base 2) ?e st1"
  have e: "bit ?e 0" "bit ?e 7" "bit ?e 1 \<longleftrightarrow> bit p 0" "\<not> bit ?e 63 \<longleftrightarrow> bit p 1" by (simp_all add: bit_compose_entry [OF a])
  note W = write_large [OF C(1,3) e(1,2) C(4) st2_def]
  have call: "map_range base base 0x200000 p 2 st = (PAGING_STATUS_OK, invalidate base st2)"
    unfolding map_range_def level_size_2 offsets Let_def
    using p valid unmapped_large [OF none] w(1) by (simp add: entry_for_def st2_def del: entry_walk.simps)
  have canon: "address_is_canonical base" using base(2) by (intro low_canonical) simp
  have "leaf_of (invalidate base st2) va = (if base \<le> va \<and> va < base + 0x200000 then Some (large_leaf base p) else leaf_of st va)"
    if "address_is_canonical va" for va
    using W(2) [of va] C(2) e(3,4) unfolding seg_region_iff [OF that canon] region_iff [OF base(1)]
    by (simp add: large_leaf_def same_view_def)
  moreover have "walked base st (invalidate base st2)"
    using w(3) W(3) by (auto simp: walked_def vacant_def failure_armed_def counted_def invalidate_def st2_def set_entry_def)
  ultimately show ?thesis using call W(1) w(2) by (simp add: st2_def)
qed

text \<open>A page of 4 KiB costs tables only while its region has no page table.\<close>

definition tabled :: "paging_store \<Rightarrow> nat \<Rightarrow> bool" where
  "tabled st va \<longleftrightarrow> node (pe_tables st) (root_of st) (seg 4 1 va) \<noteq> None"

lemma map_page_progress:
  assumes ok: "hierarchy_ok st" and a: "4096 dvd a" "a + 4096 \<le> 2 ^ 32"
    and p: "validate_permissions p = PAGING_STATUS_OK"
    and free: "\<not> tabled st a \<longrightarrow> 3 \<le> free_frames st" "\<not> failure_armed st" and none: "leaf_of st a = None"
  shows "\<exists>st'. map_range a a 4096 p 1 st = (PAGING_STATUS_OK, st') \<and> hierarchy_ok st' \<and> walked a st st' \<and> tabled st' a \<and>
    free_frames st \<le> free_frames st' + (if tabled st a then 0 else 3) \<and> (\<forall>va. address_is_canonical va \<longrightarrow>
      leaf_of st' va = (if a \<le> va \<and> va < a + 4096 then Some (page_leaf a p) else leaf_of st va))"
proof -
  have offsets: "page_offsets 4096 4096 = [0]" by (simp add: page_offsets_def)
  have valid: "validate_virtual_range a 4096 4096 = PAGING_STATUS_OK" "validate_physical_range a 4096 4096 = PAGING_STATUS_OK"
    using identity_valid [of 12 a] a by simp_all
  have "\<exists>s st1. entry_walk (Suc 3) 1 a True (root_of st) st = (Inr s, st1) \<and>
    free_frames st \<le> free_frames st1 + (if tabled st a then 0 else 3) \<and> walked a st st1"
  proof (cases "tabled st a")
    case True
    then obtain s where "node (pe_tables st) (root_of st) (seg (Suc 3) 1 a) = Some s" by (auto simp: tabled_def)
    then have "entry_walk (Suc 3) 1 a True (root_of st) st = (Inr s, st)" by (rule entry_walk_found)
    then show ?thesis using True walked_refl [OF free(2)] by (simp del: entry_walk.simps)
  next
    case False
    have walk: "translate_walk (pe_tables st) a (Suc 3) (root_of st) True True True = None"
      using none(1) by (simp add: leaf_of_def)
    have "3 \<le> free_frames st" using free(1) False by simp
    from entry_walk_progress [OF ok _ _ this free(2) walk, of 1] show ?thesis using False by (auto simp del: entry_walk.simps)
  qed
  then obtain s st1 where w: "entry_walk (Suc 3) 1 a True (root_of st) st = (Inr s, st1)"
    "free_frames st \<le> free_frames st1 + (if tabled st a then 0 else 3)" "walked a st st1" by blast
  have C: "hierarchy_ok st1" "node (pe_tables st1) (root_of st1) (seg 4 1 a) = Some s"
    using entry_walk_create [OF ok _ _ w(1)] by auto
  define st2 where "st2 = set_entry s (table_index a 1) (compose_entry a p False) st1"
  have call: "map_range a a 4096 p 1 st = (PAGING_STATUS_OK, invalidate a st2)"
    unfolding map_range_def page_size_1 offsets Let_def
    using p valid unmapped_pages_OK [OF ok, of a "[0]"] none w(1) by (simp add: entry_for_def st2_def del: entry_walk.simps)
  have path: "index_path (seg 4 1 a)" "length (seg 4 1 a) = 3 \<or> \<not> interior (compose_entry a p False) \<and> \<not> interior (pe_tables st1 s (table_index a 1))"
    by simp_all
  note W = write_entry [OF C path st2_def]
  have "vacant st2 va'" if "vacant st1 va'" for va'
    by (rule write_vacant [OF C path st2_def that]) (auto dest: arg_cong [of _ _ length])
  then have "walked a st (invalidate a st2)"
    using w(3) by (auto simp: walked_def vacant_def failure_armed_def counted_def invalidate_def st2_def set_entry_def)
  moreover have "tabled (invalidate a st2) a" using W(2) [OF path(1)] C(2) by (simp add: tabled_def)
  moreover have "leaf_of (invalidate a st2) va = (if a \<le> va \<and> va < a + 4096 then Some (page_leaf a p) else leaf_of st va)"
    if "address_is_canonical va" for va
  proof -
    have "leaf_of (invalidate a st2) va = (if a \<le> va \<and> va < a + 4096
        then Some (page_leaf (a + (va - a) div 4096 * 4096) p) else leaf_of st va)"
      using map_range_view [OF ok call] that by simp
    moreover have "va < a + 4096 \<Longrightarrow> (va - a) div 4096 = 0" by simp
    ultimately show ?thesis by (cases "va < a + 4096") simp_all
  qed
  moreover have "hierarchy_ok (invalidate a st2)" "free_frames (invalidate a st2) = free_frames st1"
    using W(1) by (simp_all add: st2_def)
  ultimately show ?thesis using call w(2) by simp
qed

text \<open>An address in a large page translates to itself with the permissions of the page.\<close>

lemma translate_large:
  assumes "leaf_of st base = Some (large_leaf base p)" "0x200000 dvd base" "base + 0x200000 \<le> 2 ^ 32"
    and "validate_permissions p = PAGING_STATUS_OK" "pat_ready pat"
  shows "translate_address base pat st = (PAGING_STATUS_OK, (page_translation base p)\<lparr>tr_level := 2\<rparr>)"
proof -
  have a: "4096 dvd base" "base < 2 ^ 52" "8192 dvd base"
    using assms(2,3) dvd_trans [of 4096 "0x200000" base] dvd_trans [of 8192 "0x200000" base] by simp_all
  have canon: "address_is_canonical base" using assms(3) by (intro low_canonical) simp
  let ?e = "compose_entry base p True"
  have type: "leaf_memory_type ?e 2 pat = tr_memory_type (page_translation base p)"
    using memory_type_compose [OF assms(4,5) a(1,2), of 2 True] a(3) by (simp add: page_translation_def)
  have entry: "?e AND PAGE_WRITABLE \<noteq> 0 \<longleftrightarrow> bit p 0" "?e AND PAGE_NO_EXECUTE = 0 \<longleftrightarrow> bit p 1"
    using bit_compose_entry [OF a(1,2), of p True] by (simp_all add: entry_bits)
  have perms: "PAGING_READ OR (if bit p 0 then PAGING_WRITE else 0) OR (if bit p 1 then PAGING_EXECUTE else 0) OR
      memory_type_permission (leaf_memory_type ?e 2 pat) = p"
    using flags_to_permissions_compose [OF assms(4,5) a(1,2), of 2 True] a(3)
    unfolding flags_to_permissions_def entry by simp
  have "base mod 2 ^ 21 = 0" using assms(2) by simp
  then have "(base AND not64 (2 ^ 21 - 1)) OR (base AND (2 ^ 21 - 1)) = base"
    using page_physical [of base 21 base] assms(3) by simp
  then have "fill_translation ?e base 2 (bit p 0) (bit p 1) False pat = (page_translation base p)\<lparr>tr_level := 2\<rparr>"
    using perms type unfolding fill_translation_def level_size_2 Let_def
    by (simp add: frame_of_compose [OF a(1,2)] page_translation_def)
  then show ?thesis using assms(1) canon unfolding leaf_of_def by (simp add: translate_address_def large_leaf_def)
qed

end
