(* ===== verification/Boot_Maps.thy ===== *)
theory Boot_Maps
  imports Device_Windows Large_Pages
begin

text \<open>
  Bringing paging up (\<open>paging_initialize\<close> of \<open>src/kernel/paging.c\<close>): the identity map of the first
  4 GiB with the kernel's sections and the device windows carved out of it, the validation of the map
  before it is used, the switch and the checks after it.

  The addresses the linker script defines are the record \<open>kernel_symbols\<close>. The processor is the record
  \<open>cpu\<close>: what CPUID answers, the registers, and what a register holds after a write (a processor may
  ignore bits, which is why the code reads back what it wrote).
\<close>

section \<open>State\<close>

record kernel_symbols =
  sym_kernel_start :: nat
  sym_kernel_end :: nat
  sym_text_start :: nat
  sym_text_end :: nat
  sym_rodata_start :: nat
  sym_rodata_end :: nat
  sym_data_start :: nat

record paging_section =
  sc_start :: nat
  sc_end :: nat
  sc_permissions :: u32

record cpu =
  cpu_cpuid_eax :: "nat \<Rightarrow> u32"
  cpu_cpuid_edx :: "nat \<Rightarrow> u32"
  cpu_stored_msr :: "nat \<Rightarrow> u64 \<Rightarrow> u64"
  cpu_stored_cr0 :: "u64 \<Rightarrow> u64"
  cpu_msr :: "nat \<Rightarrow> u64"
  cpu_cr0 :: u64
  cpu_cr4 :: u64
  cpu_interrupts_enabled :: bool

text \<open>The remaining fields of \<open>state\<close> and the other globals of the file that initialisation sets.\<close>

record paging_boot =
  pb_system :: paging_system
  pb_root_physical_address :: nat
  pb_fine_regions :: nat
  pb_pat_before :: u64
  pb_write_combining_pat_entry :: nat
  pb_no_execute_active :: bool
  pb_write_protect_active :: bool
  pb_kernel_sections :: "paging_section list"
  pb_fine_region_count :: nat
  pb_installed_device_windows :: paging_device_windows
  pb_cpu :: cpu

definition IA32_EFER_MSR :: nat where "IA32_EFER_MSR = 0xC0000080"
definition IA32_PAT_MSR :: nat where "IA32_PAT_MSR = 0x277"
definition EFER_NO_EXECUTE_ENABLE :: u64 where "EFER_NO_EXECUTE_ENABLE = push_bit 11 1"
definition CR0_WRITE_PROTECT :: u64 where "CR0_WRITE_PROTECT = push_bit 16 1"
definition CPUID_BASIC_FEATURES :: nat where "CPUID_BASIC_FEATURES = 1"
definition CPUID_EXTENDED_ROOT :: nat where "CPUID_EXTENDED_ROOT = 0x80000000"
abbreviation (input) PAGING_KERNEL_IMAGE_LIMIT :: nat where "PAGING_KERNEL_IMAGE_LIMIT \<equiv> 0x3000000"

definition cpu_write_msr :: "nat \<Rightarrow> u64 \<Rightarrow> cpu \<Rightarrow> cpu" where
  "cpu_write_msr index value c = c\<lparr>cpu_msr := (cpu_msr c)(index := cpu_stored_msr c index value)\<rparr>"

definition cpu_write_cr0 :: "u64 \<Rightarrow> cpu \<Rightarrow> cpu" where
  "cpu_write_cr0 value c = c\<lparr>cpu_cr0 := cpu_stored_cr0 c value\<rparr>"

section \<open>The kernel image\<close>

definition validate_kernel_layout :: "nat \<Rightarrow> nat \<Rightarrow> paging_status" where
  "validate_kernel_layout kernel_start kernel_end =
     (if kernel_start \<ge> kernel_end \<or> kernel_start AND (PAGING_PAGE_SIZE - 1) \<noteq> 0 \<or>
         kernel_end AND (PAGING_PAGE_SIZE - 1) \<noteq> 0 \<or> kernel_end > PAGING_KERNEL_IMAGE_LIMIT
      then PAGING_STATUS_BAD_KERNEL_LAYOUT else PAGING_STATUS_OK)"

definition add_section :: "nat \<Rightarrow> nat \<Rightarrow> u32 \<Rightarrow> paging_section list \<Rightarrow> paging_section list" where
  "add_section start past permissions sections =
     (if start \<ge> past then sections
      else sections @ [\<lparr>sc_start = start, sc_end = past, sc_permissions = permissions\<rparr>])"

definition collect_kernel_sections :: "kernel_symbols \<Rightarrow> paging_section list" where
  "collect_kernel_sections k =
     add_section (sym_data_start k) (sym_kernel_end k) PAGING_WRITE
       (add_section (sym_rodata_start k) (sym_rodata_end k) PAGING_READ
         (add_section (sym_text_start k) (sym_text_end k) PAGING_EXECUTE
           (add_section (sym_kernel_start k) (sym_text_start k) PAGING_READ [])))"

definition window_end :: "paging_device_window \<Rightarrow> nat" where
  "window_end window = add64 (dw_physical_base window) (dw_length window)"

definition device_window_at :: "paging_device_windows \<Rightarrow> nat \<Rightarrow> paging_device_window option" where
  "device_window_at windows address =
     find (\<lambda>window. address \<ge> dw_physical_base window \<and> address < window_end window) windows"

definition region_needs_page_table :: "paging_device_windows \<Rightarrow> nat \<Rightarrow> nat \<Rightarrow> nat \<Rightarrow> bool" where
  "region_needs_page_table windows base kernel_start kernel_end \<longleftrightarrow>
     (let past = add64 base PAGING_HUGE_PAGE_SIZE in
      base < kernel_end \<and> kernel_start < past \<or>
      list_ex (\<lambda>window. base < window_end window \<and> dw_physical_base window < past) windows)"

definition device_window_mapping_permissions :: "paging_device_window \<Rightarrow> u32" where
  "device_window_mapping_permissions window =
     PAGING_READ OR (if dw_permissions window AND PAGING_DEVICE_WINDOW_WRITE \<noteq> 0 then PAGING_WRITE else 0) OR
     memory_type_permission (dw_memory_type window)"

definition section_permissions :: "paging_section list \<Rightarrow> paging_device_windows \<Rightarrow> nat \<Rightarrow> u32" where
  "section_permissions sections windows address =
     (case device_window_at windows address of
        Some window \<Rightarrow> device_window_mapping_permissions window
      | None \<Rightarrow>
          (case find (\<lambda>s. address \<ge> sc_start s \<and> address < sc_end s) sections of
             Some s \<Rightarrow> sc_permissions s
           | None \<Rightarrow> PAGING_WRITE))"

section \<open>The identity map\<close>

text \<open>The pages of a region that has a page table: page zero stays absent.\<close>

fun build_pages ::
    "paging_section list \<Rightarrow> paging_device_windows \<Rightarrow> nat list \<Rightarrow> paging_store \<Rightarrow> paging_status \<times> paging_store" where
  "build_pages sections windows [] st = (PAGING_STATUS_OK, st)"
| "build_pages sections windows (address # rest) st =
     (if address = 0 then build_pages sections windows rest st
      else
        (case map_range address address PAGING_PAGE_SIZE (section_permissions sections windows address) 1 st of
           (status, st1) \<Rightarrow>
             if status \<noteq> PAGING_STATUS_OK then (status, st1) else build_pages sections windows rest st1))"

definition region_pages :: "nat \<Rightarrow> nat list" where
  "region_pages base = map (\<lambda>offset. base + offset) (page_offsets PAGING_HUGE_PAGE_SIZE PAGING_PAGE_SIZE)"

definition identity_regions :: "nat list" where
  "identity_regions = page_offsets RSD_EARLY_PHYSICAL_LIMIT PAGING_HUGE_PAGE_SIZE"

text \<open>The loop over the regions; \<open>fine\<close> is \<open>fine_region_count\<close>.\<close>

fun build_regions ::
    "kernel_symbols \<Rightarrow> paging_section list \<Rightarrow> paging_device_windows \<Rightarrow> nat list \<Rightarrow> nat \<Rightarrow> paging_store \<Rightarrow>
     paging_status \<times> nat \<times> paging_store" where
  "build_regions k sections windows [] fine st = (PAGING_STATUS_OK, fine, st)"
| "build_regions k sections windows (base # rest) fine st =
     (if \<not> region_needs_page_table windows base (sym_kernel_start k) (sym_kernel_end k) then
        (case map_range base base PAGING_HUGE_PAGE_SIZE PAGING_WRITE 2 st of
           (status, st1) \<Rightarrow>
             if status \<noteq> PAGING_STATUS_OK then (status, fine, st1) else build_regions k sections windows rest fine st1)
      else
        (case build_pages sections windows (region_pages base) st of
           (status, st1) \<Rightarrow>
             if status \<noteq> PAGING_STATUS_OK then (status, fine + 1, st1)
             else build_regions k sections windows rest (fine + 1) st1))"

definition build_identity_map ::
    "kernel_symbols \<Rightarrow> paging_section list \<Rightarrow> paging_device_windows \<Rightarrow> paging_store \<Rightarrow>
     paging_status \<times> nat \<times> paging_store" where
  "build_identity_map k sections windows st = build_regions k sections windows identity_regions 0 st"

definition page_as_expected ::
    "paging_section list \<Rightarrow> paging_device_windows \<Rightarrow> u64 \<Rightarrow> paging_store \<Rightarrow> nat \<Rightarrow> bool" where
  "page_as_expected sections windows pat st address \<longleftrightarrow>
     (case translate_address address pat st of
        (status, translation) \<Rightarrow>
          if address = 0 then status = PAGING_STATUS_NOT_MAPPED
          else status = PAGING_STATUS_OK \<and> tr_physical_address translation = address \<and>
            tr_permissions translation = section_permissions sections windows address \<and>
            tr_memory_type translation =
              (case device_window_at windows address of
                 Some window \<Rightarrow> dw_memory_type window | None \<Rightarrow> PAGING_MEMORY_WRITE_BACK) \<and>
            tr_level translation = 1)"

definition region_as_expected ::
    "kernel_symbols \<Rightarrow> paging_section list \<Rightarrow> paging_device_windows \<Rightarrow> u64 \<Rightarrow> paging_store \<Rightarrow> nat \<Rightarrow> bool" where
  "region_as_expected k sections windows pat st base \<longleftrightarrow>
     (if \<not> region_needs_page_table windows base (sym_kernel_start k) (sym_kernel_end k) then
        (case translate_address base pat st of
           (status, translation) \<Rightarrow>
             status = PAGING_STATUS_OK \<and> tr_physical_address translation = base \<and>
             tr_permissions translation = PAGING_WRITE \<and> tr_memory_type translation = PAGING_MEMORY_WRITE_BACK \<and>
             tr_level translation = 2)
      else list_all (page_as_expected sections windows pat st) (region_pages base))"

definition validate_identity_map ::
    "kernel_symbols \<Rightarrow> paging_section list \<Rightarrow> paging_device_windows \<Rightarrow> u64 \<Rightarrow> paging_store \<Rightarrow> paging_status" where
  "validate_identity_map k sections windows pat st =
     (if list_all (region_as_expected k sections windows pat st) identity_regions
      then PAGING_STATUS_OK else PAGING_STATUS_VALIDATION_FAILURE)"

section \<open>Initialisation\<close>

definition reset_state :: "paging_boot \<Rightarrow> paging_boot" where
  "reset_state b =
     b\<lparr>pb_root_physical_address := 0, pb_fine_regions := 0, pb_pat_before := 0, pb_write_combining_pat_entry := 0,
       pb_no_execute_active := False, pb_write_protect_active := False, pb_installed_device_windows := [],
       pb_system := (pb_system b)\<lparr>ps_table_frames := 0, ps_pat_after := 0, ps_active := False, ps_intents := []\<rparr>\<rparr>"

definition reject_kernel_device_overlap :: "kernel_symbols \<Rightarrow> paging_device_windows \<Rightarrow> paging_status" where
  "reject_kernel_device_overlap k windows =
     (if list_ex (\<lambda>window. dw_physical_base window < sym_kernel_end k \<and> sym_kernel_start k < window_end window) windows
      then PAGING_STATUS_DEVICE_WINDOW_KERNEL_OVERLAP else PAGING_STATUS_OK)"

definition enable_processor_features :: "cpu \<Rightarrow> paging_status \<times> cpu" where
  "enable_processor_features c =
     (let c1 = cpu_write_msr IA32_EFER_MSR (cpu_msr c IA32_EFER_MSR OR EFER_NO_EXECUTE_ENABLE) c in
      if cpu_msr c1 IA32_EFER_MSR AND EFER_NO_EXECUTE_ENABLE = 0 then (PAGING_STATUS_NO_EXECUTE_INACTIVE, c1)
      else
        (let c2 = cpu_write_cr0 (cpu_cr0 c1 OR CR0_WRITE_PROTECT) c1 in
         if cpu_cr0 c2 AND CR0_WRITE_PROTECT = 0 then (PAGING_STATUS_WRITE_PROTECT_INACTIVE, c2)
         else (PAGING_STATUS_OK, c2)))"

definition section_verified :: "u64 \<Rightarrow> paging_store \<Rightarrow> nat \<times> u32 \<Rightarrow> bool" where
  "section_verified pat st expected \<longleftrightarrow>
     (case translate_address (fst expected) pat st of
        (status, translation) \<Rightarrow>
          status = PAGING_STATUS_OK \<and> tr_physical_address translation = fst expected \<and>
          tr_permissions translation = snd expected)"

definition paging_verify :: "kernel_symbols \<Rightarrow> paging_boot \<Rightarrow> paging_status" where
  "paging_verify k b =
     (let s = pb_system b; st = ps_store s; c = pb_cpu b; audit = audit_hierarchy st in
      if \<not> ps_active s then PAGING_STATUS_NOT_INITIALIZED
      else if unat (pe_cr3 st AND PAGE_FRAME_MASK) \<noteq> pb_root_physical_address b \<or>
              ps_table_frames s \<noteq> ph_table_frames (pe_hierarchy st) \<or> ph_table_frames (pe_hierarchy st) = 0
        then PAGING_STATUS_VALIDATION_FAILURE
      else if cpu_msr c IA32_PAT_MSR \<noteq> ps_pat_after s \<or>
              pat_entry (ps_pat_after s) (pb_write_combining_pat_entry b) \<noteq> PAT_TYPE_WRITE_COMBINING
        then PAGING_STATUS_PAT_READBACK_MISMATCH
      else if cpu_msr c IA32_EFER_MSR AND EFER_NO_EXECUTE_ENABLE = 0 then PAGING_STATUS_NO_EXECUTE_INACTIVE
      else if cpu_cr0 c AND CR0_WRITE_PROTECT = 0 then PAGING_STATUS_WRITE_PROTECT_INACTIVE
      else if pa_write_execute_leaves audit \<noteq> 0 \<or> pa_user_leaves audit \<noteq> 0 then PAGING_STATUS_VALIDATION_FAILURE
      else if \<not> list_all (section_verified (ps_pat_after s) st)
                [(sym_text_start k, PAGING_EXECUTE), (sym_rodata_start k, PAGING_READ), (sym_data_start k, PAGING_WRITE)]
        then PAGING_STATUS_VALIDATION_FAILURE
      else if fst (translate_address 0 (ps_pat_after s) st) \<noteq> PAGING_STATUS_NOT_MAPPED
        then PAGING_STATUS_VALIDATION_FAILURE
      else PAGING_STATUS_OK)"

text \<open>The steps of \<open>paging_initialize\<close> up to the decision on the processor: on success the validated
  windows and the attribute table before.\<close>

definition initialize_checks ::
    "kernel_symbols \<Rightarrow> paging_device_windows \<Rightarrow> paging_boot \<Rightarrow> (paging_status \<times> bool) + paging_device_windows \<times> u64" where
  "initialize_checks k windows b =
     (let c = pb_cpu b in
      case paging_device_windows_validate (Some windows) (Some []) of
        (status, validated) \<Rightarrow>
          if status \<noteq> PAGING_STATUS_OK then Inl (status, True)
          else if validate_kernel_layout (sym_kernel_start k) (sym_kernel_end k) \<noteq> PAGING_STATUS_OK
            then Inl (validate_kernel_layout (sym_kernel_start k) (sym_kernel_end k), True)
          else if reject_kernel_device_overlap k (the validated) \<noteq> PAGING_STATUS_OK
            then Inl (reject_kernel_device_overlap k (the validated), True)
          else if cpu_interrupts_enabled c then Inl (PAGING_STATUS_INTERRUPTS_ENABLED, False)
          else
            (let basic_edx = cpu_cpuid_edx c CPUID_BASIC_FEATURES;
                 extended_root_eax = cpu_cpuid_eax c CPUID_EXTENDED_ROOT;
                 extended_features_edx = (if unat extended_root_eax \<ge> CPUID_EXTENDED_FEATURES
                   then cpu_cpuid_edx c CPUID_EXTENDED_FEATURES else 0);
                 pat_before = (if basic_edx AND CPUID_PAT \<noteq> 0 then cpu_msr c IA32_PAT_MSR else 0);
                 status = decode_processor_support basic_edx extended_root_eax extended_features_edx (cpu_cr4 c) pat_before in
             if status \<noteq> PAGING_STATUS_OK then Inl (status, True) else Inr (the validated, pat_before)))"

text \<open>Building and validating the map in a fresh root, before the processor uses it.\<close>

definition fresh_hierarchy :: "page_hierarchy \<Rightarrow> page_hierarchy" where
  "fresh_hierarchy h = h\<lparr>ph_arena_base := 0, ph_arena_capacity := 0, ph_arena_used := 0, ph_table_frames := 0, ph_live := False\<rparr>"

definition build_hierarchy ::
    "kernel_symbols \<Rightarrow> paging_section list \<Rightarrow> paging_device_windows \<Rightarrow> u64 \<Rightarrow> nat \<Rightarrow> paging_store \<Rightarrow>
     paging_status \<times> nat \<times> paging_store" where
  "build_hierarchy k sections windows pat_after fine st =
     (case allocate_table (st\<lparr>pe_hierarchy := fresh_hierarchy (pe_hierarchy st)\<rparr>) of
        (Inl status, st1) \<Rightarrow> (status, fine, st1)
      | (Inr root, st1) \<Rightarrow>
          (case build_identity_map k sections windows (st1\<lparr>pe_hierarchy := (pe_hierarchy st1)\<lparr>ph_root := root\<rparr>\<rparr>) of
             (status, fine1, st2) \<Rightarrow>
               if status \<noteq> PAGING_STATUS_OK then (status, fine1, st2)
               else if validate_identity_map k sections windows pat_after st2 \<noteq> PAGING_STATUS_OK
                 then (validate_identity_map k sections windows pat_after st2, fine1, st2)
               else if pa_write_execute_leaves (audit_hierarchy st2) \<noteq> 0 \<or> pa_user_leaves (audit_hierarchy st2) \<noteq> 0
                 then (PAGING_STATUS_VALIDATION_FAILURE, fine1, st2)
               else (PAGING_STATUS_OK, fine1, st2)))"

text \<open>The switch: the state it installs and the recovery when the check after it fails.\<close>

definition install_hierarchy ::
    "kernel_symbols \<Rightarrow> paging_device_windows \<Rightarrow> u64 \<Rightarrow> u64 \<Rightarrow> paging_boot \<Rightarrow> paging_status \<times> paging_boot" where
  "install_hierarchy k windows pat_before pat_after b =
     (let c1 = cpu_write_msr IA32_PAT_MSR pat_after (pb_cpu b) in
      if cpu_msr c1 IA32_PAT_MSR \<noteq> pat_after
      then (PAGING_STATUS_PAT_READBACK_MISMATCH, reset_state (b\<lparr>pb_cpu := cpu_write_msr IA32_PAT_MSR pat_before c1\<rparr>))
      else
        (let st = ps_store (pb_system b); h = pe_hierarchy st; previous_root = pe_cr3 st;
             st1 = st\<lparr>pe_hierarchy := h\<lparr>ph_live := True\<rparr>, pe_cr3 := of_nat (ph_root h)\<rparr>;
             b1 = b\<lparr>pb_cpu := c1, pb_root_physical_address := ph_root h, pb_fine_regions := pb_fine_region_count b,
                    pb_pat_before := pat_before, pb_write_combining_pat_entry := PAT_WRITE_COMBINING_ENTRY,
                    pb_no_execute_active := True, pb_write_protect_active := True, pb_installed_device_windows := windows,
                    pb_system := (pb_system b)\<lparr>ps_table_frames := ph_table_frames h, ps_pat_after := pat_after,
                      ps_active := True, ps_store := st1\<rparr>\<rparr>;
             status = paging_verify k b1 in
         if status \<noteq> PAGING_STATUS_OK
         then (status, reset_state (b1\<lparr>pb_cpu := cpu_write_msr IA32_PAT_MSR pat_before c1,
                pb_system := (pb_system b1)\<lparr>ps_store := st1\<lparr>pe_cr3 := previous_root, pe_hierarchy := h\<lparr>ph_live := False\<rparr>\<rparr>\<rparr>\<rparr>))
         else (PAGING_STATUS_OK, b1)))"

definition paging_initialize ::
    "kernel_symbols \<Rightarrow> paging_device_windows option \<Rightarrow> paging_boot \<Rightarrow> paging_status \<times> paging_boot" where
  "paging_initialize k windows b =
     (case windows of
        None \<Rightarrow> (PAGING_STATUS_NULL_ARGUMENT, b)
      | Some ws \<Rightarrow>
          if ps_active (pb_system b) then (PAGING_STATUS_ALREADY_INITIALIZED, b)
          else
            (case initialize_checks k ws b of
               Inl (status, reset) \<Rightarrow> (status, if reset then reset_state b else b)
             | Inr (validated, pat_before) \<Rightarrow>
                 (let pat_after = pat_replace_entry pat_before PAT_WRITE_COMBINING_ENTRY PAT_TYPE_WRITE_COMBINING in
                  case enable_processor_features (pb_cpu b) of
                    (status, c1) \<Rightarrow>
                      if status \<noteq> PAGING_STATUS_OK then (status, reset_state (b\<lparr>pb_cpu := c1\<rparr>))
                      else
                        (let sections = collect_kernel_sections k in
                         case build_hierarchy k sections validated pat_after (pb_fine_region_count b) (ps_store (pb_system b)) of
                           (status, fine, st1) \<Rightarrow>
                             (let b1 = b\<lparr>pb_cpu := c1, pb_kernel_sections := sections, pb_fine_region_count := fine,
                                         pb_system := (pb_system b)\<lparr>ps_store := st1\<rparr>\<rparr> in
                              if status \<noteq> PAGING_STATUS_OK then (status, reset_state b1)
                              else install_hierarchy k validated pat_before pat_after b1)))))"

section \<open>Checking the installed windows\<close>

definition window_page_verified :: "paging_device_window \<Rightarrow> u64 \<Rightarrow> paging_store \<Rightarrow> nat \<Rightarrow> bool" where
  "window_page_verified window pat st address \<longleftrightarrow>
     (case translate_address address pat st of
        (status, translation) \<Rightarrow>
          status = PAGING_STATUS_OK \<and> tr_physical_address translation = address \<and>
          tr_permissions translation = device_window_mapping_permissions window \<and>
          tr_memory_type translation = dw_memory_type window \<and> tr_level translation = 1)"

definition window_verified :: "paging_boot \<Rightarrow> paging_device_window \<Rightarrow> paging_device_window \<Rightarrow> bool" where
  "window_verified b window installed \<longleftrightarrow>
     window = installed \<and> dw_permissions window = PAGING_DEVICE_WINDOW_WRITE \<and>
     (dw_kind window = PAGING_DEVICE_WINDOW_VGA_TEXT \<longrightarrow> dw_physical_base window = PAGING_VGA_TEXT_BUFFER_BASE) \<and>
     (dw_kind window \<noteq> PAGING_DEVICE_WINDOW_FRAMEBUFFER \<longrightarrow> dw_memory_type window = PAGING_MEMORY_UNCACHEABLE) \<and>
     list_all (\<lambda>offset. window_page_verified window (ps_pat_after (pb_system b)) (ps_store (pb_system b))
         (dw_physical_base window + offset))
       (page_offsets (dw_length window) PAGING_PAGE_SIZE)"

text \<open>The index of the first window that fails is the value the call stores.\<close>

definition paging_verify_device_windows ::
    "paging_device_windows option \<Rightarrow> bool \<Rightarrow> paging_boot \<Rightarrow> paging_status \<times> nat option" where
  "paging_verify_device_windows expected failed_index b =
     (if \<not> failed_index then (PAGING_STATUS_NULL_ARGUMENT, None)
      else if \<not> ps_active (pb_system b) then (PAGING_STATUS_NOT_INITIALIZED, None)
      else
        (case paging_device_windows_validate expected (Some []) of
           (status, validated) \<Rightarrow>
             if status \<noteq> PAGING_STATUS_OK then (status, None)
             else if length (the validated) \<noteq> length (pb_installed_device_windows b)
               then (PAGING_STATUS_INSTALLED_DEVICE_WINDOW_MISMATCH, None)
             else
               (case first_index (\<lambda>(window, installed). \<not> window_verified b window installed)
                       (zip (the validated) (pb_installed_device_windows b)) of
                  Some index \<Rightarrow> (PAGING_STATUS_INSTALLED_DEVICE_WINDOW_MISMATCH, Some index)
                | None \<Rightarrow> (PAGING_STATUS_OK, None))))"


section \<open>The hierarchy stays well formed\<close>

lemma map_huge_ok:
  assumes ok: "hierarchy_ok st" and call: "map_range va pa PAGING_HUGE_PAGE_SIZE p 2 st = (status, st')"
  shows "hierarchy_ok st'"
proof (cases "st' = st")
  case False
  have size: "level_page_size 2 = 0x200000" by (simp add: level_page_size_def)
  have offsets: "page_offsets 0x200000 0x200000 = [0]" by (simp add: page_offsets_def)
  have v: "validate_physical_range pa 0x200000 0x200000 = PAGING_STATUS_OK"
    "unmapped_pages va 2 [0] st = PAGING_STATUS_OK" "map_pages va pa p 2 [0] st = (status, st')"
    using call False unfolding map_range_def size offsets Let_def by (auto split: if_splits)
  have pa: "4096 dvd pa" "pa < 2 ^ 52"
  proof -
    have "pa AND (2 ^ 21 - 1) = 0 \<longleftrightarrow> 2 ^ 21 dvd pa" by (simp only: and_low_mask mod_eq_0_iff_dvd)
    then have "2 ^ 21 dvd pa" "pa < 2 ^ 52"
      using v(1) by (auto simp: validate_physical_range_def PAGE_PHYSICAL_LIMIT_def split: if_splits)
    then show "4096 dvd pa" "pa < 2 ^ 52" using dvd_trans [of 4096 "2 ^ 21" pa] by simp_all
  qed
  obtain w st1 where w: "entry_walk (Suc 3) 2 va True (root_of st) st = (w, st1)" by fastforce
  note C = entry_walk_create [OF ok _ _ w]
  show ?thesis
  proof (cases w)
    case (Inl e)
    then have "st' = clear_range va 0 2 st1" using v(3) w by (simp add: entry_for_def del: entry_walk.simps)
    then have "st' = st1" by (simp add: clear_range_def page_offsets_def level_page_size_def)
    then show ?thesis using C by simp
  next
    case (Inr s)
    let ?i = "table_index va 2"
    have st': "st' = invalidate va (set_entry s ?i (compose_entry pa p True) st1)"
      using v(3) w Inr by (simp add: entry_for_def del: entry_walk.simps)
    have node: "hierarchy_ok st1" "node (pe_tables st1) (root_of st1) (seg 4 2 va) = Some s"
      "bit (pe_tables st1 s ?i) 0 \<longrightarrow> node (pe_tables st) (root_of st) (seg 4 2 va) = Some s \<and> bit (pe_tables st s ?i) 0"
      using C Inr by simp_all
    have "\<not> bit (pe_tables st s ?i) 0" if "node (pe_tables st) (root_of st) (seg 4 2 va) = Some s"
    proof -
      have "fst (entry_for va 2 False st) = Inr (s, ?i)" using that entry_for_find(1) [of va 2 st s ?i] by simp
      then show ?thesis using v(2) by (simp add: entry_bits split: if_splits)
    qed
    then have "\<not> interior (pe_tables st1 s ?i)" using node(3) by (auto simp: interior_def)
    moreover have "\<not> interior (compose_entry pa p True)" by (simp add: interior_def bit_compose_entry [OF pa])
    ultimately have "hierarchy_ok (set_entry s ?i (compose_entry pa p True) st1)"
      using write_entry(1) [OF node(1,2) _ _ refl] by simp
    then show ?thesis by (simp add: st')
  qed
qed (use ok in simp)

lemma build_pages_ok:
  "hierarchy_ok st \<Longrightarrow> build_pages sections windows addresses st = (status, st') \<Longrightarrow> hierarchy_ok st'"
proof (induction addresses arbitrary: st)
  case (Cons a rest)
  obtain s1 st1 where m: "map_range a a 4096 (section_permissions sections windows a) 1 st = (s1, st1)" by fastforce
  have "hierarchy_ok st1" using map_range_view [OF Cons.prems(1) m] by blast
  then show ?case using Cons m by (auto split: if_splits)
qed simp

lemma build_regions_ok:
  "hierarchy_ok st \<Longrightarrow> build_regions k sections windows bases fine st = (status, fine', st') \<Longrightarrow> hierarchy_ok st'"
proof (induction bases arbitrary: st fine)
  case (Cons base rest)
  obtain s1 st1 where m: "map_range base base 0x200000 PAGING_WRITE 2 st = (s1, st1)" by fastforce
  obtain s2 st2 where p: "build_pages sections windows (region_pages base) st = (s2, st2)" by fastforce
  have "hierarchy_ok st1" "hierarchy_ok st2"
    using map_huge_ok [OF Cons.prems(1) m] build_pages_ok [OF Cons.prems(1) p] by simp_all
  then show ?case using Cons m p by (auto split: if_splits)
qed simp

text \<open>A freshly allocated root is a hierarchy with no leaf.\<close>

lemma fresh_root:
  assumes "frames_ok (pe_frames st0)" "fa_initialized (pe_frames st0)" "ph_arena_capacity (pe_hierarchy st0) = 0"
    and "allocate_table st0 = (Inr n, st1)" "st2 = st1\<lparr>pe_hierarchy := (pe_hierarchy st1)\<lparr>ph_root := n\<rparr>\<rparr>"
  shows "hierarchy_ok st2" "node (pe_tables st2) (root_of st2) p = Some t \<longleftrightarrow> p = [] \<and> t = n" "leaf_of st2 va = None"
proof (atomize(full), use assms(3,4) in \<open>cases rule: allocate_tableE\<close>)
  case (fresh m)
  note new = frame_allocate_owned [OF assms(1) fresh(2)]
  have step: "frame_step (Op_Allocate (Some 0)) (pe_frames st0) = (FRAME_STATUS_OK, pe_frames st2)"
    using fresh(2) by (simp add: assms(5))
  have T: "pe_tables st2 n j = 0" for j using fresh(1,3) by (simp add: assms(5))
  have root: "root_of st2 = n" by (simp add: assms(5))
  have node: "node (pe_tables st2) n p = Some t \<longleftrightarrow> p = [] \<and> t = n" for p t
    by (cases p) (auto simp: T interior_def)
  have "hierarchy_ok st2"
    unfolding hierarchy_ok_def tree_def plain_links_def tables_owned_def root node
    using frame_step_ok [OF assms(1) step] frame_step_initialized [OF step] assms(2,3) new(1,2) fresh(1)
    by (auto simp: T interior_def assms(5) fresh(3,4))
  moreover have "translate_walk (pe_tables st2) va (Suc 3) n True True True = None"
    unfolding translate_walk.simps(2) by (simp add: T entry_bits)
  then have "leaf_of st2 va = None" by (simp add: leaf_of_def root)
  ultimately show "hierarchy_ok st2 \<and> (node (pe_tables st2) (root_of st2) p = Some t \<longleftrightarrow> p = [] \<and> t = n) \<and> leaf_of st2 va = None"
    using node root by simp
qed simp

lemma build_hierarchy_ok:
  assumes "frames_ok (pe_frames st)" "fa_initialized (pe_frames st)"
    and "build_hierarchy k sections windows pat fine st = (PAGING_STATUS_OK, fine', st')"
  shows "hierarchy_ok st'" "validate_identity_map k sections windows pat st' = PAGING_STATUS_OK"
    "pa_write_execute_leaves (audit_hierarchy st') = 0"
proof -
  define st0 where "st0 = st\<lparr>pe_hierarchy := fresh_hierarchy (pe_hierarchy st)\<rparr>"
  have st0: "pe_frames st0 = pe_frames st" "ph_arena_capacity (pe_hierarchy st0) = 0"
    by (simp_all add: st0_def fresh_hierarchy_def)
  have "fst (allocate_table st0) \<noteq> Inl PAGING_STATUS_OK"
    using st0(2) surjective_pairing [of "allocate_table st0"] by (cases rule: allocate_tableE) simp_all
  then obtain n st1 where a: "allocate_table st0 = (Inr n, st1)"
    using assms(3) by (cases "allocate_table st0"; cases "fst (allocate_table st0)")
      (auto simp: build_hierarchy_def st0_def [symmetric])
  define st2 where "st2 = st1\<lparr>pe_hierarchy := (pe_hierarchy st1)\<lparr>ph_root := n\<rparr>\<rparr>"
  have "hierarchy_ok st2" using fresh_root(1) [OF _ _ st0(2) a st2_def] assms(1,2) st0(1) by simp
  moreover obtain s fine2 st3 where b: "build_identity_map k sections windows st2 = (s, fine2, st3)" by (metis prod_cases3)
  ultimately have "hierarchy_ok st3" using build_regions_ok unfolding build_identity_map_def by blast
  then show "hierarchy_ok st'" "validate_identity_map k sections windows pat st' = PAGING_STATUS_OK"
    "pa_write_execute_leaves (audit_hierarchy st') = 0"
    using assms(3) a b by (auto simp: build_hierarchy_def st0_def [symmetric] st2_def [symmetric] split: if_splits)
qed

section \<open>Table changes leave CR3 alone\<close>

lemma allocate_table_cr3: "pe_cr3 (snd (allocate_table st)) = pe_cr3 st"
  by (auto simp: allocate_table_def supply_table_def count_failure_def zero_table_def Let_def
      split: prod.splits option.splits if_splits)

lemma entry_walk_cr3: "pe_cr3 (snd (entry_walk l target va create t st)) = pe_cr3 st"
proof (induction l arbitrary: t st)
  case (Suc l)
  obtain a st1 where a: "allocate_table st = (a, st1)" by fastforce
  have "pe_cr3 st1 = pe_cr3 st" using allocate_table_cr3 [of st] by (simp add: a)
  then show ?case using Suc by (cases a; cases create) (simp_all add: Let_def a)
qed simp

lemma entry_for_cr3: "pe_cr3 (snd (entry_for va target create st)) = pe_cr3 st"
  using entry_walk_cr3 [of 4 target va create "root_of st" st] by (auto simp: entry_for_def split: prod.splits sum.splits)

lemma release_table_cr3 [simp]: "pe_cr3 (release_table t st) = pe_cr3 st"
  by (simp add: release_table_def Let_def)

lemma reclaim_climb_cr3: "pe_cr3 (reclaim_climb va level tables st) = pe_cr3 st"
  by (induction va level tables st rule: reclaim_climb.induct) simp_all

lemma clear_page_cr3: "pe_cr3 (clear_page level va st) = pe_cr3 st"
  by (auto simp: clear_page_def reclaim_empty_tables_def reclaim_climb_cr3 Let_def split: sum.splits option.splits)

lemma clear_range_cr3: "pe_cr3 (clear_range va len level st) = pe_cr3 st"
proof -
  have "pe_cr3 (fold (\<lambda>offset. clear_page level (va + offset)) offsets st) = pe_cr3 st" for offsets
    by (induction offsets arbitrary: st) (simp_all add: clear_page_cr3)
  then show ?thesis by (simp add: clear_range_def)
qed

lemma map_pages_cr3: "pe_cr3 (snd (map_pages va pa p level offsets st)) = pe_cr3 st"
proof (induction offsets arbitrary: st)
  case (Cons offset rest)
  obtain a st1 where a: "entry_for (va + offset) level True st = (a, st1)" by fastforce
  have "pe_cr3 st1 = pe_cr3 st" using entry_for_cr3 [of "va + offset" level True st] by (simp add: a)
  then show ?case using Cons by (cases a) (auto simp: a clear_range_cr3 split: prod.splits)
qed simp

lemma map_range_cr3: "pe_cr3 (snd (map_range va pa len p level st)) = pe_cr3 st"
  by (simp add: map_range_def Let_def map_pages_cr3)

lemma build_pages_cr3: "pe_cr3 (snd (build_pages sections windows addresses st)) = pe_cr3 st"
proof (induction addresses arbitrary: st)
  case (Cons a rest)
  obtain s st1 where m: "map_range a a 4096 (section_permissions sections windows a) 1 st = (s, st1)" by fastforce
  have "pe_cr3 st1 = pe_cr3 st" using map_range_cr3 [of a a 4096 "section_permissions sections windows a" 1 st]
    unfolding m by simp
  then show ?case using Cons m by simp
qed simp

lemma build_regions_cr3: "pe_cr3 (snd (snd (build_regions k sections windows bases fine st))) = pe_cr3 st"
proof (induction bases arbitrary: st fine)
  case (Cons base rest)
  obtain s1 st1 where m: "map_range base base 0x200000 PAGING_WRITE 2 st = (s1, st1)" by fastforce
  obtain s2 st2 where p: "build_pages sections windows (region_pages base) st = (s2, st2)" by fastforce
  have "pe_cr3 st1 = pe_cr3 st" using arg_cong [OF m, of "\<lambda>r. pe_cr3 (snd r)"] by (simp add: map_range_cr3)
  moreover have "pe_cr3 st2 = pe_cr3 st" using arg_cong [OF p, of "\<lambda>r. pe_cr3 (snd r)"] by (simp add: build_pages_cr3)
  ultimately have "pe_cr3 st1 = pe_cr3 st" "pe_cr3 st2 = pe_cr3 st" by simp_all
  then show ?case using Cons m p by simp
qed simp

lemma build_hierarchy_cr3:
  assumes "build_hierarchy k sections windows pat fine st = (status, fine', st')"
  shows "pe_cr3 st' = pe_cr3 st"
proof -
  define st0 where "st0 = st\<lparr>pe_hierarchy := fresh_hierarchy (pe_hierarchy st)\<rparr>"
  obtain r st1 where a: "allocate_table st0 = (r, st1)" by fastforce
  have st1: "pe_cr3 st1 = pe_cr3 st" using allocate_table_cr3 [of st0] a by (simp add: st0_def)
  show ?thesis
  proof (cases r)
    case (Inl e)
    then show ?thesis using assms a st1 by (simp add: build_hierarchy_def st0_def)
  next
    case (Inr n)
    obtain s fine2 st3 where b: "build_identity_map k sections windows (st1\<lparr>pe_hierarchy := (pe_hierarchy st1)\<lparr>ph_root := n\<rparr>\<rparr>) = (s, fine2, st3)"
      by (metis prod_cases3)
    then have "pe_cr3 st3 = pe_cr3 st"
      using build_regions_cr3 [of k sections windows identity_regions 0 "st1\<lparr>pe_hierarchy := (pe_hierarchy st1)\<lparr>ph_root := n\<rparr>\<rparr>"] st1
      by (simp add: build_identity_map_def)
    then show ?thesis using assms a b Inr by (auto simp: build_hierarchy_def st0_def split: if_splits)
  qed
qed

section \<open>The regions and their pages\<close>

lemma identity_regions_eq: "identity_regions = map (\<lambda>j. j * 0x200000) [0 ..< 2048]"
  by (simp add: identity_regions_def page_offsets_def)

lemma region_pages_eq: "region_pages base = map (\<lambda>j. base + j * 4096) [0 ..< 512]"
  by (simp add: region_pages_def page_offsets_def comp_def)

lemma validated_page:
  assumes "validate_identity_map k sections windows pat st = PAGING_STATUS_OK" "a < 2 ^ 32"
    and "region_needs_page_table windows (a div 0x200000 * 0x200000) (sym_kernel_start k) (sym_kernel_end k)"
  shows "page_as_expected sections windows pat st (a div 4096 * 4096)"
proof -
  let ?base = "a div 0x200000 * 0x200000"
  have "?base \<in> set identity_regions" using assms(2) by (simp add: identity_regions_eq div_less_iff_less_mult)
  then have all: "\<forall>address \<in> set (region_pages ?base). page_as_expected sections windows pat st address"
    using assms(1,3) by (auto simp: validate_identity_map_def region_as_expected_def list_all_iff split: if_splits)
  define q where "q = a div 4096"
  have "a div 0x200000 = q div 512" unfolding q_def by (simp add: div_mult2_eq [symmetric])
  then have "a div 4096 * 4096 = ?base + q mod 512 * 4096"
    unfolding q_def [symmetric] using div_mult_mod_eq [of q 512] by linarith
  then have "a div 4096 * 4096 \<in> set (region_pages ?base)" unfolding region_pages_eq by simp
  then show ?thesis using all by blast
qed

section \<open>The policy of the map\<close>

text \<open>The image as \<open>linker.ld\<close> lays it out: sections in order, without gaps, on page boundaries.\<close>

definition linked_image :: "kernel_symbols \<Rightarrow> bool" where
  "linked_image k \<longleftrightarrow> sym_kernel_start k = 0x100000 \<and> sym_kernel_start k \<le> sym_text_start k \<and>
     sym_text_start k \<le> sym_text_end k \<and> sym_text_end k = sym_rodata_start k \<and>
     sym_rodata_start k \<le> sym_rodata_end k \<and> sym_rodata_end k = sym_data_start k \<and>
     sym_data_start k \<le> sym_kernel_end k \<and>
     list_all (\<lambda>a. 4096 dvd a) [sym_text_start k, sym_text_end k, sym_rodata_end k, sym_kernel_end k]"

text \<open>What an address below 4 GiB should map to: a device window has the memory type it asks for and is
  never executable; of the kernel image only the text is executable and only the data is writable; the
  rest is ordinary memory.\<close>

definition in_window :: "paging_device_window \<Rightarrow> nat \<Rightarrow> bool" where
  "in_window w a \<longleftrightarrow> dw_physical_base w \<le> a \<and> a < dw_physical_base w + dw_length w"

definition window_rights :: "paging_device_window \<Rightarrow> u32" where
  "window_rights w =
     (if bit (dw_permissions w) 0 then PAGING_WRITE else PAGING_READ) OR
     (case dw_memory_type w of
        PAGING_MEMORY_UNCACHEABLE \<Rightarrow> PAGING_UNCACHED
      | PAGING_MEMORY_WRITE_COMBINING \<Rightarrow> PAGING_WRITE_COMBINING
      | _ \<Rightarrow> 0)"

definition image_rights :: "kernel_symbols \<Rightarrow> nat \<Rightarrow> u32" where
  "image_rights k a =
     (if a < sym_kernel_start k \<or> sym_data_start k \<le> a then PAGING_WRITE
      else if sym_text_start k \<le> a \<and> a < sym_text_end k then PAGING_EXECUTE
      else PAGING_READ)"

definition boot_policy :: "kernel_symbols \<Rightarrow> paging_device_windows \<Rightarrow> nat \<Rightarrow> paging_translation \<Rightarrow> bool" where
  "boot_policy k windows a t \<longleftrightarrow>
     (\<forall>w \<in> set windows. in_window w a \<longrightarrow> tr_memory_type t = dw_memory_type w \<and> tr_permissions t = window_rights w) \<and>
     (list_all (\<lambda>w. \<not> in_window w a) windows \<longrightarrow>
        tr_memory_type t = PAGING_MEMORY_WRITE_BACK \<and> tr_permissions t = image_rights k a)"

text \<open>Windows that \<open>paging_initialize\<close> accepts for an image.\<close>

definition windows_fit :: "kernel_symbols \<Rightarrow> paging_device_windows \<Rightarrow> bool" where
  "windows_fit k windows \<longleftrightarrow> list_all (\<lambda>w. validate_device_window_entry w = PAGING_STATUS_OK) windows \<and>
     \<not> some_pair ranges_overlap windows \<and> reject_kernel_device_overlap k windows = PAGING_STATUS_OK"

lemma page_floor_iff:
  fixes x a :: nat
  assumes "4096 dvd x"
  shows "x \<le> a div 4096 * 4096 \<longleftrightarrow> x \<le> a" "a div 4096 * 4096 < x \<longleftrightarrow> a < x"
proof -
  obtain q where q: "x = 4096 * q" using assms by blast
  have "q \<le> a div 4096 \<longleftrightarrow> 4096 * q \<le> a" by (simp add: less_eq_div_iff_mult_less_eq mult.commute)
  then show "x \<le> a div 4096 * 4096 \<longleftrightarrow> x \<le> a" by (simp add: q)
  then show "a div 4096 * 4096 < x \<longleftrightarrow> a < x" by (simp add: linorder_not_le [symmetric])
qed

lemma window_end_eq: "validate_device_window_entry w = PAGING_STATUS_OK \<Longrightarrow> window_end w = dw_physical_base w + dw_length w"
  using window_entry_OK(5) [of w] by (auto simp: window_end_def intro!: add64_exact)

lemma windows_fitD:
  assumes "windows_fit k v" "w \<in> set v"
  shows "validate_device_window_entry w = PAGING_STATUS_OK" "window_end w = dw_physical_base w + dw_length w"
    "sym_kernel_end k \<le> dw_physical_base w \<or> dw_physical_base w + dw_length w \<le> sym_kernel_start k"
proof -
  show ok: "validate_device_window_entry w = PAGING_STATUS_OK" using assms by (simp add: windows_fit_def list_all_iff)
  show "window_end w = dw_physical_base w + dw_length w" by (rule window_end_eq [OF ok])
  then show "sym_kernel_end k \<le> dw_physical_base w \<or> dw_physical_base w + dw_length w \<le> sym_kernel_start k"
    using assms by (auto simp: windows_fit_def reject_kernel_device_overlap_def list_ex_iff split: if_splits)
qed

lemma windows_apart:
  assumes "windows_fit k v" "w \<in> set v" "w' \<in> set v" "in_window w a" "in_window w' a"
  shows "w = w'"
proof (rule ccontr)
  assume ne: "w \<noteq> w'"
  obtain M where M: "mset v = add_mset w M" using assms(2) multi_member_split [of w "mset v"] by auto
  have "set v = insert w (set_mset M)" using arg_cong [OF M, of set_mset] by simp
  then have "w' \<in># M" using assms(3) ne by simp
  then obtain N where "M = add_mset w' N" by (auto dest: multi_member_split)
  then have "mset v = add_mset w (add_mset w' N)" using M by simp
  moreover have "ranges_overlap w w'"
    using assms(4,5) windows_fitD(2) [OF assms(1,2)] windows_fitD(2) [OF assms(1,3)]
    by (simp add: ranges_overlap_def in_window_def window_end_def)
  moreover have "ranges_overlap x y \<longleftrightarrow> ranges_overlap y x" for x y by (auto simp: ranges_overlap_def)
  ultimately have "some_pair ranges_overlap v" using some_pair_mset [of ranges_overlap v] by blast
  then show False using assms(1) by (simp add: windows_fit_def)
qed

lemma find_SomeD: "find P xs = Some x \<Longrightarrow> x \<in> set xs \<and> P x"
  by (auto simp: find_Some_iff)

lemma window_at_page:
  assumes "windows_fit k v"
  shows "device_window_at v (a div 4096 * 4096) = Some w \<longleftrightarrow> w \<in> set v \<and> in_window w a"
    and "device_window_at v (a div 4096 * 4096) = None \<longleftrightarrow> list_all (\<lambda>w. \<not> in_window w a) v"
proof -
  have page: "dw_physical_base w \<le> a div 4096 * 4096 \<and> a div 4096 * 4096 < window_end w \<longleftrightarrow> in_window w a" if "w \<in> set v" for w
    using windows_fitD(2) [OF assms that] window_entry_OK(2,3) [OF windows_fitD(1) [OF assms that]]
    by (simp add: page_floor_iff in_window_def)
  show none: "device_window_at v (a div 4096 * 4096) = None \<longleftrightarrow> list_all (\<lambda>w. \<not> in_window w a) v"
    unfolding device_window_at_def find_None_iff list_all_iff using page by auto
  show "device_window_at v (a div 4096 * 4096) = Some w \<longleftrightarrow> w \<in> set v \<and> in_window w a"
  proof
    assume "device_window_at v (a div 4096 * 4096) = Some w"
    from find_SomeD [OF this [unfolded device_window_at_def]] show "w \<in> set v \<and> in_window w a" using page by blast
  next
    assume w: "w \<in> set v \<and> in_window w a"
    then obtain w' where w': "device_window_at v (a div 4096 * 4096) = Some w'"
      using none by (cases "device_window_at v (a div 4096 * 4096)") (auto simp: list_all_iff)
    from find_SomeD [OF w' [unfolded device_window_at_def]] have "w' \<in> set v" "in_window w' a" using page by blast+
    then show "device_window_at v (a div 4096 * 4096) = Some w" using windows_apart [OF assms] w w' by blast
  qed
qed

lemma find_add_section:
  "find (\<lambda>s. a \<ge> sc_start s \<and> a < sc_end s) (add_section start past p xs) =
     (case find (\<lambda>s. a \<ge> sc_start s \<and> a < sc_end s) xs of
        Some s \<Rightarrow> Some s
      | None \<Rightarrow> if start \<le> a \<and> a < past then Some \<lparr>sc_start = start, sc_end = past, sc_permissions = p\<rparr> else None)"
  by (induction xs) (auto simp: add_section_def split: option.splits)

lemma image_page_rights:
  assumes "linked_image k" "device_window_at v (a div 4096 * 4096) = None"
  shows "section_permissions (collect_kernel_sections k) v (a div 4096 * 4096) = image_rights k a"
proof -
  have d: "4096 dvd sym_kernel_start k" "4096 dvd sym_text_start k" "4096 dvd sym_text_end k" "4096 dvd sym_rodata_start k"
    "4096 dvd sym_rodata_end k" "4096 dvd sym_data_start k" "4096 dvd sym_kernel_end k"
    using assms(1) by (auto simp: linked_image_def)
  show ?thesis
    using assms unfolding section_permissions_def collect_kernel_sections_def find_add_section
      page_floor_iff [OF d(1)] page_floor_iff [OF d(2)] page_floor_iff [OF d(3)] page_floor_iff [OF d(4)]
      page_floor_iff [OF d(5)] page_floor_iff [OF d(6)] page_floor_iff [OF d(7)]
    by (auto simp: linked_image_def image_rights_def)
qed

lemma window_mapping_rights:
  assumes "validate_device_window_entry w = PAGING_STATUS_OK"
  shows "device_window_mapping_permissions w = window_rights w"
proof -
  have "dw_permissions w AND PAGING_DEVICE_WINDOW_WRITE \<noteq> 0 \<longleftrightarrow> bit (dw_permissions w) 0"
    unfolding PAGING_DEVICE_WINDOW_WRITE_def and_push_bit_1 by simp
  then show ?thesis
    using window_entry_OK(6) [OF assms]
    by (auto simp: device_window_mapping_permissions_def window_rights_def memory_type_permission_def
        device_memory_type_supported_def PAGING_READ_def)
qed

lemma page_policy:
  assumes "linked_image k" "windows_fit k v"
    and "tr_permissions t = section_permissions (collect_kernel_sections k) v (a div 4096 * 4096)"
    and "tr_memory_type t = (case device_window_at v (a div 4096 * 4096) of
      Some window \<Rightarrow> dw_memory_type window | None \<Rightarrow> PAGING_MEMORY_WRITE_BACK)"
  shows "boot_policy k v a t"
proof -
  have "tr_memory_type t = dw_memory_type w \<and> tr_permissions t = window_rights w" if "w \<in> set v" "in_window w a" for w
  proof -
    have "device_window_at v (a div 4096 * 4096) = Some w" using that window_at_page(1) [OF assms(2)] by blast
    then show ?thesis using assms(3,4) window_mapping_rights [OF windows_fitD(1) [OF assms(2) that(1)]]
      by (simp add: section_permissions_def)
  qed
  moreover have "tr_memory_type t = PAGING_MEMORY_WRITE_BACK \<and> tr_permissions t = image_rights k a"
    if "list_all (\<lambda>w. \<not> in_window w a) v"
  proof -
    have none: "device_window_at v (a div 4096 * 4096) = None" using that window_at_page(2) [OF assms(2)] by blast
    then show ?thesis using assms(3,4) image_page_rights [OF assms(1) none] by simp
  qed
  ultimately show ?thesis by (simp add: boot_policy_def)
qed

text \<open>A region that gets a large page holds no window and no part of the image.\<close>

lemma coarse_policy:
  assumes "linked_image k" "windows_fit k v" "a < 2 ^ 32"
    and "\<not> region_needs_page_table v (a div 0x200000 * 0x200000) (sym_kernel_start k) (sym_kernel_end k)"
    and "tr_permissions t = PAGING_WRITE" "tr_memory_type t = PAGING_MEMORY_WRITE_BACK"
  shows "boot_policy k v a t"
proof -
  define base where "base = a div 0x200000 * 0x200000"
  have base: "base \<le> a" "a < base + 0x200000" unfolding base_def by (simp_all add: div_times_less_eq_dividend dividend_less_div_times)
  have "base + 0x200000 < 2 ^ 64" using base(1) assms(3) by simp
  then have past: "add64 base 0x200000 = base + 0x200000" by (rule add64_exact)
  have out: "sym_kernel_end k \<le> base \<or> base + 0x200000 \<le> sym_kernel_start k"
    "\<forall>w \<in> set v. window_end w \<le> base \<or> base + 0x200000 \<le> dw_physical_base w"
    using assms(4) by (auto simp: region_needs_page_table_def base_def [symmetric] past Let_def list_ex_iff not_less)
  have "\<not> in_window w a" if "w \<in> set v" for w
    using out(2) that base windows_fitD(2) [OF assms(2) that] by (auto simp: in_window_def)
  moreover have "image_rights k a = PAGING_WRITE"
    using out(1) base assms(1) by (auto simp: image_rights_def linked_image_def)
  ultimately show ?thesis using assms(5,6) by (auto simp: boot_policy_def)
qed

text \<open>What validation shows of every address.\<close>

lemma validated_translation:
  assumes valid: "validate_identity_map k (collect_kernel_sections k) windows pat st = PAGING_STATUS_OK" and a: "a < 2 ^ 32"
    and null: "a < 4096 \<longrightarrow> region_needs_page_table windows 0 (sym_kernel_start k) (sym_kernel_end k)"
    and fit: "linked_image k" "windows_fit k windows"
  shows "if a < 4096 then translate_address a pat st = (PAGING_STATUS_NOT_MAPPED, empty_translation)
    else \<exists>t. translate_address a pat st = (PAGING_STATUS_OK, t) \<and> tr_physical_address t = a \<and> boot_policy k windows a t"
proof -
  have canon: "address_is_canonical a" using a by (intro low_canonical) simp
  let ?base = "a div 0x200000 * 0x200000" and ?page = "a div 4096 * 4096"
  show ?thesis
  proof (cases "region_needs_page_table windows ?base (sym_kernel_start k) (sym_kernel_end k)")
    case True
    note page = validated_page [OF valid a True]
    show ?thesis
    proof (cases "a < 4096")
      case zero: True
      then have "fst (translate_address 0 pat st) = PAGING_STATUS_NOT_MAPPED"
        using page by (simp add: page_as_expected_def split: prod.splits)
      then have "leaf_of st 0 = None" using low_canonical [of 0]
        by (auto simp: translate_address_def leaf_of_def split: option.splits)
      moreover have "vpath a = vpath 0" unfolding vpath_page_iff [OF canon low_canonical [of 0, simplified]] using zero by simp
      ultimately have "leaf_of st a = None" using leaf_of_vpath by metis
      then show ?thesis using zero canon by (simp add: translate_none)
    next
      case False
      then have nz: "?page \<noteq> 0" by (simp add: div_eq_0_iff)
      obtain s t where t: "translate_address ?page pat st = (s, t)" by fastforce
      have ok: "s = PAGING_STATUS_OK" "tr_physical_address t = ?page" "tr_level t = 1"
        using page nz by (simp_all add: page_as_expected_def t)
      have "boot_policy k windows a (t\<lparr>tr_physical_address := a\<rparr>)"
        by (rule page_policy [OF fit]) (use page nz in \<open>simp_all add: page_as_expected_def t\<close>)
      moreover have "translate_address a pat st = (PAGING_STATUS_OK, t\<lparr>tr_physical_address := a\<rparr>)"
        using t ok canon page_size_1 by (intro translate_same_page [of ?page]) simp_all
      ultimately show ?thesis using False by simp
    qed
  next
    case False
    then have big: "\<not> a < 4096" using null by auto
    have "?base \<in> set identity_regions" using a by (simp add: identity_regions_eq div_less_iff_less_mult)
    then have region: "region_as_expected k (collect_kernel_sections k) windows pat st ?base"
      using valid by (auto simp: validate_identity_map_def list_all_iff split: if_splits)
    obtain s t where t: "translate_address ?base pat st = (s, t)" by fastforce
    have ok: "s = PAGING_STATUS_OK" "tr_physical_address t = ?base" "tr_level t = 2"
      using region False by (simp_all add: region_as_expected_def t)
    have "boot_policy k windows a (t\<lparr>tr_physical_address := a\<rparr>)"
      by (rule coarse_policy [OF fit a False]) (use region False in \<open>simp_all add: region_as_expected_def t\<close>)
    moreover have "translate_address a pat st = (PAGING_STATUS_OK, t\<lparr>tr_physical_address := a\<rparr>)"
      using t ok canon level_size_2 by (intro translate_same_page [of ?base]) simp_all
    ultimately show ?thesis using big by simp
  qed
qed


section \<open>Building the map succeeds\<close>

text \<open>The leaf the map gives an address below 4 GiB.\<close>

definition map_leaf :: "kernel_symbols \<Rightarrow> paging_device_windows \<Rightarrow> nat \<Rightarrow> leaf option" where
  "map_leaf k v va =
     (if region_needs_page_table v (va div 0x200000 * 0x200000) (sym_kernel_start k) (sym_kernel_end k)
      then if va < 4096 then None
        else Some (page_leaf (va div 4096 * 4096) (section_permissions (collect_kernel_sections k) v (va div 4096 * 4096)))
      else Some (large_leaf (va div 0x200000 * 0x200000) PAGING_WRITE))"

lemma section_permissions_cases:
  obtains (window) w where "device_window_at v a = Some w" "w \<in> set v"
      "section_permissions (collect_kernel_sections k) v a = device_window_mapping_permissions w"
    | (image) "device_window_at v a = None"
      "section_permissions (collect_kernel_sections k) v a \<in> {PAGING_READ, PAGING_EXECUTE, PAGING_WRITE}"
proof (cases "device_window_at v a")
  case None
  have "section_permissions (collect_kernel_sections k) v a \<in> {PAGING_READ, PAGING_EXECUTE, PAGING_WRITE}"
    unfolding section_permissions_def collect_kernel_sections_def find_add_section None
    by (simp split: option.splits)
  with None show thesis by (rule image)
next
  case (Some w)
  then show thesis using find_SomeD [OF Some [unfolded device_window_at_def]]
    by (intro window [of w]) (simp_all add: section_permissions_def)
qed

lemma permissions_okI:
  assumes "\<not> (bit p 0 \<and> bit p 1)" "\<not> (bit p 2 \<and> bit p 3)" "\<And>n. bit p n \<Longrightarrow> n < 4"
  shows "validate_permissions p = PAGING_STATUS_OK"
proof -
  have "n = 0 \<or> n = 1 \<or> n = 2 \<or> n = 3" if "bit p n" for n using assms(3) [OF that] by linarith
  then have "p AND NOT (PAGING_WRITE OR PAGING_EXECUTE OR PAGING_UNCACHED OR PAGING_WRITE_COMBINING) = 0"
    by (intro bit_word_eqI) (auto simp: bit_simps bit_permission)
  then show ?thesis using assms(1,2) by (simp add: validate_permissions_def Let_def entry_bits)
qed

lemma section_permissions_valid:
  assumes "list_all (\<lambda>w. validate_device_window_entry w = PAGING_STATUS_OK) v" "p = section_permissions (collect_kernel_sections k) v a"
  shows "validate_permissions p = PAGING_STATUS_OK"
    "(if bit p 2 then PAGING_MEMORY_UNCACHEABLE else if bit p 3 then PAGING_MEMORY_WRITE_COMBINING
      else PAGING_MEMORY_WRITE_BACK) =
     (case device_window_at v a of Some w \<Rightarrow> dw_memory_type w | None \<Rightarrow> PAGING_MEMORY_WRITE_BACK)"
proof (atomize(full), cases rule: section_permissions_cases [of v a k])
  case (window w)
  have "device_memory_type_supported (dw_memory_type w)"
    using window_entry_OK(6) [of w] assms(1) window(2) by (simp add: list_all_iff)
  then show "validate_permissions p = PAGING_STATUS_OK \<and>
    (if bit p 2 then PAGING_MEMORY_UNCACHEABLE else if bit p 3 then PAGING_MEMORY_WRITE_COMBINING
      else PAGING_MEMORY_WRITE_BACK) =
     (case device_window_at v a of Some w \<Rightarrow> dw_memory_type w | None \<Rightarrow> PAGING_MEMORY_WRITE_BACK)"
    unfolding assms(2) window(1,3)
    by (auto simp: device_window_mapping_permissions_def device_memory_type_supported_def memory_type_permission_def
        bit_or_iff bit_permission intro!: permissions_okI)
next
  case image
  then show "validate_permissions p = PAGING_STATUS_OK \<and>
    (if bit p 2 then PAGING_MEMORY_UNCACHEABLE else if bit p 3 then PAGING_MEMORY_WRITE_COMBINING
      else PAGING_MEMORY_WRITE_BACK) =
     (case device_window_at v a of Some w \<Rightarrow> dw_memory_type w | None \<Rightarrow> PAGING_MEMORY_WRITE_BACK)"
    unfolding assms(2) by (auto simp: bit_permission intro!: permissions_okI)
qed

lemma build_pages_progress:
  assumes valid: "list_all (\<lambda>w. validate_device_window_entry w = PAGING_STATUS_OK) v"
    and base: "0x200000 dvd base" "base + 0x200000 \<le> 2 ^ 32"
  shows "j \<le> 512 \<Longrightarrow> hierarchy_ok st \<Longrightarrow> \<not> failure_armed st \<Longrightarrow> \<not> tabled st base \<longrightarrow> 3 \<le> free_frames st \<Longrightarrow>
    (\<And>i. j \<le> i \<Longrightarrow> i < 512 \<Longrightarrow> leaf_of st (base + i * 4096) = None) \<Longrightarrow>
    \<exists>st'. build_pages (collect_kernel_sections k) v (map (\<lambda>i. base + i * 4096) [j ..< 512]) st = (PAGING_STATUS_OK, st') \<and>
      hierarchy_ok st' \<and> walked base st st' \<and> free_frames st \<le> free_frames st' + (if tabled st base then 0 else 3) \<and>
      (\<forall>va. address_is_canonical va \<longrightarrow> leaf_of st' va =
        (if base + j * 4096 \<le> va \<and> va < base + 0x200000 \<and> 4096 \<le> va
         then Some (page_leaf (va div 4096 * 4096) (section_permissions (collect_kernel_sections k) v (va div 4096 * 4096)))
         else leaf_of st va))"
proof (induction "512 - j" arbitrary: j st)
  case 0
  then show ?case by (auto simp: walked_refl)
next
  case (Suc d)
  let ?a = "base + j * 4096" and ?pages = "\<lambda>j. map (\<lambda>i. base + i * 4096) [j ..< 512]"
  let ?p = "section_permissions (collect_kernel_sections k) v"
  have j: "j < 512" using Suc.hyps(2) by simp
  have pages: "?pages j = ?a # ?pages (Suc j)" using j by (simp add: upt_conv_Cons)
  show ?case
  proof (cases "?a = 0")
    case True
    then have z: "base = 0" "j = 0" by simp_all
    obtain st' where st': "build_pages (collect_kernel_sections k) v (?pages 1) st = (PAGING_STATUS_OK, st') \<and>
      hierarchy_ok st' \<and> walked base st st' \<and> free_frames st \<le> free_frames st' + (if tabled st base then 0 else 3) \<and>
      (\<forall>va. address_is_canonical va \<longrightarrow> leaf_of st' va =
        (if base + 1 * 4096 \<le> va \<and> va < base + 0x200000 \<and> 4096 \<le> va
         then Some (page_leaf (va div 4096 * 4096) (?p (va div 4096 * 4096))) else leaf_of st va))"
      using Suc.hyps(1) [of 1 st] Suc.hyps(2) Suc.prems z by auto
    have "0 \<le> va \<and> va < 0x200000 \<and> 4096 \<le> va \<longleftrightarrow> 1 * 4096 \<le> va \<and> va < 0x200000 \<and> 4096 \<le> va" for va :: nat by auto
    then show ?thesis using st' z unfolding pages by simp
  next
    case False
    have a: "4096 dvd ?a" "?a + 4096 \<le> 2 ^ 32" using base j dvd_trans [of 4096 "0x200000" base] by simp_all
    have canon: "address_is_canonical ?a" "address_is_canonical base" using a(2) by (simp_all add: low_canonical)
    have "?a div 0x200000 = base div 0x200000" unfolding region_iff [OF base(1)] using j by simp
    then have region: "seg 4 1 ?a = seg 4 1 base" unfolding seg_region_iff [OF canon] .
    have tab: "tabled x ?a = tabled x base" for x by (simp only: tabled_def region)
    have "\<not> tabled st ?a \<longrightarrow> 3 \<le> free_frames st" using Suc.prems(4) by (simp only: tab)
    from map_page_progress [OF Suc.prems(2) a section_permissions_valid(1) [OF valid refl, of k ?a] this Suc.prems(3)]
    obtain st1 where st1: "map_range ?a ?a 4096 (?p ?a) 1 st = (PAGING_STATUS_OK, st1)" "hierarchy_ok st1" "walked ?a st st1"
      "tabled st1 ?a" "free_frames st \<le> free_frames st1 + (if tabled st ?a then 0 else 3)"
      "\<forall>va. address_is_canonical va \<longrightarrow> leaf_of st1 va =
        (if ?a \<le> va \<and> va < ?a + 4096 then Some (page_leaf ?a (?p ?a)) else leaf_of st va)"
      using Suc.prems(5) [of j] j by auto
    have none: "leaf_of st1 (base + i * 4096) = None" if "Suc j \<le> i" "i < 512" for i
      using st1(6) Suc.prems(5) [of i] that low_canonical [of "base + i * 4096"] base(2) by auto
    have tab1: "tabled st1 base" using st1(4) by (simp only: tab)
    have step: "d = 512 - Suc j" "Suc j \<le> 512" "\<not> failure_armed st1" "\<not> tabled st1 base \<longrightarrow> 3 \<le> free_frames st1"
      using Suc.hyps(2) j st1(3) tab1 by (simp_all add: walked_def)
    from Suc.hyps(1) [OF step(1,2) st1(2) step(3,4) none]
    obtain st' where st': "build_pages (collect_kernel_sections k) v (?pages (Suc j)) st1 = (PAGING_STATUS_OK, st')"
      "hierarchy_ok st'" "walked base st1 st'" "free_frames st1 \<le> free_frames st'"
      "\<forall>va. address_is_canonical va \<longrightarrow> leaf_of st' va =
        (if base + Suc j * 4096 \<le> va \<and> va < base + 0x200000 \<and> 4096 \<le> va
         then Some (page_leaf (va div 4096 * 4096) (?p (va div 4096 * 4096))) else leaf_of st1 va)"
      unfolding if_P [OF tab1] add_0_right by blast
    have "walked base st st'" using st1(3) st'(3) region by (auto simp: walked_def)
    moreover have "leaf_of st' va = (if ?a \<le> va \<and> va < base + 0x200000 \<and> 4096 \<le> va
         then Some (page_leaf (va div 4096 * 4096) (?p (va div 4096 * 4096))) else leaf_of st va)" if "address_is_canonical va" for va
    proof -
      have page: "va div 4096 * 4096 = ?a" if "?a \<le> va" "va < ?a + 4096"
      proof -
        obtain q where q: "?a = 4096 * q" using a(1) by blast
        have "va div 4096 = q" using that unfolding q by (intro div_nat_eqI) simp_all
        then show ?thesis by (simp add: q)
      qed
      have "4096 \<le> ?a" using False a(1) by (meson dvd_imp_le neq0_conv)
      then show ?thesis using st'(5) st1(6) that page j by (auto simp: not_less)
    qed
    moreover have "build_pages (collect_kernel_sections k) v (?pages j) st = (PAGING_STATUS_OK, st')"
      unfolding pages build_pages.simps if_not_P [OF False] using st1(1) st'(1) by simp
    moreover have "free_frames st \<le> free_frames st' + (if tabled st base then 0 else 3)"
      using st1(5) st'(4) unfolding tab by linarith
    ultimately show ?thesis using st'(2) by blast
  qed
qed

text \<open>The store when the regions below the \<open>m\<close>-th are built.\<close>

definition built_below :: "kernel_symbols \<Rightarrow> paging_device_windows \<Rightarrow> nat \<Rightarrow> paging_store \<Rightarrow> bool" where
  "built_below k v m st \<longleftrightarrow> hierarchy_ok st \<and> \<not> failure_armed st \<and> counted st \<and> 3 * (2048 - m) \<le> free_frames st \<and>
     (\<forall>va. address_is_canonical va \<longrightarrow> leaf_of st va = (if va < m * 0x200000 then map_leaf k v va else None)) \<and>
     (\<forall>i. m \<le> i \<and> i < 2048 \<longrightarrow> vacant st (i * 0x200000))"

lemma build_region_step:
  assumes "list_all (\<lambda>w. validate_device_window_entry w = PAGING_STATUS_OK) v" "built_below k v m st" "m < 2048"
  shows "\<exists>st'. (if \<not> region_needs_page_table v (m * 0x200000) (sym_kernel_start k) (sym_kernel_end k)
      then map_range (m * 0x200000) (m * 0x200000) 0x200000 PAGING_WRITE 2 st
      else build_pages (collect_kernel_sections k) v (region_pages (m * 0x200000)) st) = (PAGING_STATUS_OK, st') \<and>
    built_below k v (Suc m) st'"
proof -
  let ?base = "m * 0x200000"
  have B: "hierarchy_ok st" "\<not> failure_armed st" "counted st" "3 * (2048 - m) \<le> free_frames st"
    "\<And>va. address_is_canonical va \<Longrightarrow> leaf_of st va = (if va < ?base then map_leaf k v va else None)"
    "\<And>i. m \<le> i \<Longrightarrow> i < 2048 \<Longrightarrow> vacant st (i * 0x200000)"
    using assms(2) by (simp_all add: built_below_def)
  have base: "0x200000 dvd ?base" "?base + 0x200000 \<le> 2 ^ 32" using assms(3) by simp_all
  have free: "3 \<le> free_frames st" using B(4) assms(3) by simp
  have none: "leaf_of st (?base + i) = None" if "i < 0x200000" for i
    using that base(2) by (subst B(5)) (auto intro!: low_canonical)
  have region: "va div 0x200000 * 0x200000 = ?base" if "?base \<le> va" "va < ?base + 0x200000" for va
    using that region_iff [OF base(1), of va] by simp
  define f where "f = (\<lambda>va. if ?base \<le> va \<and> va < ?base + 0x200000 then map_leaf k v va else leaf_of st va)"
  have "\<exists>st'. (if \<not> region_needs_page_table v ?base (sym_kernel_start k) (sym_kernel_end k)
      then map_range ?base ?base 0x200000 PAGING_WRITE 2 st
      else build_pages (collect_kernel_sections k) v (region_pages ?base) st) = (PAGING_STATUS_OK, st') \<and>
    hierarchy_ok st' \<and> walked ?base st st' \<and> free_frames st \<le> free_frames st' + 3 \<and>
    (\<forall>va. address_is_canonical va \<longrightarrow> leaf_of st' va = f va)"
  proof (cases "region_needs_page_table v ?base (sym_kernel_start k) (sym_kernel_end k)")
    case True
    have "map_leaf k v va = (if 4096 \<le> va then Some (page_leaf (va div 4096 * 4096)
        (section_permissions (collect_kernel_sections k) v (va div 4096 * 4096))) else leaf_of st va)"
      if "?base \<le> va" "va < ?base + 0x200000" for va
      using True none [of "va - ?base"] region [OF that] that by (auto simp: map_leaf_def)
    then have f: "f = (\<lambda>va. if ?base + 0 * 4096 \<le> va \<and> va < ?base + 0x200000 \<and> 4096 \<le> va then Some (page_leaf (va div 4096 * 4096)
        (section_permissions (collect_kernel_sections k) v (va div 4096 * 4096))) else leaf_of st va)"
      by (auto simp: f_def fun_eq_iff)
    have "\<exists>st'. build_pages (collect_kernel_sections k) v (map (\<lambda>i. ?base + i * 4096) [0 ..< 512]) st = (PAGING_STATUS_OK, st') \<and>
      hierarchy_ok st' \<and> walked ?base st st' \<and> free_frames st \<le> free_frames st' + (if tabled st ?base then 0 else 3) \<and>
      (\<forall>va. address_is_canonical va \<longrightarrow> leaf_of st' va = f va)"
      unfolding f by (rule build_pages_progress [OF assms(1) base _ B(1,2)]) (use free none in simp_all)
    then show ?thesis using True unfolding region_pages_eq by (auto split: if_splits)
  next
    case False
    have f: "f = (\<lambda>va. if ?base \<le> va \<and> va < ?base + 0x200000 then Some (large_leaf ?base PAGING_WRITE) else leaf_of st va)"
      using False region by (auto simp: f_def map_leaf_def fun_eq_iff)
    show ?thesis
      using map_large_progress [OF B(1) base write_permission_ok free B(2) none [of 0, simplified] B(6) [OF le_refl assms(3)]]
        False unfolding f by simp
  qed
  then obtain st' where st': "(if \<not> region_needs_page_table v ?base (sym_kernel_start k) (sym_kernel_end k)
      then map_range ?base ?base 0x200000 PAGING_WRITE 2 st
      else build_pages (collect_kernel_sections k) v (region_pages ?base) st) = (PAGING_STATUS_OK, st')"
    "hierarchy_ok st'" "walked ?base st st'" "free_frames st \<le> free_frames st' + 3"
    "\<forall>va. address_is_canonical va \<longrightarrow> leaf_of st' va = f va" by blast
  have "vacant st' (i * 0x200000)" if "Suc m \<le> i" "i < 2048" for i
  proof -
    have "address_is_canonical (i * 0x200000)" "address_is_canonical ?base" using that assms(3) by (simp_all add: low_canonical)
    then have "seg 4 1 (i * 0x200000) \<noteq> seg 4 1 ?base" using that by (simp only: seg_region_iff)
    then show ?thesis using st'(3) B(6) [of i] that by (simp add: walked_def)
  qed
  moreover have "leaf_of st' va = (if va < Suc m * 0x200000 then map_leaf k v va else None)" if "address_is_canonical va" for va
    using st'(5) B(5) that by (auto simp: f_def)
  ultimately have "built_below k v (Suc m) st'"
    using st'(2,3,4) B(3,4) assms(3) by (auto simp: built_below_def walked_def)
  then show ?thesis using st'(1) by blast
qed

lemma build_regions_progress:
  assumes "list_all (\<lambda>w. validate_device_window_entry w = PAGING_STATUS_OK) v"
  shows "m \<le> 2048 \<Longrightarrow> built_below k v m st \<Longrightarrow>
    \<exists>fine' st'. build_regions k (collect_kernel_sections k) v (map (\<lambda>j. j * 0x200000) [m ..< 2048]) fine st =
      (PAGING_STATUS_OK, fine', st') \<and> built_below k v 2048 st'"
proof (induction "2048 - m" arbitrary: m st fine)
  case 0
  then show ?case by simp
next
  case (Suc d)
  have m: "m < 2048" using Suc.hyps(2) by simp
  have regions: "map (\<lambda>j. j * 0x200000) [m ..< 2048] = m * 0x200000 # map (\<lambda>j. j * 0x200000) [Suc m ..< 2048]"
    using m by (simp add: upt_conv_Cons)
  obtain st1 where st1: "(if \<not> region_needs_page_table v (m * 0x200000) (sym_kernel_start k) (sym_kernel_end k)
      then map_range (m * 0x200000) (m * 0x200000) 0x200000 PAGING_WRITE 2 st
      else build_pages (collect_kernel_sections k) v (region_pages (m * 0x200000)) st) = (PAGING_STATUS_OK, st1)"
    "built_below k v (Suc m) st1"
    using build_region_step [OF assms Suc.prems(2) m] by blast
  have "d = 2048 - Suc m" "Suc m \<le> 2048" using Suc.hyps(2) by simp_all
  note rest = Suc.hyps(1) [OF this st1(2)]
  show ?case
    using st1(1) rest [of fine] rest [of "fine + 1"] unfolding regions build_regions.simps
    by (cases "region_needs_page_table v (m * 0x200000) (sym_kernel_start k) (sym_kernel_end k)") simp_all
qed

lemma map_leaf_cases:
  assumes "list_all (\<lambda>w. validate_device_window_entry w = PAGING_STATUS_OK) v"
  obtains (none) "map_leaf k v va = None"
    | (page) a p where "map_leaf k v va = Some (page_leaf a p)" "validate_permissions p = PAGING_STATUS_OK"
    | (large) a where "map_leaf k v va = Some (large_leaf a PAGING_WRITE)"
  using section_permissions_valid(1) [OF assms refl, of k "va div 4096 * 4096"] unfolding map_leaf_def by (metis (full_types))

lemma built_audit:
  assumes "list_all (\<lambda>w. validate_device_window_entry w = PAGING_STATUS_OK) v" "built_below k v m st"
  shows "pa_write_execute_leaves (audit_hierarchy st) = 0" "pa_user_leaves (audit_hierarchy st) = 0"
proof -
  have "safe_leaf (leaf_of st va) \<and> \<not> user_leaf (leaf_of st va)" if "address_is_canonical va" for va
  proof -
    have leaf: "leaf_of st va = None \<or> leaf_of st va = map_leaf k v va" using assms(2) that by (simp add: built_below_def)
    show ?thesis
      using assms(1) by (cases rule: map_leaf_cases [of v k va])
        (use leaf permissions_ok(1) in \<open>auto simp: safe_leaf_def user_leaf_def page_leaf_def large_leaf_def bit_permission\<close>)
  qed
  then show "pa_write_execute_leaves (audit_hierarchy st) = 0" "pa_user_leaves (audit_hierarchy st) = 0"
    unfolding audit_safe_iff audit_user_iff by simp_all
qed

lemma built_validates:
  assumes valid: "list_all (\<lambda>w. validate_device_window_entry w = PAGING_STATUS_OK) v"
    and built: "built_below k v 2048 st" and pat: "pat_ready pat"
  shows "validate_identity_map k (collect_kernel_sections k) v pat st = PAGING_STATUS_OK"
proof -
  have leaf: "leaf_of st a = map_leaf k v a" if "a < 2 ^ 32" for a
    using built that low_canonical [of a] by (simp add: built_below_def)
  have "region_as_expected k (collect_kernel_sections k) v pat st (j * 0x200000)" if j: "j < 2048" for j
  proof (cases "region_needs_page_table v (j * 0x200000) (sym_kernel_start k) (sym_kernel_end k)")
    case True
    have "page_as_expected (collect_kernel_sections k) v pat st (j * 0x200000 + i * 4096)" if i: "i < 512" for i
    proof -
      define a where "a = j * 0x200000 + i * 4096"
      have a: "a < 2 ^ 32" "4096 dvd a" "a mod 4096 = 0" "a div 0x200000 * 0x200000 = j * 0x200000"
        using i j region_iff [of "j * 0x200000" a] by (simp_all add: a_def)
      let ?p = "section_permissions (collect_kernel_sections k) v a"
      note p = section_permissions_valid [OF valid refl, of k a]
      have canon: "address_is_canonical a" using a(1) by (intro low_canonical) simp
      show "page_as_expected (collect_kernel_sections k) v pat st a"
      proof (cases "a = 0")
        case zero: True
        then have "leaf_of st a = None" using leaf [OF a(1)] a True by (simp add: map_leaf_def)
        then show ?thesis using canon zero by (simp add: page_as_expected_def translate_none)
      next
        case False
        then have "4096 \<le> a" using a(2) by (meson dvd_imp_le neq0_conv)
        then have "leaf_of st a = Some (page_leaf a ?p)"
          using leaf [OF a(1)] a(2,4) True by (simp add: map_leaf_def)
        from translate_page [OF this canon a(2) _ p(1) pat] show ?thesis
          using False a(1,3) p(2) by (simp add: page_as_expected_def page_translation_def)
      qed
    qed
    then show ?thesis using True by (simp add: region_as_expected_def region_pages_eq list_all_iff)
  next
    case False
    have base: "0x200000 dvd j * 0x200000" "j * 0x200000 + 0x200000 \<le> 2 ^ 32" using j by simp_all
    have "leaf_of st (j * 0x200000) = Some (large_leaf (j * 0x200000) PAGING_WRITE)"
      using leaf [of "j * 0x200000"] j False by (simp add: map_leaf_def)
    from translate_large [OF this base write_permission_ok pat] show ?thesis
      using False by (simp add: region_as_expected_def page_translation_def bit_permission)
  qed
  then show ?thesis by (auto simp: validate_identity_map_def identity_regions_eq list_all_iff)
qed

text \<open>6145 free frames are enough: the root and at most three tables for each of the 2048 regions.\<close>

lemma build_hierarchy_progress:
  assumes valid: "list_all (\<lambda>w. validate_device_window_entry w = PAGING_STATUS_OK) v" and pat: "pat_ready pat"
    and frames: "frames_ok (pe_frames st)" "fa_initialized (pe_frames st)" "6145 \<le> free_frames st" "\<not> failure_armed st"
  shows "\<exists>fine' st'. build_hierarchy k (collect_kernel_sections k) v pat fine st = (PAGING_STATUS_OK, fine', st') \<and>
    built_below k v 2048 st'"
proof -
  define st0 where "st0 = st\<lparr>pe_hierarchy := fresh_hierarchy (pe_hierarchy st)\<rparr>"
  have st0: "frames_ok (pe_frames st0)" "fa_initialized (pe_frames st0)" "ph_arena_capacity (pe_hierarchy st0) = 0"
    "0 < free_frames st0" "\<not> failure_armed st0" "ph_table_frames (pe_hierarchy st0) = 0" "free_frames st0 = free_frames st"
    using frames by (simp_all add: st0_def fresh_hierarchy_def failure_armed_def)
  have "free_frames st < 2 ^ 64"
    using frames_okD [OF frames(1,2)] stats_bounds(1) [of "pe_frames st"] by simp
  then have room: "ph_table_frames (pe_hierarchy st0) + free_frames st0 < 2 ^ 64" using st0(6,7) by simp
  obtain n st1 where a: "allocate_table st0 = (Inr n, st1)" "free_frames st1 = free_frames st0 - 1" "\<not> failure_armed st1" "counted st1"
    using allocate_table_free [OF st0(1-5)] room by metis
  define st2 where "st2 = st1\<lparr>pe_hierarchy := (pe_hierarchy st1)\<lparr>ph_root := n\<rparr>\<rparr>"
  note R = fresh_root [OF st0(1-3) a(1) st2_def]
  have "vacant st2 va" for va using R(2) [of "seg 4 2 va"] by (auto simp: vacant_def dest: arg_cong [of _ _ length])
  then have "built_below k v 0 st2"
    using R(1,3) a(2-4) st0(7) frames(3) by (simp add: built_below_def counted_def failure_armed_def st2_def)
  then obtain fine' st' where b: "build_identity_map k (collect_kernel_sections k) v st2 = (PAGING_STATUS_OK, fine', st')"
    "built_below k v 2048 st'"
    using build_regions_progress [OF valid, of 0 k st2 0] unfolding build_identity_map_def identity_regions_eq by auto
  then show ?thesis
    using a(1) built_audit [OF valid b(2)] built_validates [OF valid b(2) pat]
    by (simp add: build_hierarchy_def st0_def [symmetric] st2_def [symmetric])
qed

end
