(* ===== verification/Paging_Boot.thy ===== *)
theory Paging_Boot
  imports Boot_Maps
begin

text \<open>
  What \<open>paging_initialize\<close> guarantees: the map it installs is the intended one, it comes up when
  the machine is ready for it, and a refusal leaves the processor on the hierarchy it was using.
\<close>

section \<open>A successful start\<close>

lemma some_pair_or: "some_pair (\<lambda>a b. P a b \<or> Q a b) xs \<longleftrightarrow> some_pair P xs \<or> some_pair Q xs"
  by (induction xs) (auto simp: list_ex_iff)

lemma validated_windows_fit:
  assumes "paging_device_windows_validate (Some ws) (Some []) = (PAGING_STATUS_OK, Some v)"
    and "reject_kernel_device_overlap k v = PAGING_STATUS_OK"
  shows "windows_fit k v"
proof -
  note V = device_windows_validate_OK [OF assms(1)]
  have mset: "mset v = mset ws" "set v = set ws" by (simp_all add: V(1) sort_windows_eq)
  have sym: "ranges_overlap a b \<longleftrightarrow> ranges_overlap b a" for a b by (auto simp: ranges_overlap_def)
  have "\<not> some_pair (\<lambda>a b. plain_overlap a b \<or> same_slot a b) ws" unfolding some_pair_or using V(4,5) by simp
  then have "\<not> some_pair (\<lambda>a b. ranges_overlap a b) ws"
    by (induction ws) (auto simp: plain_overlap_def list_ex_iff)
  then have "\<not> some_pair ranges_overlap v" using some_pair_permute [OF mset(1), of ranges_overlap, OF sym] by blast
  then show ?thesis using V(3) assms(2) mset(2) by (simp add: windows_fit_def list_all_iff)
qed

lemma paging_initialize_OK:
  assumes "paging_initialize k windows b = (PAGING_STATUS_OK, b')"
  obtains ws v pat fine st where "windows = Some ws"
    "paging_device_windows_validate (Some ws) (Some []) = (PAGING_STATUS_OK, Some v)" "windows_fit k v" "pat_ready pat"
    "build_hierarchy k (collect_kernel_sections k) v pat (pb_fine_region_count b) (ps_store (pb_system b)) = (PAGING_STATUS_OK, fine, st)"
    "ps_active (pb_system b')" "ps_pat_after (pb_system b') = pat" "pb_installed_device_windows b' = v"
    "ps_store (pb_system b') = st\<lparr>pe_hierarchy := (pe_hierarchy st)\<lparr>ph_live := True\<rparr>, pe_cr3 := of_nat (root_of st)\<rparr>"
proof -
  obtain ws where ws: "windows = Some ws" "\<not> ps_active (pb_system b)"
    using assms by (auto simp: paging_initialize_def split: option.splits if_splits)
  obtain v pat0 where c: "initialize_checks k ws b = Inr (v, pat0)"
    using assms ws by (auto simp: paging_initialize_def initialize_checks_def Let_def split: sum.splits prod.splits if_splits)
  define pat where "pat = pat_replace_entry pat0 PAT_WRITE_COMBINING_ENTRY PAT_TYPE_WRITE_COMBINING"
  obtain s1 c1 where e: "enable_processor_features (pb_cpu b) = (s1, c1)" by fastforce
  obtain s2 fine st where h: "build_hierarchy k (collect_kernel_sections k) v pat (pb_fine_region_count b) (ps_store (pb_system b)) = (s2, fine, st)"
    by (metis prod_cases3)
  define b1 where "b1 = b\<lparr>pb_cpu := c1, pb_kernel_sections := collect_kernel_sections k, pb_fine_region_count := fine,
      pb_system := (pb_system b)\<lparr>ps_store := st\<rparr>\<rparr>"
  have s2: "s2 = PAGING_STATUS_OK" and i: "install_hierarchy k v pat0 pat b1 = (PAGING_STATUS_OK, b')"
    using assms ws c e h unfolding paging_initialize_def pat_def b1_def by (auto simp: Let_def split: if_splits)
  have b': "ps_active (pb_system b')" "ps_pat_after (pb_system b') = pat" "pb_installed_device_windows b' = v"
    "ps_store (pb_system b') = st\<lparr>pe_hierarchy := (pe_hierarchy st)\<lparr>ph_live := True\<rparr>, pe_cr3 := of_nat (root_of st)\<rparr>"
    using i by (auto simp: install_hierarchy_def Let_def b1_def split: if_splits)
  obtain o' where v: "paging_device_windows_validate (Some ws) (Some []) = (PAGING_STATUS_OK, o')" "v = the o'"
    "\<exists>basic root ext cr4. decode_processor_support basic root ext cr4 pat0 = PAGING_STATUS_OK"
    using c by (auto simp: initialize_checks_def Let_def split: prod.splits if_splits)
  then have some: "paging_device_windows_validate (Some ws) (Some []) = (PAGING_STATUS_OK, Some v)"
    by (auto simp: paging_device_windows_validate_def Let_def split: if_splits)
  have "reject_kernel_device_overlap k v = PAGING_STATUS_OK"
    using c v(2) by (auto simp: initialize_checks_def Let_def split: prod.splits if_splits)
  then have "windows_fit k v" by (rule validated_windows_fit [OF some])
  moreover have "pat_ready pat"
    using v(3) decode_processor_support_OK by (auto simp: pat_def pat_ready_def pat_entry_replace)
  ultimately show thesis using ws(1) some h s2 b' by (intro that) simp_all
qed

section \<open>A refused start\<close>

lemma reset_state_keeps [simp]:
  "ps_store (pb_system (reset_state b)) = ps_store (pb_system b)" "\<not> ps_active (pb_system (reset_state b))"
  by (simp_all add: reset_state_def)

lemma paging_initialize_refused:
  assumes "paging_initialize k windows b = (status, b')" "status \<noteq> PAGING_STATUS_OK"
  shows "pe_cr3 (ps_store (pb_system b')) = pe_cr3 (ps_store (pb_system b)) \<and>
    ps_active (pb_system b') = ps_active (pb_system b)"
proof (cases "windows = None \<or> ps_active (pb_system b)")
  case True
  then have "b' = b" using assms(1) by (auto simp: paging_initialize_def split: option.splits)
  then show ?thesis by simp
next
  case False
  then obtain ws where ws: "windows = Some ws" "\<not> ps_active (pb_system b)" by auto
  show ?thesis
  proof (cases "initialize_checks k ws b")
    case (Inl e)
    then show ?thesis using assms(1) ws by (cases e) (auto simp: paging_initialize_def split: if_splits)
  next
    case (Inr vp)
    obtain v pat0 where vp: "vp = (v, pat0)" by fastforce
    define pat where "pat = pat_replace_entry pat0 PAT_WRITE_COMBINING_ENTRY PAT_TYPE_WRITE_COMBINING"
    obtain s1 c1 where e: "enable_processor_features (pb_cpu b) = (s1, c1)" by fastforce
    obtain s2 fine st where h: "build_hierarchy k (collect_kernel_sections k) v pat (pb_fine_region_count b) (ps_store (pb_system b)) = (s2, fine, st)"
      by (metis prod_cases3)
    note cr3 = build_hierarchy_cr3 [OF h]
    define b1 where "b1 = b\<lparr>pb_cpu := c1, pb_kernel_sections := collect_kernel_sections k, pb_fine_region_count := fine,
        pb_system := (pb_system b)\<lparr>ps_store := st\<rparr>\<rparr>"
    have b1: "ps_store (pb_system b1) = st" by (simp add: b1_def)
    have call: "(status, b') = (if s1 \<noteq> PAGING_STATUS_OK then (s1, reset_state (b\<lparr>pb_cpu := c1\<rparr>))
        else if s2 \<noteq> PAGING_STATUS_OK then (s2, reset_state b1) else install_hierarchy k v pat0 pat b1)"
      using assms(1) ws Inr vp e h unfolding paging_initialize_def pat_def b1_def
      by (cases "s1 = PAGING_STATUS_OK"; cases "s2 = PAGING_STATUS_OK") (simp_all add: Let_def)
    show ?thesis
      using call ws(2) cr3 b1 assms(2)
      by (auto simp: install_hierarchy_def Let_def split: if_splits)
  qed
qed

section \<open>When paging starts\<close>

text \<open>A processor with the features the kernel needs, whose registers keep what is written to them.\<close>

definition processor_ready :: "cpu \<Rightarrow> bool" where
  "processor_ready c \<longleftrightarrow> \<not> cpu_interrupts_enabled c \<and>
     decode_processor_support (cpu_cpuid_edx c CPUID_BASIC_FEATURES) (cpu_cpuid_eax c CPUID_EXTENDED_ROOT)
       (cpu_cpuid_edx c CPUID_EXTENDED_FEATURES) (cpu_cr4 c) (cpu_msr c IA32_PAT_MSR) = PAGING_STATUS_OK \<and>
     cpu_stored_msr c = (\<lambda>index value. value) \<and> cpu_stored_cr0 c = (\<lambda>value. value)"

text \<open>No section of the image is empty, and it lies below the limit and clear of the windows.\<close>

definition image_ready :: "kernel_symbols \<Rightarrow> paging_device_windows \<Rightarrow> bool" where
  "image_ready k windows \<longleftrightarrow> sym_text_start k < sym_text_end k \<and> sym_rodata_start k < sym_rodata_end k \<and>
     sym_data_start k < sym_kernel_end k \<and> sym_kernel_end k \<le> PAGING_KERNEL_IMAGE_LIMIT \<and>
     list_all (\<lambda>w. sym_kernel_end k \<le> dw_physical_base w \<or> dw_physical_base w + dw_length w \<le> sym_kernel_start k) windows"

text \<open>The root and at most three tables for each of the 2048 regions are 6145 frames.\<close>

definition boot_ready :: "kernel_symbols \<Rightarrow> paging_device_windows \<Rightarrow> paging_boot \<Rightarrow> bool" where
  "boot_ready k windows b \<longleftrightarrow> \<not> ps_active (pb_system b) \<and>
     fst (paging_device_windows_validate (Some windows) (Some [])) = PAGING_STATUS_OK \<and> image_ready k windows \<and>
     processor_ready (pb_cpu b) \<and> 6145 \<le> free_frames (ps_store (pb_system b)) \<and> \<not> failure_armed (ps_store (pb_system b))"

lemma ready_checks:
  assumes "linked_image k" "boot_ready k ws b"
  obtains v where "paging_device_windows_validate (Some ws) (Some []) = (PAGING_STATUS_OK, Some v)" "windows_fit k v"
    "initialize_checks k ws b = Inr (v, cpu_msr (pb_cpu b) IA32_PAT_MSR)"
proof -
  let ?c = "pb_cpu b"
  have R: "fst (paging_device_windows_validate (Some ws) (Some [])) = PAGING_STATUS_OK" "image_ready k ws" "processor_ready ?c"
    using assms(2) by (simp_all add: boot_ready_def)
  obtain v where v: "paging_device_windows_validate (Some ws) (Some []) = (PAGING_STATUS_OK, Some v)"
    using R(1) by (auto simp: paging_device_windows_validate_def Let_def split: if_splits)
  note V = device_windows_validate_OK [OF v]
  have "set v = set ws" by (simp add: V(1) sort_windows_eq)
  then have overlap: "reject_kernel_device_overlap k v = PAGING_STATUS_OK"
    using V(3) R(2) by (auto simp: reject_kernel_device_overlap_def list_ex_iff list_all_iff image_ready_def window_end_eq)
  have "4096 dvd sym_kernel_start k" "4096 dvd sym_kernel_end k" using assms(1) by (simp_all add: linked_image_def)
  then have layout: "validate_kernel_layout (sym_kernel_start k) (sym_kernel_end k) = PAGING_STATUS_OK"
    using R(2) assms(1) unfolding validate_kernel_layout_def aligned_iff by (simp add: image_ready_def linked_image_def)
  have d: "decode_processor_support (cpu_cpuid_edx ?c CPUID_BASIC_FEATURES) (cpu_cpuid_eax ?c CPUID_EXTENDED_ROOT)
       (cpu_cpuid_edx ?c CPUID_EXTENDED_FEATURES) (cpu_cr4 ?c) (cpu_msr ?c IA32_PAT_MSR) = PAGING_STATUS_OK"
    "\<not> cpu_interrupts_enabled ?c"
    using R(3) by (simp_all add: processor_ready_def)
  then have "CPUID_EXTENDED_FEATURES \<le> unat (cpu_cpuid_eax ?c CPUID_EXTENDED_ROOT)"
    "cpu_cpuid_edx ?c CPUID_BASIC_FEATURES AND CPUID_PAT \<noteq> 0"
    by (auto simp: decode_processor_support_def split: if_splits)
  then have "initialize_checks k ws b = Inr (v, cpu_msr ?c IA32_PAT_MSR)"
    using v layout overlap d by (simp add: initialize_checks_def)
  then show thesis using v validated_windows_fit [OF v overlap] by (intro that) 
qed

lemma ready_features:
  assumes "processor_ready c"
  obtains c1 where "enable_processor_features c = (PAGING_STATUS_OK, c1)" "cpu_msr c1 IA32_EFER_MSR AND EFER_NO_EXECUTE_ENABLE \<noteq> 0"
    "cpu_cr0 c1 AND CR0_WRITE_PROTECT \<noteq> 0" "cpu_stored_msr c1 = (\<lambda>index value. value)"
proof -
  have set: "(x OR push_bit n 1) AND push_bit n 1 \<noteq> 0" if "n < 64" for x :: u64 and n
    using that unfolding and_push_bit_1 by (simp add: bit_simps)
  have "cpu_stored_msr c = (\<lambda>index value. value)" "cpu_stored_cr0 c = (\<lambda>value. value)"
    using assms by (simp_all add: processor_ready_def)
  then show thesis
    using set [of 11 "cpu_msr c IA32_EFER_MSR"] set [of 16 "cpu_cr0 c"]
    by (intro that [of "cpu_write_cr0 (cpu_cr0 c OR CR0_WRITE_PROTECT)
        (cpu_write_msr IA32_EFER_MSR (cpu_msr c IA32_EFER_MSR OR EFER_NO_EXECUTE_ENABLE) c)"])
      (simp_all add: enable_processor_features_def cpu_write_msr_def cpu_write_cr0_def EFER_NO_EXECUTE_ENABLE_def CR0_WRITE_PROTECT_def)
qed

lemma null_region:
  assumes "paging_device_windows_validate (Some ws) (Some []) = (PAGING_STATUS_OK, Some v)"
  shows "region_needs_page_table v 0 (sym_kernel_start k) (sym_kernel_end k)"
proof -
  note V = device_windows_validate_OK [OF assms]
  obtain w where w: "w \<in> set v" "dw_kind w = 0" "validate_device_window_entry w = PAGING_STATUS_OK"
    using V(1,3,6) by (auto simp: list_ex_iff sort_windows_eq)
  note E = window_entry_OK [OF w(3)]
  show ?thesis using w E(1,7) window_end_eq [OF w(3)]
    by (auto simp: region_needs_page_table_def list_ex_iff Let_def add64_def intro!: bexI [of _ w])
qed

lemma root_address:
  assumes "hierarchy_ok st"
  shows "unat (of_nat (root_of st) AND PAGE_FRAME_MASK :: u64) = root_of st"
proof -
  have "node (pe_tables st) (root_of st) [] = Some (root_of st)" "index_path []" by (simp_all add: index_path_def)
  then have "4096 dvd root_of st" "root_of st div 4096 < FRAME_COUNT"
    using assms unfolding hierarchy_ok_def tables_owned_def owned_single_def by blast+
  then have r: "4096 dvd root_of st" "root_of st < 2 ^ 52" by (simp_all add: FRAME_COUNT_eq div_less_iff_less_mult)
  have "of_nat (root_of st) AND PAGE_FRAME_MASK = (of_nat (root_of st) :: u64)"
    by (rule bit_word_eqI) (auto simp: bit_and_iff bit_frame_mask bit_address [OF r])
  moreover have "root_of st < 2 ^ LENGTH(64)" using r(2) by (rule less_trans) simp
  ultimately show ?thesis by (simp add: unsigned_of_nat take_bit_nat_eq_self)
qed

lemma sections_verified:
  assumes "validate_identity_map k (collect_kernel_sections k) v pat st = PAGING_STATUS_OK" "linked_image k" "windows_fit k v" "image_ready k v"
  shows "list_all (section_verified pat st)
    [(sym_text_start k, PAGING_EXECUTE), (sym_rodata_start k, PAGING_READ), (sym_data_start k, PAGING_WRITE)]"
proof -
  have "section_verified pat st (a, image_rights k a)" if a: "sym_kernel_start k \<le> a" "a < sym_kernel_end k" for a
  proof -
    have out: "list_all (\<lambda>w. \<not> in_window w a) v"
      using assms(4) a by (auto simp: image_ready_def list_all_iff in_window_def)
    have b: "a < 2 ^ 32" "\<not> a < 4096" using a assms(2,4) by (auto simp: linked_image_def image_ready_def)
    from validated_translation [OF assms(1) b(1) _ assms(2,3)] b(2) out show ?thesis
      by (auto simp: section_verified_def boot_policy_def)
  qed
  from this [of "sym_text_start k"] this [of "sym_rodata_start k"] this [of "sym_data_start k"] show ?thesis
    using assms(2,4) by (auto simp: linked_image_def image_ready_def image_rights_def)
qed

lemma paging_starts:
  assumes "frames_ok (pe_frames (ps_store (pb_system b)))" "fa_initialized (pe_frames (ps_store (pb_system b)))"
    and image: "linked_image k" and ready: "boot_ready k ws b"
  shows "fst (paging_initialize k (Some ws) b) = PAGING_STATUS_OK"
proof -
  let ?st = "ps_store (pb_system b)" and ?pat0 = "cpu_msr (pb_cpu b) IA32_PAT_MSR"
  define pat where "pat = pat_replace_entry ?pat0 PAT_WRITE_COMBINING_ENTRY PAT_TYPE_WRITE_COMBINING"
  have R: "\<not> ps_active (pb_system b)" "image_ready k ws" "processor_ready (pb_cpu b)" "6145 \<le> free_frames ?st" "\<not> failure_armed ?st"
    using ready by (simp_all add: boot_ready_def)
  obtain v where v: "paging_device_windows_validate (Some ws) (Some []) = (PAGING_STATUS_OK, Some v)" "windows_fit k v"
    "initialize_checks k ws b = Inr (v, ?pat0)"
    using image ready by (rule ready_checks)
  have valid: "list_all (\<lambda>w. validate_device_window_entry w = PAGING_STATUS_OK) v" using v(2) by (simp add: windows_fit_def)
  have fit: "image_ready k v"
    using R(2) device_windows_validate_OK(1) [OF v(1)] by (simp add: image_ready_def list_all_iff sort_windows_eq)
  obtain c1 where c1: "enable_processor_features (pb_cpu b) = (PAGING_STATUS_OK, c1)" "cpu_msr c1 IA32_EFER_MSR AND EFER_NO_EXECUTE_ENABLE \<noteq> 0"
    "cpu_cr0 c1 AND CR0_WRITE_PROTECT \<noteq> 0" "cpu_stored_msr c1 = (\<lambda>index value. value)"
    using R(3) by (rule ready_features)
  have pat: "pat_ready pat" "pat_entry pat 1 = PAT_TYPE_WRITE_COMBINING"
    using R(3) decode_processor_support_OK by (auto simp: processor_ready_def pat_def pat_ready_def pat_entry_replace)
  obtain fine st where h: "build_hierarchy k (collect_kernel_sections k) v pat (pb_fine_region_count b) ?st = (PAGING_STATUS_OK, fine, st)"
    "built_below k v 2048 st"
    using build_hierarchy_progress [OF valid pat(1) assms(1,2) R(4,5)] by blast
  note checked = built_validates [OF valid h(2) pat(1)]
  have st: "hierarchy_ok st" "0 < ph_table_frames (pe_hierarchy st)" using h(2) by (simp_all add: built_below_def counted_def)
  define b1 where "b1 = b\<lparr>pb_cpu := c1, pb_kernel_sections := collect_kernel_sections k, pb_fine_region_count := fine,
      pb_system := (pb_system b)\<lparr>ps_store := st\<rparr>\<rparr>"
  define c2 where "c2 = cpu_write_msr IA32_PAT_MSR pat c1"
  have c2: "cpu_msr c2 IA32_PAT_MSR = pat" "cpu_msr c2 IA32_EFER_MSR = cpu_msr c1 IA32_EFER_MSR" "cpu_cr0 c2 = cpu_cr0 c1"
    using c1(4) by (simp_all add: c2_def cpu_write_msr_def IA32_PAT_MSR_def IA32_EFER_MSR_def)
  define st1 where "st1 = st\<lparr>pe_hierarchy := (pe_hierarchy st)\<lparr>ph_live := True\<rparr>, pe_cr3 := of_nat (root_of st)\<rparr>"
  have same: "translate_address va pat st1 = translate_address va pat st" "audit_hierarchy st1 = audit_hierarchy st" for va
    by (simp_all add: st1_def translate_address_def audit_hierarchy_def)
  have "fst (translate_address 0 pat st) = PAGING_STATUS_NOT_MAPPED"
    using validated_translation [OF checked, of 0] null_region [OF v(1), of k] image v(2) by simp
  moreover have "list_all (section_verified pat st1)
      [(sym_text_start k, PAGING_EXECUTE), (sym_rodata_start k, PAGING_READ), (sym_data_start k, PAGING_WRITE)]"
    using sections_verified [OF checked image v(2) fit] by (simp add: section_verified_def same)
  ultimately have "fst (install_hierarchy k v ?pat0 pat b1) = PAGING_STATUS_OK"
    using c2 c1(2,3) pat(2) st root_address [OF st(1)] built_audit [OF valid h(2)]
    by (simp add: install_hierarchy_def paging_verify_def Let_def b1_def c2_def [symmetric] st1_def [symmetric] same)
  then show ?thesis
    using R(1) v(3) c1(1) h(1) unfolding pat_def b1_def by (simp add: paging_initialize_def Let_def)
qed

text \<open>C35. Paging that comes up is safe and as intended: the hierarchy is well formed and the one the
  processor uses, no address is both writable and executable, page zero does not translate, the windows
  installed are those of the caller, and every other address below 4 GiB translates to itself. It has the
  memory type and write permission of its device window when it lies in one; elsewhere it is write-back
  memory, executable and read-only in the text, read-only in the rest of the image below the data, and
  writable but not executable in the data and outside the image. A machine that is ready comes up. When
  paging does not come up it is as inactive as before and the processor is on the hierarchy it was using.\<close>

theorem paging_initialize_safe:
  assumes "frames_ok (pe_frames (ps_store (pb_system b)))" "fa_initialized (pe_frames (ps_store (pb_system b)))"
    and "linked_image k" "paging_initialize k (Some windows) b = (status, b')" "s = pb_system b'"
  shows "(boot_ready k windows b \<longrightarrow> status = PAGING_STATUS_OK) \<and>
    (if status = PAGING_STATUS_OK then paging_ok s \<and> ph_live (pe_hierarchy (ps_store s)) \<and>
       pe_cr3 (ps_store s) = of_nat (root_of (ps_store s)) \<and> mset (pb_installed_device_windows b') = mset windows \<and>
       (\<forall>va. address_is_canonical va \<longrightarrow> \<not> writable_executable (translate_address va (ps_pat_after s) (ps_store s))) \<and>
       (\<forall>a < 4096. paging_translate a (Some d) s = (PAGING_STATUS_NOT_MAPPED, Some empty_translation)) \<and>
       (\<forall>a. 4096 \<le> a \<and> a < 2 ^ 32 \<longrightarrow> (\<exists>t. paging_translate a (Some d) s = (PAGING_STATUS_OK, Some t) \<and>
          tr_physical_address t = a \<and> boot_policy k windows a t))
     else pe_cr3 (ps_store s) = pe_cr3 (ps_store (pb_system b)) \<and> ps_active s = ps_active (pb_system b))"
proof (cases "status = PAGING_STATUS_OK")
  case True
  obtain ws v pat fine st where I: "windows = ws"
    "paging_device_windows_validate (Some ws) (Some []) = (PAGING_STATUS_OK, Some v)" "windows_fit k v" "pat_ready pat"
    "build_hierarchy k (collect_kernel_sections k) v pat (pb_fine_region_count b) (ps_store (pb_system b)) = (PAGING_STATUS_OK, fine, st)"
    "ps_active s" "ps_pat_after s = pat" "pb_installed_device_windows b' = v"
    and store: "ps_store s = st\<lparr>pe_hierarchy := (pe_hierarchy st)\<lparr>ph_live := True\<rparr>, pe_cr3 := of_nat (root_of st)\<rparr>"
    using assms(4) unfolding assms(5) True by (rule paging_initialize_OK) blast
  note H = build_hierarchy_ok [OF assms(1,2) I(5)]
  have same: "translate_address va pat (ps_store s) = translate_address va pat st" for va
    by (simp add: store translate_address_def)
  have ok: "paging_ok s" using H(1) I(4,6,7) by (simp add: paging_ok_def store hierarchy_ok_def)
  have mset: "mset v = mset windows" "set v = set windows"
    using device_windows_validate_OK(1) [OF I(2)] I(1) by (simp_all add: sort_windows_eq)
  have view: "paging_translate a (Some d) s = map_prod id Some (translate_address a pat st)" for a
    using I(6,7) same by (simp add: paging_translate_view)
  have policy: "boot_policy k v = boot_policy k windows" using mset(2) by (simp add: boot_policy_def fun_eq_iff list_all_iff)
  have null: "region_needs_page_table v 0 (sym_kernel_start k) (sym_kernel_end k)" by (rule null_region [OF I(2)])
  have map: "if a < 4096 then paging_translate a (Some d) s = (PAGING_STATUS_NOT_MAPPED, Some empty_translation)
    else \<exists>t. paging_translate a (Some d) s = (PAGING_STATUS_OK, Some t) \<and> tr_physical_address t = a \<and> boot_policy k windows a t"
    if "a < 2 ^ 32" for a
    using validated_translation [OF H(2) that _ assms(3) I(3)] null unfolding view policy
    by (cases "a < 4096") (simp, clarsimp)
  have "paging_translate a (Some d) s = (PAGING_STATUS_NOT_MAPPED, Some empty_translation)" if "a < 4096" for a
    using map [of a] that by simp
  moreover have "\<exists>t. paging_translate a (Some d) s = (PAGING_STATUS_OK, Some t) \<and> tr_physical_address t = a \<and> boot_policy k windows a t"
    if "4096 \<le> a \<and> a < 2 ^ 32" for a
    using map [of a] that by simp
  moreover have "\<forall>va. address_is_canonical va \<longrightarrow> \<not> writable_executable (translate_address va (ps_pat_after s) (ps_store s))"
    using H(3) unfolding audit_safe_iff I(7) same by (simp add: writable_executable_iff)
  moreover have "ph_live (pe_hierarchy (ps_store s))" "pe_cr3 (ps_store s) = of_nat (root_of (ps_store s))" by (simp_all add: store)
  ultimately show ?thesis unfolding True I(8) if_P [OF refl] using ok mset(1) by blast
next
  case False
  then show ?thesis
    using paging_initialize_refused [OF assms(4) False] paging_starts [OF assms(1-3), of windows] assms(4,5) by auto
qed

section \<open>Witness\<close>

text \<open>A machine that is ready: an image of 512 KiB at 1 MiB, the three windows every machine has and a
  free frame allocator.\<close>

definition demo_symbols :: kernel_symbols where
  "demo_symbols = \<lparr>sym_kernel_start = 0x100000, sym_kernel_end = 0x180000, sym_text_start = 0x101000,
     sym_text_end = 0x140000, sym_rodata_start = 0x140000, sym_rodata_end = 0x160000, sym_data_start = 0x160000\<rparr>"

definition demo_boot :: paging_boot where
  "demo_boot =
     \<lparr>pb_system = demo_paging\<lparr>ps_active := False\<rparr>, pb_root_physical_address = 0, pb_fine_regions = 0,
      pb_pat_before = 0, pb_write_combining_pat_entry = 0, pb_no_execute_active = False,
      pb_write_protect_active = False, pb_kernel_sections = [], pb_fine_region_count = 0,
      pb_installed_device_windows = [],
      pb_cpu = \<lparr>cpu_cpuid_eax = (\<lambda>_. 0x80000008),
        cpu_cpuid_edx = (\<lambda>leaf. if leaf = CPUID_BASIC_FEATURES then CPUID_PAT else CPUID_NO_EXECUTE),
        cpu_stored_msr = (\<lambda>_ v. v), cpu_stored_cr0 = (\<lambda>v. v), cpu_msr = (\<lambda>_. 0x0007040600070406),
        cpu_cr0 = 0, cpu_cr4 = 0x20, cpu_interrupts_enabled = False\<rparr>\<rparr>"

definition demo_running :: paging_boot where
  "demo_running = snd (paging_initialize demo_symbols (Some demo_windows) demo_boot)"

lemma demo_linked: "linked_image demo_symbols"
  by (simp add: linked_image_def demo_symbols_def)

lemma demo_ready: "boot_ready demo_symbols demo_windows demo_boot"
proof -
  have "processor_ready (pb_cpu demo_boot)"
    using demo_processor by (simp add: processor_ready_def demo_boot_def CPUID_BASIC_FEATURES_def CPUID_EXTENDED_FEATURES_def)
  moreover have "image_ready demo_symbols demo_windows"
    by (simp add: image_ready_def demo_symbols_def demo_windows_def demo_window_def)
  ultimately show ?thesis
    by (simp add: boot_ready_def demo_windows_validate demo_boot_def demo_paging_def failure_armed_def demo_store_def
        take_frame_def demo_frames_def sub64_def FRAME_COUNT_eq)
qed

theorem paging_initialize_safe_witness:
  "fst (paging_initialize demo_symbols (Some demo_windows) demo_boot) = PAGING_STATUS_OK \<and>
   paging_translate 0 (Some empty_translation) (pb_system demo_running) = (PAGING_STATUS_NOT_MAPPED, Some empty_translation) \<and>
   tr_permissions (the (snd (paging_translate 0x123456 (Some empty_translation) (pb_system demo_running)))) = PAGING_EXECUTE \<and>
   tr_permissions (the (snd (paging_translate 0x145678 (Some empty_translation) (pb_system demo_running)))) = PAGING_READ \<and>
   tr_permissions (the (snd (paging_translate 0x80000000 (Some empty_translation) (pb_system demo_running)))) = PAGING_WRITE \<and>
   tr_memory_type (the (snd (paging_translate 0xFEE00010 (Some empty_translation) (pb_system demo_running)))) = PAGING_MEMORY_UNCACHEABLE"
proof -
  have frames: "frames_ok (pe_frames (ps_store (pb_system demo_boot)))" "fa_initialized (pe_frames (ps_store (pb_system demo_boot)))"
    using demo_paging_ok by (simp_all add: demo_boot_def paging_ok_def hierarchy_ok_def)
  have call: "paging_initialize demo_symbols (Some demo_windows) demo_boot =
      (fst (paging_initialize demo_symbols (Some demo_windows) demo_boot), demo_running)"
    by (simp add: demo_running_def)
  note safe = paging_initialize_safe [OF frames demo_linked call refl, of empty_translation]
  have ok: "fst (paging_initialize demo_symbols (Some demo_windows) demo_boot) = PAGING_STATUS_OK" using safe demo_ready by blast
  have at: "\<exists>t. paging_translate a (Some empty_translation) (pb_system demo_running) = (PAGING_STATUS_OK, Some t) \<and>
      boot_policy demo_symbols demo_windows a t" if "4096 \<le> a" "a < 2 ^ 32" for a
    using safe ok that by auto
  show ?thesis
    using ok safe at [of "0x123456"] at [of "0x145678"] at [of "0x80000000"] at [of "0xFEE00010"]
    by (auto simp: boot_policy_def image_rights_def in_window_def demo_symbols_def demo_windows_def demo_window_def)
qed

end
