(* ===== verification/Block_Tables.thy ===== *)
theory Block_Tables
  imports Prelude
begin

text \<open>
  Tables of blocks that tile a range, as \<open>src/kernel/heap.c\<close> and \<open>src/kernel/dma_arena.c\<close> keep them:
  a fixed array of spans and the number of its entries in use. The two loops that open and close a gap in the
  array are \<open>open_gap\<close> and \<open>close_gap\<close>; the table they describe is the prefix of the array, and the lemmas
  give the effect of every operation on that prefix as a list.

  \<open>tiling\<close> is the contract of the tables: the blocks follow each other from zero to the end of the range, none
  is empty, all sizes are multiples of the granularity, and no two free blocks are neighbours. The locale
  \<open>span_allocator\<close> says what an allocator over such a table promises its clients.
\<close>

section \<open>Arrays with a count\<close>

text \<open>\<open>for (position = index; position + 1 < count; ++position) table[position] = table[position + 1]\<close>.\<close>

definition close_gap :: "'a list \<Rightarrow> nat \<Rightarrow> nat \<Rightarrow> 'a list" where
  "close_gap table index count = fold (\<lambda>position t. t[position := t ! (position + 1)]) [index ..< count - 1] table"

text \<open>\<open>for (position = count; position > index; --position) table[position] = table[position - 1]\<close>.\<close>

definition open_gap :: "'a list \<Rightarrow> nat \<Rightarrow> nat \<Rightarrow> 'a list" where
  "open_gap table index count =
     fold (\<lambda>position t. t[position := t ! (position - 1)]) (rev [index + 1 ..< count + 1]) table"

lemma length_close_gap [simp]: "length (close_gap table index count) = length table"
proof -
  have "length (fold (\<lambda>position t. t[position := t ! (position + 1)]) ps table) = length table" for ps
    by (induction ps arbitrary: table) simp_all
  then show ?thesis by (simp add: close_gap_def)
qed

lemma length_open_gap [simp]: "length (open_gap table index count) = length table"
proof -
  have "length (fold (\<lambda>position t. t[position := t ! (position - 1)]) ps table) = length table" for ps
    by (induction ps arbitrary: table) simp_all
  then show ?thesis by (simp add: open_gap_def)
qed

lemma close_gap_nth:
  "count \<le> length table \<Longrightarrow> close_gap table index count ! j =
    (if index \<le> j \<and> j + 1 < count then table ! (j + 1) else table ! j)"
proof (induction count arbitrary: j)
  case (Suc k)
  show ?case
  proof (cases "index < k")
    case True
    then have "[index ..< Suc k - 1] = [index ..< k - 1] @ [k - 1]"
      using upt_Suc_append [of index "k - 1"] by simp
    then have "close_gap table index (Suc k) = (close_gap table index k)[k - 1 := close_gap table index k ! k]"
      using True by (simp add: close_gap_def)
    then show ?thesis using Suc True by (auto simp: nth_list_update)
  qed (use Suc in \<open>auto simp: close_gap_def\<close>)
qed (simp add: close_gap_def)

lemma open_gap_nth:
  "count < length table \<Longrightarrow> open_gap table index count ! j =
    (if index < j \<and> j \<le> count then table ! (j - 1) else table ! j)"
proof (induction "count - index" arbitrary: count table)
  case 0
  then show ?case by (auto simp: open_gap_def)
next
  case (Suc d)
  then obtain k where k: "count = Suc k" "index \<le> k" by (cases count) auto
  let ?t = "table[count := table ! k]"
  have "open_gap table index count = open_gap ?t index k"
    using k by (simp add: open_gap_def)
  moreover have "open_gap ?t index k ! j = (if index < j \<and> j \<le> k then ?t ! (j - 1) else ?t ! j)"
    using Suc k by (intro Suc.hyps(1)) auto
  ultimately show ?case using Suc.prems k by (auto simp: nth_list_update)
qed

lemma take_close_gap:
  assumes "take count table = us @ b # vs" "count \<le> length table"
  shows "take (count - 1) (close_gap table (length us) count) = us @ vs"
proof (rule nth_equalityI)
  have count: "count = length us + Suc (length vs)" using arg_cong [OF assms(1), of length] assms(2) by simp
  then show len: "length (take (count - 1) (close_gap table (length us) count)) = length (us @ vs)"
    using assms(2) by simp
  fix j assume "j < length (take (count - 1) (close_gap table (length us) count))"
  then have j: "j < length us + length vs" unfolding len by simp
  have at: "table ! i = (us @ b # vs) ! i" if "i < count" for i
    using arg_cong [OF assms(1), of "\<lambda>t. t ! i"] that by simp
  show "take (count - 1) (close_gap table (length us) count) ! j = (us @ vs) ! j"
    using j count assms(2) at [of j] at [of "Suc j"] by (simp add: close_gap_nth nth_append Suc_diff_le)
qed

lemma take_open_gap:
  assumes "take count table = us @ vs" "count < length table"
  shows "take (count + 1) ((open_gap table (length us) count)[length us := b]) = us @ b # vs"
proof (rule nth_equalityI)
  have count: "count = length us + length vs" using arg_cong [OF assms(1), of length] assms(2) by simp
  then show "length (take (count + 1) ((open_gap table (length us) count)[length us := b])) = length (us @ b # vs)"
    using assms(2) by simp
  fix j assume "j < length (take (count + 1) ((open_gap table (length us) count)[length us := b]))"
  then have j: "j \<le> count" using assms(2) by simp
  have at: "table ! i = (us @ vs) ! i" if "i < count" for i
    using arg_cong [OF assms(1), of "\<lambda>t. t ! i"] that by simp
  consider "j < length us" | "j = length us" | i where "j = Suc i" "length us \<le> i" by (metis Suc_leI less_Suc_eq_le linorder_neqE_nat old.nat.exhaust not_less0)
  then show "take (count + 1) ((open_gap table (length us) count)[length us := b]) ! j = (us @ b # vs) ! j"
  proof cases
    case 3
    then show ?thesis using j count assms(2) at [of i] by (simp add: open_gap_nth nth_append Suc_diff_le)
  qed (use j count assms(2) at [of j] in \<open>simp_all add: open_gap_nth nth_append\<close>)
qed

lemma take_update:
  "take count table = us @ b # vs \<Longrightarrow> take count (table[length us := c]) = us @ c # vs"
  by (simp add: take_update_swap)

lemma nth_prefix:
  assumes "take count table = us @ b # vs"
  shows "table ! length us = b" "length us < count" "length us < length table"
proof -
  have "length us + Suc (length vs) \<le> count" "length us + Suc (length vs) \<le> length table"
    using arg_cong [OF assms, of length] by (simp_all add: min_def split: if_splits)
  then show "length us < count" "length us < length table" by simp_all
  then show "table ! length us = b" using arg_cong [OF assms, of "\<lambda>t. t ! length us"] by simp
qed

section \<open>Blocks\<close>

record block =
  bk_offset :: nat
  bk_size :: nat
  bk_used :: bool

fun tiles :: "nat \<Rightarrow> block list \<Rightarrow> nat \<Rightarrow> bool" where
  "tiles a [] b \<longleftrightarrow> a = b"
| "tiles a (x # xs) b \<longleftrightarrow> bk_offset x = a \<and> 0 < bk_size x \<and> tiles (a + bk_size x) xs b"

fun coalesced :: "block list \<Rightarrow> bool" where
  "coalesced (x # y # xs) \<longleftrightarrow> (bk_used x \<or> bk_used y) \<and> coalesced (y # xs)"
| "coalesced _ \<longleftrightarrow> True"

definition tiling :: "nat \<Rightarrow> nat \<Rightarrow> block list \<Rightarrow> bool" where
  "tiling granularity limit xs \<longleftrightarrow>
     tiles 0 xs limit \<and> coalesced xs \<and> list_all (\<lambda>x. granularity dvd bk_size x) xs"

definition used_bytes :: "block list \<Rightarrow> nat" where
  "used_bytes xs = sum_list (map bk_size (filter bk_used xs))"

text \<open>The ranges in use.\<close>

definition live_spans :: "block list \<Rightarrow> (nat \<times> nat) set" where
  "live_spans xs = {(bk_offset x, bk_size x) | x. x \<in> set xs \<and> bk_used x}"

lemma used_bytes_simps [simp]:
  "used_bytes [] = 0" "used_bytes (x # xs) = (if bk_used x then bk_size x else 0) + used_bytes xs"
  "used_bytes (xs @ ys) = used_bytes xs + used_bytes ys"
  by (simp_all add: used_bytes_def)

lemma live_spans_simps [simp]:
  "live_spans [] = {}"
  "live_spans (x # xs) = (if bk_used x then {(bk_offset x, bk_size x)} else {}) \<union> live_spans xs"
  "live_spans (xs @ ys) = live_spans xs \<union> live_spans ys"
  by (auto simp: live_spans_def)

lemma tiles_append: "tiles a (xs @ ys) b \<longleftrightarrow> (\<exists>c. tiles a xs c \<and> tiles c ys b)"
  by (induction xs arbitrary: a) auto

lemma tiles_le: "tiles a xs b \<Longrightarrow> a \<le> b"
  by (induction xs arbitrary: a) force+

lemma tiles_unique: "tiles a xs b \<Longrightarrow> tiles a xs c \<Longrightarrow> b = c"
  by (induction xs arbitrary: a) auto

lemma tiles_member:
  "tiles a xs b \<Longrightarrow> x \<in> set xs \<Longrightarrow> a \<le> bk_offset x \<and> 0 < bk_size x \<and> bk_offset x + bk_size x \<le> b"
proof (induction xs arbitrary: a)
  case (Cons y xs)
  then show ?case using tiles_le [of "a + bk_size y" xs b] by fastforce
qed simp

lemma tiles_used_bytes: "tiles a xs b \<Longrightarrow> used_bytes xs \<le> b - a"
proof (induction xs arbitrary: a)
  case (Cons y xs)
  then show ?case using tiles_le [of "a + bk_size y" xs b] by fastforce
qed simp

lemma tiles_aligned:
  "tiles a xs b \<Longrightarrow> list_all (\<lambda>x. g dvd bk_size x) xs \<Longrightarrow> g dvd a \<Longrightarrow> x \<in> set xs \<Longrightarrow> g dvd bk_offset x"
  by (induction xs arbitrary: a) (auto simp: list_all_iff)

lemma tiles_disjoint:
  assumes "tiles a (us @ x # vs) b" "y \<in> set us \<union> set vs"
  shows "bk_offset y + bk_size y \<le> bk_offset x \<or> bk_offset x + bk_size x \<le> bk_offset y"
proof -
  obtain c where "tiles a us c" "bk_offset x = c" "tiles (c + bk_size x) vs b"
    using assms(1) by (auto simp: tiles_append)
  then show ?thesis using assms(2) tiles_member [of a us c y] tiles_member [of "c + bk_size x" vs b y] by auto
qed

lemma tiles_offset_less:
  "tiles a (us @ x # vs) b \<Longrightarrow> y \<in> set us \<Longrightarrow> bk_offset y < bk_offset x"
  "tiles a (us @ x # vs) b \<Longrightarrow> y \<in> set vs \<Longrightarrow> bk_offset x < bk_offset y"
proof -
  assume t: "tiles a (us @ x # vs) b"
  then obtain c where c: "tiles a us c" "bk_offset x = c" "0 < bk_size x" "tiles (c + bk_size x) vs b"
    by (auto simp: tiles_append)
  show "bk_offset y < bk_offset x" if "y \<in> set us" using tiles_member [OF c(1) that] c(2) by simp
  show "bk_offset x < bk_offset y" if "y \<in> set vs" using tiles_member [OF c(4) that] c(2,3) by simp
qed

text \<open>The offset of a block says where it is in the table.\<close>

lemma tiles_split_unique:
  assumes "tiles a (us @ x # vs) b" "us @ x # vs = us' @ y # vs'" "bk_offset x = bk_offset y"
  shows "us = us'" "x = y" "vs = vs'"
proof -
  have "us = us' \<and> x = y \<and> vs = vs'"
    using assms
  proof (induction us arbitrary: a us')
    case Nil
    then show ?case using tiles_offset_less(2) [of a "[]" x vs b y] by (cases us') auto
  next
    case (Cons u us)
    then show ?case using tiles_offset_less(2) [of a "[]" u "us @ x # vs" b x] by (cases us') auto
  qed
  then show "us = us'" "x = y" "vs = vs'" by simp_all
qed

lemma live_disjoint:
  assumes "tiles a xs b" "(p, n) \<in> live_spans xs" "(q, m) \<in> live_spans xs"
  shows "(p, n) = (q, m) \<or> p + n \<le> q \<or> q + m \<le> p"
proof -
  obtain x y where xy: "x \<in> set xs" "y \<in> set xs" "p = bk_offset x" "n = bk_size x" "q = bk_offset y" "m = bk_size y"
    using assms(2,3) by (auto simp: live_spans_def)
  obtain us vs where "xs = us @ x # vs" using xy(1) by (auto simp: in_set_conv_decomp)
  then show ?thesis using tiles_disjoint [of a us x vs b y] assms(1) xy by auto
qed

lemma live_bounds: "tiles a xs b \<Longrightarrow> (p, n) \<in> live_spans xs \<Longrightarrow> a \<le> p \<and> 0 < n \<and> p + n \<le> b"
  using tiles_member by (auto simp: live_spans_def)

subsection \<open>Neighbours\<close>

lemma coalesced_Cons: "coalesced (x # xs) \<longleftrightarrow> coalesced xs \<and> (xs = [] \<or> bk_used x \<or> bk_used (hd xs))"
  by (cases xs) auto

lemma coalesced_append:
  "coalesced (xs @ ys) \<longleftrightarrow> coalesced xs \<and> coalesced ys \<and>
    (xs = [] \<or> ys = [] \<or> bk_used (last xs) \<or> bk_used (hd ys))"
  by (induction xs) (auto simp: coalesced_Cons)

section \<open>Taking and giving back\<close>

text \<open>A free block of which \<open>len\<close> bytes after \<open>pad\<close> are taken; what is left over on either side stays free.\<close>

definition carve :: "nat \<Rightarrow> nat \<Rightarrow> block \<Rightarrow> block list" where
  "carve pad len b =
     (if pad \<noteq> 0 then [\<lparr>bk_offset = bk_offset b, bk_size = pad, bk_used = False\<rparr>] else []) @
     \<lparr>bk_offset = bk_offset b + pad, bk_size = len, bk_used = True\<rparr> #
     (if bk_size b - pad - len \<noteq> 0
      then [\<lparr>bk_offset = bk_offset b + pad + len, bk_size = bk_size b - pad - len, bk_used = False\<rparr>] else [])"

lemma tiling_carve:
  assumes "tiling g limit (us @ b # vs)" "\<not> bk_used b" "0 < len" "pad + len \<le> bk_size b" "g dvd pad" "g dvd len"
  shows "tiling g limit (us @ carve pad len b @ vs)"
    and "live_spans (us @ carve pad len b @ vs) = insert (bk_offset b + pad, len) (live_spans (us @ b # vs))"
    and "used_bytes (us @ carve pad len b @ vs) = len + used_bytes (us @ b # vs)"
    and "count_if bk_used (us @ carve pad len b @ vs) = Suc (count_if bk_used (us @ b # vs))"
    and "(bk_offset b + pad, n) \<notin> live_spans (us @ b # vs)"
proof -
  obtain c where c: "tiles 0 us c" "bk_offset b = c" "tiles (c + bk_size b) vs limit"
    using assms(1) by (auto simp: tiling_def tiles_append)
  have "tiles c (carve pad len b @ vs) limit"
    using c(2,3) assms(3,4) by (auto simp: carve_def add.assoc)
  moreover have "coalesced (us @ carve pad len b @ vs)"
    using assms(1,2) by (auto simp: tiling_def coalesced_append coalesced_Cons carve_def)
  moreover have "g dvd bk_size b - pad - len" using assms(1,5,6) by (simp add: tiling_def dvd_diff_nat)
  ultimately show "tiling g limit (us @ carve pad len b @ vs)"
    using assms(1,5,6) c(1) by (auto simp: tiling_def tiles_append carve_def)
  show "live_spans (us @ carve pad len b @ vs) = insert (bk_offset b + pad, len) (live_spans (us @ b # vs))"
    "used_bytes (us @ carve pad len b @ vs) = len + used_bytes (us @ b # vs)"
    "count_if bk_used (us @ carve pad len b @ vs) = Suc (count_if bk_used (us @ b # vs))"
    using assms(2) by (auto simp: carve_def)
  show "(bk_offset b + pad, n) \<notin> live_spans (us @ b # vs)"
  proof
    assume "(bk_offset b + pad, n) \<in> live_spans (us @ b # vs)"
    then obtain x where x: "x \<in> set us \<union> set vs" "bk_offset x = bk_offset b + pad"
      using assms(2) by (fastforce simp: live_spans_def)
    then show False
      using tiles_disjoint [of 0 us b vs limit x] tiles_offset_less [of 0 us b vs limit x] assms(1,3,4)
      by (auto simp: tiling_def)
  qed
qed

definition absorb_right :: "block \<Rightarrow> block list \<Rightarrow> block list" where
  "absorb_right b vs =
     (case vs of
        v # rest \<Rightarrow> if \<not> bk_used v then b\<lparr>bk_size := bk_size b + bk_size v\<rparr> # rest else b # vs
      | [] \<Rightarrow> [b])"

definition absorb_left :: "block list \<Rightarrow> block list \<Rightarrow> block list" where
  "absorb_left us bs =
     (if us \<noteq> [] \<and> \<not> bk_used (last us)
      then butlast us @ (last us)\<lparr>bk_size := bk_size (last us) + bk_size (hd bs)\<rparr> # tl bs else us @ bs)"

text \<open>A used block is freed and joined with the free blocks on either side.\<close>

definition give_back :: "block list \<Rightarrow> block \<Rightarrow> block list \<Rightarrow> block list" where
  "give_back us b vs = absorb_left us (absorb_right (b\<lparr>bk_used := False\<rparr>) vs)"

lemma give_back_cases:
  obtains (left) us' u bs where "us = us' @ [u]" "\<not> bk_used u" "absorb_right (b\<lparr>bk_used := False\<rparr>) vs = hd bs # tl bs"
      "give_back us b vs = us' @ u\<lparr>bk_size := bk_size u + bk_size (hd bs)\<rparr> # tl bs"
    | (none) "us = [] \<or> bk_used (last us)" "give_back us b vs = us @ absorb_right (b\<lparr>bk_used := False\<rparr>) vs"
proof (cases "us \<noteq> [] \<and> \<not> bk_used (last us)")
  case True
  have "absorb_right (b\<lparr>bk_used := False\<rparr>) vs \<noteq> []" by (auto simp: absorb_right_def split: list.split)
  then show thesis
    using True by (intro left [of "butlast us" "last us" "absorb_right (b\<lparr>bk_used := False\<rparr>) vs"])
      (simp_all add: give_back_def absorb_left_def)
qed (auto intro!: none simp: give_back_def absorb_left_def)

lemma tiling_absorb_right:
  assumes "tiles a (b # vs) limit" "coalesced vs" "list_all (\<lambda>x. g dvd bk_size x) (b # vs)"
    and "bs = absorb_right (b\<lparr>bk_used := False\<rparr>) vs"
  shows "tiles a bs limit" "coalesced bs" "list_all (\<lambda>x. g dvd bk_size x) bs" "bk_offset (hd bs) = a" "\<not> bk_used (hd bs)" "bs \<noteq> []"
    "live_spans bs = live_spans vs" "used_bytes bs = used_bytes vs" "count_if bk_used bs = count_if bk_used vs"
  using assms by (auto simp: absorb_right_def coalesced_Cons add.assoc split: list.splits)

lemma tiling_give_back:
  assumes "tiling g limit (us @ b # vs)" "bk_used b"
  shows "tiling g limit (give_back us b vs)"
    and "live_spans (give_back us b vs) = live_spans (us @ b # vs) - {(bk_offset b, bk_size b)}"
    and "used_bytes (give_back us b vs) + bk_size b = used_bytes (us @ b # vs)"
    and "Suc (count_if bk_used (give_back us b vs)) = count_if bk_used (us @ b # vs)"
proof -
  let ?bs = "absorb_right (b\<lparr>bk_used := False\<rparr>) vs"
  obtain c where c: "tiles 0 us c" "tiles c (b # vs) limit" using assms(1) by (auto simp: tiling_def tiles_append)
  have vs: "coalesced vs" "list_all (\<lambda>x. g dvd bk_size x) (b # vs)"
    using assms(1) by (auto simp: tiling_def coalesced_append coalesced_Cons)
  note R = tiling_absorb_right [OF c(2) vs refl]
  have us: "coalesced us" "list_all (\<lambda>x. g dvd bk_size x) us" using assms(1) by (auto simp: tiling_def coalesced_append)
  have "(bk_offset b, n) \<notin> live_spans us \<union> live_spans vs" for n
    using tiles_offset_less [of 0 us b vs limit] assms(1) by (fastforce simp: live_spans_def tiling_def)
  then have live: "live_spans (us @ b # vs) - {(bk_offset b, bk_size b)} = live_spans us \<union> live_spans vs"
    using assms(2) by auto
  have "tiling g limit (give_back us b vs) \<and> live_spans (give_back us b vs) = live_spans us \<union> live_spans vs \<and>
    used_bytes (give_back us b vs) = used_bytes us + used_bytes vs \<and>
    count_if bk_used (give_back us b vs) = count_if bk_used us + count_if bk_used vs"
  proof (cases rule: give_back_cases [of us b vs])
    case (left us' u bs)
    note R' = R [unfolded left(3)]
    show ?thesis
      using R' us c(1) left(1,2) unfolding left(4)
      by (auto simp: tiling_def tiles_append coalesced_append coalesced_Cons add.assoc [symmetric])
  next
    case none
    show ?thesis
      unfolding none(2) using R us c(1) none(1) by (auto simp: tiling_def tiles_append coalesced_append)
  qed
  then show "tiling g limit (give_back us b vs)"
    "live_spans (give_back us b vs) = live_spans (us @ b # vs) - {(bk_offset b, bk_size b)}"
    "used_bytes (give_back us b vs) + bk_size b = used_bytes (us @ b # vs)"
    "Suc (count_if bk_used (give_back us b vs)) = count_if bk_used (us @ b # vs)"
    using assms(2) unfolding live by simp_all
qed

text \<open>Giving back what was just carved restores the table.\<close>

lemma carve_give_back:
  assumes "coalesced (us @ b # vs)" "\<not> bk_used b" "pad + len \<le> bk_size b"
    and "us @ carve pad len b @ vs = us' @ c # vs'" "bk_offset c = bk_offset b + pad" "bk_used c"
    and "tiles 0 (us @ carve pad len b @ vs) limit" "0 < len"
  shows "give_back us' c vs' = us @ b # vs"
proof -
  let ?u = "\<lparr>bk_offset = bk_offset b + pad, bk_size = len, bk_used = True\<rparr>"
  let ?pre = "us @ (if pad \<noteq> 0 then [\<lparr>bk_offset = bk_offset b, bk_size = pad, bk_used = False\<rparr>] else [])"
  let ?post = "(if bk_size b - pad - len \<noteq> 0
      then [\<lparr>bk_offset = bk_offset b + pad + len, bk_size = bk_size b - pad - len, bk_used = False\<rparr>] else []) @ vs"
  have eq: "us @ carve pad len b @ vs = ?pre @ ?u # ?post" by (simp add: carve_def)
  have parts: "?pre = us'" "?u = c" "?post = vs'"
    using tiles_split_unique [OF assms(7) [unfolded eq] assms(4) [unfolded eq]] assms(5) by simp_all
  show ?thesis
    unfolding parts [symmetric] using assms(1-3)
    by (cases vs) (auto simp: give_back_def absorb_left_def absorb_right_def coalesced_append coalesced_Cons butlast_append)
qed

section \<open>Merging in the array\<close>

text \<open>Block \<open>index\<close> takes over the block after it.\<close>

definition absorb_next :: "block list \<Rightarrow> nat \<Rightarrow> nat \<Rightarrow> block list \<times> nat" where
  "absorb_next table count index =
     (close_gap
        (table[index := (table ! index)\<lparr>bk_size := add64 (bk_size (table ! index)) (bk_size (table ! (index + 1)))\<rparr>])
        (index + 1) count,
      sub64 count 1)"

definition merge_free_neighbours :: "block list \<Rightarrow> nat \<Rightarrow> nat \<Rightarrow> block list \<times> nat" where
  "merge_free_neighbours table count index =
     (let (table, count) =
            (if index + 1 < count \<and> \<not> bk_used (table ! (index + 1)) then absorb_next table count index else (table, count)) in
      if index > 0 \<and> \<not> bk_used (table ! (index - 1)) then absorb_next table count (index - 1) else (table, count))"

lemma absorb_next_prefix:
  assumes "take n t = us @ x # y # vs" "n \<le> length t" "n < 2 ^ 64" "bk_size x + bk_size y < 2 ^ 64"
    and "absorb_next t n (length us) = (t', n')"
  shows "take n' t' = us @ x\<lparr>bk_size := bk_size x + bk_size y\<rparr> # vs" "n' = n - 1" "length t' = length t"
proof -
  note x = nth_prefix [OF assms(1)]
  have y: "t ! Suc (length us) = y" "Suc (length us) < n"
    using nth_prefix [of n t "us @ [x]" y vs] assms(1) by simp_all
  let ?t = "t[length us := x\<lparr>bk_size := bk_size x + bk_size y\<rparr>]"
  have "take n ?t = (us @ [x\<lparr>bk_size := bk_size x + bk_size y\<rparr>]) @ y # vs" using take_update [OF assms(1)] by simp
  from take_close_gap [OF this] have "take (n - 1) (close_gap ?t (Suc (length us)) n) = us @ x\<lparr>bk_size := bk_size x + bk_size y\<rparr> # vs"
    using assms(2) by simp
  moreover show n': "n' = n - 1" using assms(3,5) y(2) by (auto simp: absorb_next_def no_wrap)
  moreover have t': "t' = close_gap ?t (Suc (length us)) n"
    using assms(4,5) x(1) y(1) by (auto simp: absorb_next_def no_wrap)
  ultimately show "take n' t' = us @ x\<lparr>bk_size := bk_size x + bk_size y\<rparr> # vs" "length t' = length t"
    using assms(5) y by auto
qed


lemma merge_right_prefix:
  assumes "tiles c (b # vs) limit" "limit < 2 ^ 64" "take n t = us @ b # vs" "n \<le> length t" "length t < 2 ^ 64"
    and "(if length us + 1 < n \<and> \<not> bk_used (t ! (length us + 1)) then absorb_next t n (length us) else (t, n)) = (t', n')"
  shows "take n' t' = us @ absorb_right b vs \<and> n' \<le> n \<and> length t' = length t"
proof (cases vs)
  case Nil
  then have "n = length us + 1" using arg_cong [OF assms(3), of length] assms(4) by simp
  then show ?thesis using assms(3,6) Nil by (auto simp: absorb_right_def)
next
  case (Cons v rest)
  have v: "t ! (length us + 1) = v" "length us + 1 < n"
    using nth_prefix [of n t "us @ [b]" v rest] assms(3) Cons by simp_all
  show ?thesis
  proof (cases "bk_used v")
    case True
    then show ?thesis using assms(3,6) v Cons by (auto simp: absorb_right_def)
  next
    case False
    have "bk_size b + bk_size v < 2 ^ 64"
      using assms(1,2) Cons tiles_le [of "c + bk_size b + bk_size v" rest limit] by simp
    moreover have "absorb_next t n (length us) = (t', n')" using assms(6) False v by simp
    ultimately show ?thesis
      using absorb_next_prefix [of n t us b v rest t' n'] assms(3-5) Cons False by (simp add: absorb_right_def)
  qed
qed

lemma merge_left_prefix:
  assumes "tiles a (us @ h # rest) limit" "limit < 2 ^ 64" "take n t = us @ h # rest" "n \<le> length t" "length t < 2 ^ 64"
    and "(if 0 < length us \<and> \<not> bk_used (t ! (length us - 1)) then absorb_next t n (length us - 1) else (t, n)) = (t', n')"
  shows "take n' t' = absorb_left us (h # rest) \<and> n' \<le> n \<and> length t' = length t"
proof (cases us rule: rev_cases)
  case Nil
  then show ?thesis using assms(3,6) by (auto simp: absorb_left_def)
next
  case (snoc us' u)
  then have u: "take n t = us' @ u # h # rest" using assms(3) by simp
  show ?thesis
  proof (cases "bk_used u")
    case True
    then show ?thesis using assms(3,6) nth_prefix(1) [OF u] snoc by (auto simp: absorb_left_def)
  next
    case False
    have call: "absorb_next t n (length us') = (t', n')" using assms(6) False nth_prefix(1) [OF u] snoc by simp
    obtain c where "tiles (c + bk_size u) (h # rest) limit" using assms(1) snoc by (auto simp: tiles_append)
    then have sum: "bk_size u + bk_size h < 2 ^ 64"
      using tiles_le [of "c + bk_size u + bk_size h" rest limit] assms(2) by simp
    have "n < 2 ^ 64" using assms(4,5) by simp
    from absorb_next_prefix [OF u assms(4) this sum call] show ?thesis
      using False snoc by (simp add: absorb_left_def)
  qed
qed

lemma merge_prefix:
  assumes "tiles a (us @ b # vs) limit" "limit < 2 ^ 64" "length t < 2 ^ 64"
    and "take n t = us @ b # vs" "n \<le> length t" "merge_free_neighbours t n (length us) = (t', n')"
  shows "take n' t' = absorb_left us (absorb_right b vs)" "n' \<le> n" "length t' = length t"
proof -
  obtain t1 n1 where one: "(if length us + 1 < n \<and> \<not> bk_used (t ! (length us + 1)) then absorb_next t n (length us) else (t, n)) = (t1, n1)"
    by fastforce
  obtain c where c: "tiles a us c" "tiles c (b # vs) limit" using assms(1) by (auto simp: tiles_append)
  note right = merge_right_prefix [OF c(2) assms(2,4,5,3) one]
  have "absorb_right b vs \<noteq> []" by (auto simp: absorb_right_def split: list.split)
  then obtain h rest where bs: "absorb_right b vs = h # rest" by (auto simp: neq_Nil_conv)
  have "tiles a (us @ h # rest) limit"
    using c by (auto simp: tiles_append bs [symmetric] absorb_right_def add.assoc split: list.split)
  moreover have "(if 0 < length us \<and> \<not> bk_used (t1 ! (length us - 1)) then absorb_next t1 n1 (length us - 1) else (t1, n1)) = (t', n')"
    using assms(6) one by (simp add: merge_free_neighbours_def)
  ultimately have "take n' t' = absorb_left us (h # rest) \<and> n' \<le> n1 \<and> length t' = length t1"
    using right assms(2,3,5) unfolding bs by (intro merge_left_prefix [of a us h rest limit]) simp_all
  then show "take n' t' = absorb_left us (absorb_right b vs)" "n' \<le> n" "length t' = length t" using right bs by simp_all
qed

section \<open>What an allocator over a table promises\<close>

datatype 'r span_op = Take 'r | Give nat

primrec span_step :: "('r \<Rightarrow> 's \<Rightarrow> nat option \<times> 's) \<Rightarrow> (nat \<Rightarrow> 's \<Rightarrow> bool \<times> 's) \<Rightarrow> 'r span_op \<Rightarrow> 's \<Rightarrow> 's" where
  "span_step alloc free (Take r) s = snd (alloc r s)"
| "span_step alloc free (Give a) s = snd (free a s)"

definition span_run :: "('r \<Rightarrow> 's \<Rightarrow> nat option \<times> 's) \<Rightarrow> (nat \<Rightarrow> 's \<Rightarrow> bool \<times> 's) \<Rightarrow> 'r span_op list \<Rightarrow> 's \<Rightarrow> 's" where
  "span_run alloc free ops s = fold (span_step alloc free) ops s"

locale span_allocator =
  fixes inv :: "'s \<Rightarrow> bool"
    and live :: "'s \<Rightarrow> (nat \<times> nat) set"
    and fits :: "'r \<Rightarrow> nat \<Rightarrow> nat \<Rightarrow> bool"
    and alloc :: "'r \<Rightarrow> 's \<Rightarrow> nat option \<times> 's"
    and free :: "nat \<Rightarrow> 's \<Rightarrow> bool \<times> 's"
  assumes disjoint: "inv s \<Longrightarrow> (p, n) \<in> live s \<Longrightarrow> (q, m) \<in> live s \<Longrightarrow> (p, n) = (q, m) \<or> p + n \<le> q \<or> q + m \<le> p"
    and nonempty: "inv s \<Longrightarrow> (p, n) \<in> live s \<Longrightarrow> 0 < n"
    and taken: "inv s \<Longrightarrow> alloc r s = (Some p, s') \<Longrightarrow>
      inv s' \<and> (\<exists>n. fits r p n \<and> live s' = insert (p, n) (live s) \<and> (\<forall>m. (p, m) \<notin> live s))"
    and refused: "inv s \<Longrightarrow> alloc r s = (None, s') \<Longrightarrow> inv s' \<and> live s' = live s"
    and given: "inv s \<Longrightarrow> (p, n) \<in> live s \<Longrightarrow> \<exists>s'. free p s = (True, s') \<and> inv s' \<and> live s' = live s - {(p, n)}"
    and not_given: "inv s \<Longrightarrow> \<forall>n. (p, n) \<notin> live s \<Longrightarrow> \<exists>s'. free p s = (False, s') \<and> inv s' \<and> live s' = live s"
begin

lemma live_unique: "inv s \<Longrightarrow> (p, n) \<in> live s \<Longrightarrow> (p, m) \<in> live s \<Longrightarrow> n = m"
  using disjoint [of s p n p m] nonempty [of s p n] nonempty [of s p m] by auto

lemma step_inv:
  assumes "inv s"
  shows "inv (span_step alloc free op s)"
proof (cases op)
  case (Take r)
  obtain x s' where "alloc r s = (x, s')" by fastforce
  then show ?thesis using Take taken [OF assms, of r _ s'] refused [OF assms, of r s'] by (cases x) simp_all
next
  case (Give p)
  show ?thesis
  proof (cases "\<exists>n. (p, n) \<in> live s")
    case True
    then obtain n where "(p, n) \<in> live s" by blast
    then obtain s' where "free p s = (True, s')" "inv s'" using given [OF assms] by metis
    then show ?thesis using Give by simp
  next
    case False
    then obtain s' where "free p s = (False, s')" "inv s'" using not_given [OF assms] by metis
    then show ?thesis using Give by simp
  qed
qed

lemma run_inv: "inv s \<Longrightarrow> inv (span_run alloc free ops s)"
  unfolding span_run_def by (induction ops arbitrary: s) (simp_all add: step_inv)

lemma step_keeps:
  assumes "inv s" "(p, n) \<in> live s" "op \<noteq> Give p"
  shows "(p, n) \<in> live (span_step alloc free op s)"
proof (cases op)
  case (Take r)
  obtain x s' where "alloc r s = (x, s')" by fastforce
  then show ?thesis using Take assms(2) taken [OF assms(1), of r _ s'] refused [OF assms(1), of r s'] by (cases x) auto
next
  case (Give q)
  show ?thesis
  proof (cases "\<exists>m. (q, m) \<in> live s")
    case True
    then obtain m where m: "(q, m) \<in> live s" by blast
    then obtain s' where "free q s = (True, s')" "live s' = live s - {(q, m)}" using given [OF assms(1)] by metis
    then show ?thesis using Give assms(2,3) by simp
  next
    case False
    then obtain s' where "free q s = (False, s')" "live s' = live s" using not_given [OF assms(1)] by metis
    then show ?thesis using Give assms(2) by simp
  qed
qed

lemma run_keeps:
  "inv s \<Longrightarrow> (p, n) \<in> live s \<Longrightarrow> Give p \<notin> set ops \<Longrightarrow> (p, n) \<in> live (span_run alloc free ops s)"
proof (induction ops arbitrary: s)
  case (Cons op ops)
  then show ?case using step_keeps [of s p n op] step_inv [of s op] by (auto simp: span_run_def)
qed (simp add: span_run_def)

lemma never_overlaps:
  assumes "inv s" "alloc r s = (Some p, s1)" "Give p \<notin> set ops" "s2 = span_run alloc free ops s1"
    and "alloc r' s2 = (Some q, s3)"
  obtains n m where "fits r p n" "fits r' q m" "live s3 = insert (q, m) (live s2)" "(p, n) \<in> live s2"
    "p + n \<le> q \<or> q + m \<le> p" "inv s3"
proof -
  obtain n where n: "fits r p n" "(p, n) \<in> live s1" "inv s1" using taken [OF assms(1,2)] by auto
  have s2: "inv s2" "(p, n) \<in> live s2" using run_inv n(3) run_keeps n(2) assms(3,4) by simp_all
  obtain m where m: "fits r' q m" "live s3 = insert (q, m) (live s2)" "\<forall>k. (q, k) \<notin> live s2" "inv s3"
    using taken [OF s2(1) assms(5)] by auto
  have "p + n \<le> q \<or> q + m \<le> p" using disjoint [OF m(4), of p n q m] m(2,3) s2(2) by auto
  then show thesis using that n(1) m(1,2,4) s2(2) by blast
qed

lemma double_free:
  assumes "inv s" "free p s = (True, s1)"
  shows "fst (free p s1) = False"
proof -
  obtain n where n: "(p, n) \<in> live s" using not_given [OF assms(1), of p] assms(2) by auto
  then have s1: "inv s1" "live s1 = live s - {(p, n)}" using given [OF assms(1) n] assms(2) by auto
  have "\<forall>m. (p, m) \<notin> live s1" using s1(2) live_unique [OF assms(1) n] by auto
  then show ?thesis using not_given [OF s1(1), of p] by auto
qed

end

text \<open>An allocator that takes from its table only joins the pieces again when they come back: allocations
  freed in the opposite order leave the table as it was.\<close>

locale restoring_allocator = span_allocator +
  fixes table :: "'s \<Rightarrow> block list"
    and extended :: "'s \<Rightarrow> 's \<Rightarrow> bool"
  assumes restores: "inv s \<Longrightarrow> alloc r s = (Some p, s1) \<Longrightarrow> \<not> extended s s1 \<Longrightarrow> inv s2 \<Longrightarrow> table s2 = table s1 \<Longrightarrow>
      free p s2 = (True, s3) \<Longrightarrow> table s3 = table s"
    and live_table: "inv s \<Longrightarrow> inv s' \<Longrightarrow> table s = table s' \<Longrightarrow> live s = live s'"

text \<open>Allocations one after the other, each from the table at hand: the addresses, last first.\<close>

fun take_all :: "('r \<Rightarrow> 's \<Rightarrow> nat option \<times> 's) \<Rightarrow> ('s \<Rightarrow> 's \<Rightarrow> bool) \<Rightarrow> 'r list \<Rightarrow> 's \<Rightarrow> (nat list \<times> 's) option" where
  "take_all alloc extended [] s = Some ([], s)"
| "take_all alloc extended (r # rs) s =
     (case alloc r s of
        (Some p, s1) \<Rightarrow>
          if extended s s1 then None else map_option (\<lambda>(ps, s2). (ps @ [p], s2)) (take_all alloc extended rs s1)
      | (None, _) \<Rightarrow> None)"

definition give_all :: "(nat \<Rightarrow> 's \<Rightarrow> bool \<times> 's) \<Rightarrow> nat list \<Rightarrow> 's \<Rightarrow> bool \<times> 's" where
  "give_all free ps s = fold (\<lambda>p (ok, s). let (r, s') = free p s in (ok \<and> r, s')) ps (True, s)"

context restoring_allocator
begin

lemma take_all_inv: "inv s \<Longrightarrow> take_all alloc extended rs s = Some (ps, s1) \<Longrightarrow> inv s1"
proof (induction rs arbitrary: s ps)
  case (Cons r rs)
  obtain p t qs where t: "alloc r s = (Some p, t)" "take_all alloc extended rs t = Some (qs, s1)"
    using Cons.prems(2) by (auto split: prod.splits option.splits if_splits)
  show ?case using Cons.IH [OF _ t(2)] taken [OF Cons.prems(1) t(1)] by simp
qed simp

lemma take_give_all:
  assumes "inv s" "take_all alloc extended rs s = Some (ps, s1)" "inv s2" "table s2 = table s1"
  shows "\<exists>s3. give_all free ps s2 = (True, s3) \<and> inv s3 \<and> table s3 = table s"
  using assms
proof (induction rs arbitrary: s ps)
  case Nil
  then show ?case by (auto simp: give_all_def)
next
  case (Cons r rs)
  obtain p t qs where t: "alloc r s = (Some p, t)" "\<not> extended s t" "take_all alloc extended rs t = Some (qs, s1)" "ps = qs @ [p]"
    using Cons.prems(2) by (auto split: prod.splits option.splits if_splits)
  obtain n where n: "inv t" "(p, n) \<in> live t" using taken [OF Cons.prems(1) t(1)] by auto
  obtain u where u: "give_all free qs s2 = (True, u)" "inv u" "table u = table t"
    using Cons.IH [OF n(1) t(3) Cons.prems(3,4)] by blast
  have "(p, n) \<in> live u" using live_table [OF u(2) n(1) u(3)] n(2) by simp
  then obtain w where w: "free p u = (True, w)" "inv w" using given [OF u(2)] by blast
  have "table w = table s" using restores [OF Cons.prems(1) t(1,2) u(2,3) w(1)] .
  then show ?case using u(1) w unfolding t(4) by (simp add: give_all_def)
qed

end

end
