(* ===== verification/Heap.thy ===== *)
theory Heap
  imports Paging Block_Tables
begin

text \<open>
  The kernel heap of \<open>src/kernel/heap.c\<close>: a window of virtual addresses backed one page at a time by frames
  of the allocator, and a table of blocks over the part that is backed.

  \<open>heap_system\<close> holds the file's globals (the array of blocks, the count, the reported state) and the paging
  system the heap calls; the frames it allocates and releases are those the page tables come from, the field
  \<open>pe_frames\<close> of that system's store. Loops over pages run over the list of their offsets. Whether interrupts
  are enabled is an argument of \<open>heap_initialize\<close>.
\<close>

section \<open>State\<close>

abbreviation (input) HEAP_BASE :: nat where "HEAP_BASE \<equiv> 0x400000000"
abbreviation (input) HEAP_SIZE :: nat where "HEAP_SIZE \<equiv> 0x1000000"
abbreviation (input) HEAP_GUARD_BELOW :: nat where "HEAP_GUARD_BELOW \<equiv> 0x3FFFFF000"
abbreviation (input) HEAP_GUARD_ABOVE :: nat where "HEAP_GUARD_ABOVE \<equiv> 0x401000000"
abbreviation (input) HEAP_ALIGNMENT :: nat where "HEAP_ALIGNMENT \<equiv> 16"
abbreviation (input) HEAP_MAX_BLOCKS :: nat where "HEAP_MAX_BLOCKS \<equiv> 256"

datatype (plugins only: code size) heap_status = HEAP_STATUS_OK | HEAP_STATUS_NULL_ARGUMENT
  | HEAP_STATUS_ALREADY_INITIALIZED | HEAP_STATUS_NOT_INITIALIZED | HEAP_STATUS_INTERRUPTS_ENABLED
  | HEAP_STATUS_PAGING_INACTIVE | HEAP_STATUS_GUARD_MAPPED | HEAP_STATUS_ZERO_SIZE | HEAP_STATUS_TOO_LARGE
  | HEAP_STATUS_OUT_OF_MEMORY | HEAP_STATUS_OUT_OF_BLOCKS | HEAP_STATUS_MAPPING_FAILURE
  | HEAP_STATUS_BAD_POINTER | HEAP_STATUS_DOUBLE_FREE | HEAP_STATUS_VALIDATION_FAILURE

type_synonym heap_block = block

record heap_state =
  hs_base_address :: nat
  hs_size :: nat
  hs_committed_bytes :: nat
  hs_allocated_bytes :: nat
  hs_block_count :: nat
  hs_live_allocations :: nat
  hs_mapped_pages :: nat
  hs_active :: bool

record heap_system =
  hp_blocks :: "heap_block list"
  hp_block_count :: nat
  hp_state :: heap_state
  hp_paging :: paging_system

abbreviation frames_of :: "paging_system \<Rightarrow> frame_state" where
  "frames_of p \<equiv> pe_frames (ps_store p)"

definition set_frames :: "frame_state \<Rightarrow> paging_system \<Rightarrow> paging_system" where
  "set_frames frames p = p\<lparr>ps_store := (ps_store p)\<lparr>pe_frames := frames\<rparr>\<rparr>"

section \<open>The table\<close>

definition align_up :: "nat \<Rightarrow> nat \<Rightarrow> nat" where
  "align_up value alignment = sub64 (add64 value alignment) 1 AND not64 (sub64 alignment 1)"

definition find_fit :: "heap_block list \<Rightarrow> nat \<Rightarrow> nat \<Rightarrow> nat option" where
  "find_fit table count bytes = first_index (\<lambda>b. \<not> bk_used b \<and> bk_size b \<ge> bytes) (take count table)"

definition block_index_for_offset :: "heap_block list \<Rightarrow> nat \<Rightarrow> nat \<Rightarrow> nat option" where
  "block_index_for_offset table count offset = first_index (\<lambda>b. bk_offset b = offset) (take count table)"

definition split_block :: "heap_block list \<Rightarrow> nat \<Rightarrow> nat \<Rightarrow> nat \<Rightarrow> bool \<times> heap_block list \<times> nat" where
  "split_block table count index bytes =
     (let remainder = sub64 (bk_size (table ! index)) bytes in
      if remainder \<ge> HEAP_ALIGNMENT then
        if count = HEAP_MAX_BLOCKS then (False, table, count)
        else
          (let moved = open_gap table (index + 1) count;
               rest = moved[index + 1 := \<lparr>bk_offset = add64 (bk_offset (moved ! index)) bytes,
                 bk_size = remainder, bk_used = False\<rparr>];
               taken = rest[index := (rest ! index)\<lparr>bk_size := bytes, bk_used := True\<rparr>] in
           (True, taken, add64 count 1))
      else (True, table[index := (table ! index)\<lparr>bk_used := True\<rparr>], count))"

text \<open>The loop of \<open>validate_table\<close>; \<open>previous\<close> is whether the block before is used, if there is one.\<close>

fun validate_blocks :: "bool option \<Rightarrow> nat \<Rightarrow> heap_block list \<Rightarrow> nat \<Rightarrow> bool" where
  "validate_blocks previous expected_offset [] committed \<longleftrightarrow> expected_offset = committed"
| "validate_blocks previous expected_offset (b # rest) committed \<longleftrightarrow>
     (if bk_offset b \<noteq> expected_offset \<or> bk_size b = 0 \<or> bk_size b mod HEAP_ALIGNMENT \<noteq> 0 then False
      else if previous = Some False \<and> \<not> bk_used b then False
      else validate_blocks (Some (bk_used b)) (add64 expected_offset (bk_size b)) rest committed)"

definition validate_table :: "heap_block list \<Rightarrow> nat \<Rightarrow> nat \<Rightarrow> bool" where
  "validate_table table count committed \<longleftrightarrow>
     (if count > HEAP_MAX_BLOCKS then False
      else if count = 0 then committed = 0
      else validate_blocks None 0 (take count table) committed)"

section \<open>Pages\<close>

definition release_page :: "nat \<Rightarrow> heap_system \<Rightarrow> heap_system" where
  "release_page offset h =
     (let address = add64 HEAP_BASE offset in
      case paging_translate address (Some empty_translation) (hp_paging h) of
        (status, translation) \<Rightarrow>
          if status \<noteq> PAGING_STATUS_OK then h
          else
            (case paging_unmap address PAGING_PAGE_SIZE (hp_paging h) of
               (status, p) \<Rightarrow>
                 if status \<noteq> PAGING_STATUS_OK then h\<lparr>hp_paging := p\<rparr>
                 else h\<lparr>hp_paging := set_frames (snd (frame_release (tr_physical_address (the translation)) (frames_of p))) p,
                        hp_state := (hp_state h)\<lparr>hs_mapped_pages := sub64 (hs_mapped_pages (hp_state h)) 1\<rparr>\<rparr>))"

definition release_pages :: "nat \<Rightarrow> nat \<Rightarrow> heap_system \<Rightarrow> heap_system" where
  "release_pages from until h =
     fold (\<lambda>offset. release_page (from + offset)) (page_offsets (until - from) PAGING_PAGE_SIZE) h"

primrec commit_offsets :: "nat \<Rightarrow> nat list \<Rightarrow> heap_system \<Rightarrow> heap_status \<times> heap_system" where
  "commit_offsets from [] h = (HEAP_STATUS_OK, h)"
| "commit_offsets from (offset # rest) h =
     (case frame_allocate (Some 0) (frames_of (hp_paging h)) of
        (frame_status, frame, frames) \<Rightarrow>
          (let p = set_frames frames (hp_paging h) in
           if frame_status \<noteq> FRAME_STATUS_OK
           then (HEAP_STATUS_OUT_OF_MEMORY, release_pages from offset (h\<lparr>hp_paging := p\<rparr>))
           else
             (case paging_map (add64 HEAP_BASE offset) (the frame) PAGING_PAGE_SIZE PAGING_WRITE p of
                (paging_status, p) \<Rightarrow>
                  if paging_status \<noteq> PAGING_STATUS_OK
                  then (HEAP_STATUS_MAPPING_FAILURE, release_pages from offset
                    (h\<lparr>hp_paging := set_frames (snd (frame_release (the frame) (frames_of p))) p\<rparr>))
                  else commit_offsets from rest
                    (h\<lparr>hp_paging := p,
                       hp_state := (hp_state h)\<lparr>hs_mapped_pages := add64 (hs_mapped_pages (hp_state h)) 1\<rparr>\<rparr>))))"

definition commit_pages :: "nat \<Rightarrow> nat \<Rightarrow> heap_system \<Rightarrow> heap_status \<times> heap_system" where
  "commit_pages from until h =
     commit_offsets from (map (\<lambda>offset. from + offset) (page_offsets (until - from) PAGING_PAGE_SIZE)) h"

definition grow_for :: "nat \<Rightarrow> heap_system \<Rightarrow> (heap_status + nat) \<times> heap_system" where
  "grow_for bytes h =
     (let count = hp_block_count h; blocks = hp_blocks h;
          extend_last = (count > 0 \<and> \<not> bk_used (blocks ! (count - 1)));
          trailing = (if extend_last then bk_size (blocks ! (count - 1)) else 0);
          growth = align_up (sub64 bytes trailing) PAGING_PAGE_SIZE;
          committed = hs_committed_bytes (hp_state h) in
      if growth > sub64 HEAP_SIZE committed then (Inl HEAP_STATUS_OUT_OF_MEMORY, h)
      else if \<not> extend_last \<and> count = HEAP_MAX_BLOCKS then (Inl HEAP_STATUS_OUT_OF_BLOCKS, h)
      else
        (case commit_pages committed (add64 committed growth) h of
           (status, h1) \<Rightarrow>
             if status \<noteq> HEAP_STATUS_OK then (Inl status, h1)
             else
               (let (blocks1, count1) =
                      (if extend_last
                       then (blocks[count - 1 := (blocks ! (count - 1))
                               \<lparr>bk_size := add64 (bk_size (blocks ! (count - 1))) growth\<rparr>], count)
                       else (blocks[count := \<lparr>bk_offset = committed, bk_size = growth, bk_used = False\<rparr>],
                             add64 count 1)) in
                (Inr (sub64 count1 1),
                 h1\<lparr>hp_blocks := blocks1, hp_block_count := count1,
                    hp_state := (hp_state h1)\<lparr>hs_committed_bytes := add64 committed growth\<rparr>\<rparr>))))"

definition count_block :: "heap_block \<Rightarrow> nat \<times> nat \<Rightarrow> nat \<times> nat" where
  "count_block b counts =
     (if bk_used b then (add64 (fst counts) (bk_size b), add64 (snd counts) 1) else counts)"

definition refresh_state :: "heap_system \<Rightarrow> heap_system" where
  "refresh_state h =
     (let (allocated, live) = fold count_block (take (hp_block_count h) (hp_blocks h)) (0, 0) in
      h\<lparr>hp_state := (hp_state h)\<lparr>hs_block_count := hp_block_count h, hs_allocated_bytes := allocated,
        hs_live_allocations := live\<rparr>\<rparr>)"

section \<open>The calls\<close>

definition guards_absent :: "paging_system \<Rightarrow> bool" where
  "guards_absent p \<longleftrightarrow>
     fst (paging_translate HEAP_GUARD_BELOW (Some empty_translation) p) = PAGING_STATUS_NOT_MAPPED \<and>
     fst (paging_translate HEAP_GUARD_ABOVE (Some empty_translation) p) = PAGING_STATUS_NOT_MAPPED"

definition heap_initialize :: "bool \<Rightarrow> heap_system \<Rightarrow> heap_status \<times> heap_system" where
  "heap_initialize interrupts_enabled h =
     (if hs_active (hp_state h) then (HEAP_STATUS_ALREADY_INITIALIZED, h)
      else if \<not> ps_active (hp_paging h) then (HEAP_STATUS_PAGING_INACTIVE, h)
      else if interrupts_enabled then (HEAP_STATUS_INTERRUPTS_ENABLED, h)
      else if \<not> guards_absent (hp_paging h) then (HEAP_STATUS_GUARD_MAPPED, h)
      else (HEAP_STATUS_OK, refresh_state
        (h\<lparr>hp_block_count := 0,
           hp_state := (hp_state h)\<lparr>hs_base_address := HEAP_BASE, hs_size := HEAP_SIZE,
             hs_committed_bytes := 0, hs_mapped_pages := 0, hs_active := True\<rparr>\<rparr>)))"

text \<open>The pointer is what the call stores through its argument; zero is the null pointer.\<close>

definition heap_allocate :: "nat \<Rightarrow> nat option \<Rightarrow> heap_system \<Rightarrow> heap_status \<times> nat option \<times> heap_system" where
  "heap_allocate bytes pointer h =
     (if pointer = None then (HEAP_STATUS_NULL_ARGUMENT, None, h)
      else if \<not> hs_active (hp_state h) then (HEAP_STATUS_NOT_INITIALIZED, Some 0, h)
      else if bytes = 0 then (HEAP_STATUS_ZERO_SIZE, Some 0, h)
      else if bytes > HEAP_SIZE then (HEAP_STATUS_TOO_LARGE, Some 0, h)
      else
        (let requested = align_up bytes HEAP_ALIGNMENT in
         if requested > HEAP_SIZE then (HEAP_STATUS_TOO_LARGE, Some 0, h)
         else
           (case (case find_fit (hp_blocks h) (hp_block_count h) requested of
                    Some index \<Rightarrow> (Inr index, h)
                  | None \<Rightarrow> grow_for requested h) of
              (Inl status, h1) \<Rightarrow> (status, Some 0, h1)
            | (Inr index, h1) \<Rightarrow>
                (case split_block (hp_blocks h1) (hp_block_count h1) index requested of
                   (split, blocks, count) \<Rightarrow>
                     if \<not> split then (HEAP_STATUS_OUT_OF_BLOCKS, Some 0, h1)
                     else (HEAP_STATUS_OK, Some (add64 HEAP_BASE (bk_offset (blocks ! index))),
                       refresh_state (h1\<lparr>hp_blocks := blocks, hp_block_count := count\<rparr>))))))"

definition heap_free :: "nat \<Rightarrow> heap_system \<Rightarrow> heap_status \<times> heap_system" where
  "heap_free pointer h =
     (if \<not> hs_active (hp_state h) then (HEAP_STATUS_NOT_INITIALIZED, h)
      else if pointer = 0 then (HEAP_STATUS_NULL_ARGUMENT, h)
      else if pointer < HEAP_BASE \<or> pointer \<ge> add64 HEAP_BASE (hs_committed_bytes (hp_state h))
        then (HEAP_STATUS_BAD_POINTER, h)
      else
        (case block_index_for_offset (hp_blocks h) (hp_block_count h) (sub64 pointer HEAP_BASE) of
           None \<Rightarrow> (HEAP_STATUS_BAD_POINTER, h)
         | Some index \<Rightarrow>
             if \<not> bk_used (hp_blocks h ! index) then (HEAP_STATUS_DOUBLE_FREE, h)
             else
               (case merge_free_neighbours ((hp_blocks h)[index := (hp_blocks h ! index)\<lparr>bk_used := False\<rparr>])
                       (hp_block_count h) index of
                  (blocks, count) \<Rightarrow>
                    (HEAP_STATUS_OK, refresh_state (h\<lparr>hp_blocks := blocks, hp_block_count := count\<rparr>)))))"

definition heap_page_ok :: "paging_system \<Rightarrow> nat \<Rightarrow> bool" where
  "heap_page_ok p offset \<longleftrightarrow>
     (case paging_translate (add64 HEAP_BASE offset) (Some empty_translation) p of
        (status, translation) \<Rightarrow>
          status = PAGING_STATUS_OK \<and> tr_permissions (the translation) = PAGING_WRITE \<and> tr_level (the translation) = 1)"

definition heap_verify :: "heap_system \<Rightarrow> heap_status" where
  "heap_verify h =
     (let s = hp_state h; committed = hs_committed_bytes s;
          (allocated, live) = fold count_block (take (hp_block_count h) (hp_blocks h)) (0, 0) in
      if \<not> hs_active s then HEAP_STATUS_NOT_INITIALIZED
      else if committed > HEAP_SIZE \<or> committed mod PAGING_PAGE_SIZE \<noteq> 0 \<or>
          hs_mapped_pages s \<noteq> committed div PAGING_PAGE_SIZE then HEAP_STATUS_VALIDATION_FAILURE
      else if \<not> validate_table (hp_blocks h) (hp_block_count h) committed then HEAP_STATUS_VALIDATION_FAILURE
      else if \<not> guards_absent (hp_paging h) then HEAP_STATUS_GUARD_MAPPED
      else if \<not> list_all (heap_page_ok (hp_paging h)) (page_offsets committed PAGING_PAGE_SIZE)
        then HEAP_STATUS_VALIDATION_FAILURE
      else if allocated \<noteq> hs_allocated_bytes s \<or> live \<noteq> hs_live_allocations s \<or> hp_block_count h \<noteq> hs_block_count s
        then HEAP_STATUS_VALIDATION_FAILURE
      else HEAP_STATUS_OK)"

definition heap_get_state :: "heap_system \<Rightarrow> heap_state" where
  "heap_get_state h = hp_state h"

definition heap_is_active :: "heap_system \<Rightarrow> bool" where
  "heap_is_active h \<longleftrightarrow> hs_active (hp_state h)"


section \<open>Facts about the table\<close>

lemma align_up_power:
  assumes "a = 2 ^ k" "k \<le> 63" "v + a \<le> 2 ^ 64"
  shows "align_up v a = (v + (a - 1)) - (v + (a - 1)) mod a"
proof -
  have "(2 :: nat) ^ k < 2 ^ 64" using assms(2) by (intro power_strict_increasing) simp_all
  then have a: "0 < a" "a < 2 ^ 64" using assms(1) by simp_all
  have "sub64 (add64 v a) 1 = v + (a - 1)"
  proof (cases "v + a = 2 ^ 64")
    case True
    then show ?thesis using a by (simp add: add64_def sub64_def)
  next
    case False
    then show ?thesis using assms(3) a by (simp add: no_wrap)
  qed
  moreover have "sub64 a 1 = 2 ^ k - 1" using a assms(1) by (simp add: no_wrap)
  moreover have "v + (a - 1) < 2 ^ 64" using assms(3) a by simp
  ultimately show ?thesis
    unfolding align_up_def using and_not64_mask [of k "v + (a - 1)"] assms(1,2) by simp
qed

lemma align_up_bounds:
  assumes "a = 2 ^ k" "k \<le> 63" "v + a \<le> 2 ^ 64"
  shows "a dvd align_up v a" "v \<le> align_up v a" "align_up v a < v + a" "a dvd w \<Longrightarrow> v \<le> w \<Longrightarrow> align_up v a \<le> w"
proof -
  have a: "0 < a" using assms(1) by simp
  show "a dvd align_up v a" unfolding align_up_power [OF assms] using a by (rule round_up_dvd)
  show "v \<le> align_up v a" unfolding align_up_power [OF assms] using a by (rule round_up_ge)
  show "align_up v a < v + a" unfolding align_up_power [OF assms] using a by (rule round_up_less)
  show "align_up v a \<le> w" if "a dvd w" "v \<le> w" unfolding align_up_power [OF assms] using a that by (rule round_up_least)
qed

lemma fold_count_block:
  "a + used_bytes xs < 2 ^ 64 \<Longrightarrow> n + length xs < 2 ^ 64 \<Longrightarrow>
    fold count_block xs (a, n) = (a + used_bytes xs, n + count_if bk_used xs)"
proof (induction xs arbitrary: a n)
  case (Cons b xs)
  then show ?case by (cases "bk_used b") (simp_all add: count_block_def no_wrap add.assoc)
qed simp

lemma validate_blocks_tiles:
  "tiles a xs b \<Longrightarrow> coalesced xs \<Longrightarrow> list_all (\<lambda>x. 16 dvd bk_size x) xs \<Longrightarrow> b < 2 ^ 64 \<Longrightarrow>
    previous = Some False \<longrightarrow> xs = [] \<or> bk_used (hd xs) \<Longrightarrow> validate_blocks previous a xs b"
proof (induction xs arbitrary: a previous)
  case (Cons x xs)
  have "add64 a (bk_size x) = a + bk_size x"
    using Cons.prems(1,4) tiles_le [of "a + bk_size x" xs b] by (simp add: no_wrap)
  then show ?case using Cons by (auto simp: coalesced_Cons mod_eq_0_iff_dvd)
qed simp

text \<open>The table the array and the count describe.\<close>

definition heap_table :: "heap_system \<Rightarrow> block list" where
  "heap_table h = take (hp_block_count h) (hp_blocks h)"

text \<open>Splitting takes the front of a free block; it is refused exactly when a rest needs an entry the array
  does not have.\<close>

lemma split_block_carve:
  assumes "take n t = us @ b # vs" "length t = 256" "n \<le> 256" "0 < bytes" "bytes \<le> bk_size b" "16 dvd bytes" "16 dvd bk_size b"
    and "\<not> bk_used b" "bk_offset b + bk_size b < 2 ^ 64" "split_block t n (length us) bytes = (split, t', n')"
  shows "split = (bk_size b = bytes \<or> n < 256)" "split \<Longrightarrow> take n' t' = us @ carve 0 bytes b @ vs" "split \<Longrightarrow> n' \<le> 256"
    "length t' = 256" "split \<Longrightarrow> t' ! length us = \<lparr>bk_offset = bk_offset b, bk_size = bytes, bk_used = True\<rparr>"
proof -
  note b = nth_prefix [OF assms(1)]
  have rem: "sub64 (bk_size b) bytes = bk_size b - bytes" using assms(5,9) by (simp add: no_wrap)
  have "16 dvd bk_size b - bytes" using assms(6,7) by (simp add: dvd_diff_nat)
  then have big: "16 \<le> bk_size b - bytes \<longleftrightarrow> bk_size b \<noteq> bytes" using assms(5) by (auto dest: dvd_imp_le)
  have "split = (bk_size b = bytes \<or> n < 256) \<and> (split \<longrightarrow> take n' t' = us @ carve 0 bytes b @ vs \<and> n' \<le> 256) \<and> length t' = 256 \<and>
    (split \<longrightarrow> t' ! length us = \<lparr>bk_offset = bk_offset b, bk_size = bytes, bk_used = True\<rparr>)"
  proof (cases "bk_size b = bytes")
    case True
    have "b\<lparr>bk_used := True\<rparr> = \<lparr>bk_offset = bk_offset b, bk_size = bytes, bk_used = True\<rparr>" using True by (cases b) simp
    moreover have "split" "t' = t[length us := b\<lparr>bk_used := True\<rparr>]" "n' = n"
      using assms(10) b(1) rem big True by (simp_all add: split_block_def)
    ultimately show ?thesis
      using take_update [OF assms(1)] assms(2,3) True b(3) by (simp add: carve_def)
  next
    case False
    show ?thesis
    proof (cases "n = 256")
      case True
      then show ?thesis using assms(2,10) b(1) rem big False by (simp add: split_block_def)
    next
      case room: False
      let ?r = "\<lparr>bk_offset = bk_offset b + bytes, bk_size = bk_size b - bytes, bk_used = False\<rparr>"
      let ?t = "(open_gap t (Suc (length us)) n)[Suc (length us) := ?r]"
      have moved: "open_gap t (Suc (length us)) n ! length us = b" using assms(2,3) room b(1) by (simp add: open_gap_nth)
      have "take (n + 1) ?t = (us @ [b]) @ ?r # vs"
        using take_open_gap [of n t "us @ [b]" vs ?r] assms(1-3) room by simp
      then have "take (n + 1) ?t = us @ b # ?r # vs" by simp
      from take_update [OF this] have "take (n + 1) (?t[length us := c]) = us @ c # ?r # vs" for c .
      moreover have used: "b\<lparr>bk_size := bytes, bk_used := True\<rparr> = \<lparr>bk_offset = bk_offset b, bk_size = bytes, bk_used = True\<rparr>"
        by (cases b) simp
      have "split" "n' = n + 1" "t' = ?t[length us := b\<lparr>bk_size := bytes, bk_used := True\<rparr>]"
        using assms(3,5,9,10) b(1) rem big False room moved
        by (auto simp: split_block_def no_wrap Let_def nth_list_update)
      note this [unfolded used]
      ultimately show ?thesis using assms(2,3,5) False room b(3) by (simp add: carve_def)
    qed
  qed
  then show "split = (bk_size b = bytes \<or> n < 256)" "split \<Longrightarrow> take n' t' = us @ carve 0 bytes b @ vs" "split \<Longrightarrow> n' \<le> 256"
    "length t' = 256" "split \<Longrightarrow> t' ! length us = \<lparr>bk_offset = bk_offset b, bk_size = bytes, bk_used = True\<rparr>" by blast+
qed

end
