(* ===== verification/Heap_Pages.thy ===== *)
theory Heap_Pages
  imports Heap
begin

text \<open>
  The pages under the heap. Every page of the committed part of the window is mapped to a frame of its own,
  writable and not executable, and that frame holds no page table (\<open>backed\<close>); committing more pages either
  extends this to all of them or takes bk what it had mapped.
\<close>

section \<open>Frames and page tables\<close>

lemma set_frames_simps [simp]:
  "ps_active (set_frames F p) = ps_active p" "ps_pat_after (set_frames F p) = ps_pat_after p"
  "ps_intents (set_frames F p) = ps_intents p" "frames_of (set_frames F p) = F"
  "leaf_of (ps_store (set_frames F p)) va = leaf_of (ps_store p) va"
  "pe_tables (ps_store (set_frames F p)) = pe_tables (ps_store p)"
  "pe_hierarchy (ps_store (set_frames F p)) = pe_hierarchy (ps_store p)"
  by (simp_all add: set_frames_def leaf_of_def)

text \<open>Calls on the frame allocator keep the page tables well formed, as long as they release only frames that
  hold none.\<close>

lemma set_frames_ok:
  assumes ok: "paging_ok p" and step: "frame_step op (frames_of p) = (s, F)" and words: "op_words op"
    and release: "\<And>g. op = Op_Release (g * 4096) \<Longrightarrow> foreign (ps_store p) g"
  shows "paging_ok (set_frames F p)"
    and "foreign (ps_store p) f \<Longrightarrow> op \<noteq> Op_Release (f * 4096) \<Longrightarrow> foreign (ps_store (set_frames F p)) f"
proof -
  have h: "frames_ok (frames_of p)" "tables_owned (pe_tables (ps_store p)) (root_of (ps_store p)) (frames_of p)"
    using ok by (simp_all add: paging_ok_def hierarchy_ok_def)
  have "tables_owned (pe_tables (ps_store p)) (root_of (ps_store p)) F"
    unfolding tables_owned_def
  proof (intro allI impI)
    fix q t assume q: "index_path q" "node (pe_tables (ps_store p)) (root_of (ps_store p)) q = Some t"
    have t: "4096 dvd t" "owned_single (frames_of p) (t div 4096)" using h(2) q by (auto simp: tables_owned_def)
    then have "op \<noteq> Op_Release (t div 4096 * 4096)" using release [of "t div 4096"] q by (auto simp: foreign_def)
    then show "4096 dvd t \<and> owned_single F (t div 4096)" using t owned_single_step [OF h(1) words t(2) step] by simp
  qed
  moreover have "frames_ok F" "fa_initialized F = fa_initialized (frames_of p)"
    using frame_step_ok [OF h(1) step words] frame_step_initialized [OF step] by simp_all
  ultimately show "paging_ok (set_frames F p)" using ok by (simp add: paging_ok_def hierarchy_ok_def)
  show "foreign (ps_store (set_frames F p)) f" if "foreign (ps_store p) f" "op \<noteq> Op_Release (f * 4096)"
    using that owned_single_step [OF h(1) words _ step, of f] by (simp add: foreign_def)
qed

lemma frames_allocated:
  assumes ok: "paging_ok p" and call: "frame_allocate (Some d) (frames_of p) = (FRAME_STATUS_OK, a, F)"
  obtains f where "a = Some (f * 4096)" "f < FRAME_COUNT" "paging_ok (set_frames F p)"
    "foreign (ps_store (set_frames F p)) f" "\<not> foreign (ps_store p) f"
    "\<And>g. foreign (ps_store p) g \<Longrightarrow> foreign (ps_store (set_frames F p)) g"
proof -
  obtain f where f: "a = Some (f * 4096)" using call by (rule frame_allocate_OK)
  have h: "frames_ok (frames_of p)" "hierarchy_ok (ps_store p)" using ok by (simp_all add: paging_ok_def hierarchy_ok_def)
  have step: "frame_step (Op_Allocate (Some d)) (frames_of p) = (FRAME_STATUS_OK, F)" using call by simp
  note new = frame_allocate_owned [OF h(1) call [unfolded f]]
  note S = set_frames_ok [OF ok step]
  have "foreign (ps_store (set_frames F p)) f"
    using new(1) hierarchy_fresh [OF h(2) new(3)] by (simp add: foreign_def)
  moreover have "\<not> foreign (ps_store p) f" using new(3) by (auto simp: foreign_def owned_single_def frame_free_def)
  ultimately show thesis using f new(4) S by (intro that [of f]) simp_all
qed

lemma frames_refused:
  assumes "frame_allocate (Some d) (frames_of p) = (s, a, F)" "s \<noteq> FRAME_STATUS_OK"
  shows "set_frames F p = p"
proof -
  have "F = frames_of p" using frame_step_cases [of "Op_Allocate (Some d)" "frames_of p" s F] assms by simp
  then show ?thesis by (simp add: set_frames_def)
qed

lemma foreign_bound: "foreign st f \<Longrightarrow> f * 4096 < 2 ^ 52"
  by (simp add: foreign_def owned_single_def FRAME_COUNT_eq)

lemma frames_released:
  assumes "paging_ok p" "foreign (ps_store p) f" "F = snd (frame_release (f * 4096) (frames_of p))"
  shows "paging_ok (set_frames F p)"
    and "foreign (ps_store p) g \<Longrightarrow> g \<noteq> f \<Longrightarrow> foreign (ps_store (set_frames F p)) g"
proof -
  obtain s where step: "frame_step (Op_Release (f * 4096)) (frames_of p) = (s, F)"
    using assms(3) by (cases "frame_release (f * 4096) (frames_of p)") simp
  have words: "op_words (Op_Release (f * 4096))" using foreign_bound [OF assms(2)] by simp
  note S = set_frames_ok [OF assms(1) step words]
  show "paging_ok (set_frames F p)" using S(1) assms(2) by simp
  show "foreign (ps_store (set_frames F p)) g" if "foreign (ps_store p) g" "g \<noteq> f"
    using S(2) [of g] assms(2) that by simp
qed

section \<open>Backed pages\<close>

abbreviation heap_page :: "nat \<Rightarrow> nat" where
  "heap_page k \<equiv> HEAP_BASE + k * 4096"

abbreviation in_heap_pages :: "nat \<Rightarrow> nat \<Rightarrow> nat \<Rightarrow> bool" where
  "in_heap_pages j n va \<equiv> heap_page j \<le> va \<and> va < heap_page n"

definition backed :: "paging_store \<Rightarrow> nat set \<Rightarrow> (nat \<Rightarrow> nat) \<Rightarrow> bool" where
  "backed st P frame \<longleftrightarrow> inj_on frame P \<and>
     (\<forall>k \<in> P. foreign st (frame k) \<and> leaf_of st (heap_page k) = Some (page_leaf (frame k * 4096) PAGING_WRITE))"

lemma heap_page_canonical: "k \<le> 4096 \<Longrightarrow> address_is_canonical (heap_page k)"
  by (simp add: canonical_iff)

lemma heap_page_aligned: "4096 dvd heap_page k"
  by (intro dvd_add) simp_all

lemma heap_page_valid:
  assumes "k < 4096"
  shows "validate_virtual_range (heap_page k) 4096 4096 = PAGING_STATUS_OK"
proof -
  have "address_is_canonical (heap_page k)" "address_is_canonical (heap_page k + 4096 - 1)"
    using assms by (simp_all add: canonical_iff)
  moreover have "heap_page k AND (4096 - 1) = 0" unfolding aligned_iff by (rule heap_page_aligned)
  ultimately show ?thesis
    using assms by (simp add: validate_virtual_range_def UINT64_MAX_def)
qed

lemma heap_page_leaf:
  assumes "k < 4096" "in_heap_pages k (Suc k) va"
  shows "address_is_canonical va" "leaf_of st va = leaf_of st (heap_page k)"
proof -
  show va: "address_is_canonical va" using assms by (simp add: canonical_iff)
  have "va div 4096 = heap_page k div 4096"
    using in_page_iff [OF heap_page_aligned, of va k 0] assms(2) by (simp add: in_pages_def)
  then show "leaf_of st va = leaf_of st (heap_page k)"
    using vpath_page_iff [OF va heap_page_canonical [of k]] assms(1) by (intro leaf_of_vpath) simp
qed

lemma heap_page_translation:
  assumes "paging_ok p" "foreign (ps_store p) f" "leaf_of (ps_store p) (heap_page k) = Some (page_leaf (f * 4096) PAGING_WRITE)"
    and "k < 4096"
  shows "paging_translate (heap_page k) (Some d) p = (PAGING_STATUS_OK, Some (page_translation (f * 4096) PAGING_WRITE))"
proof -
  have "heap_page k mod 4096 = 0" using heap_page_aligned by (simp only: mod_eq_0_iff_dvd)
  then show ?thesis
    using translate_page [OF assms(3) heap_page_canonical _ foreign_bound [OF assms(2)] write_permission_ok, of "ps_pat_after p"]
      assms(1,4) by (simp add: paging_translate_def paging_ok_def)
qed


section \<open>Releasing pages\<close>

text \<open>What a step of the heap on pages keeps: the table, and of the state all but the page count.\<close>

definition same_table :: "heap_system \<Rightarrow> heap_system \<Rightarrow> bool" where
  "same_table h h' \<longleftrightarrow> hp_blocks h' = hp_blocks h \<and> hp_block_count h' = hp_block_count h \<and>
     hp_state h' = (hp_state h)\<lparr>hs_mapped_pages := hs_mapped_pages (hp_state h')\<rparr>"

abbreviation heap_store :: "heap_system \<Rightarrow> paging_store" where
  "heap_store h \<equiv> ps_store (hp_paging h)"

abbreviation mapped_pages_of :: "heap_system \<Rightarrow> nat" where
  "mapped_pages_of h \<equiv> hs_mapped_pages (hp_state h)"

lemma same_table_refl [simp]: "same_table h h"
  by (simp add: same_table_def)

lemma same_table_trans: "same_table h h1 \<Longrightarrow> same_table h1 h2 \<Longrightarrow> same_table h h2"
  unfolding same_table_def by (metis heap_state.surjective heap_state.update_convs(7))

lemma same_table_block_count:
  assumes "same_table h h'"
  shows "hs_block_count (hp_state h') = hs_block_count (hp_state h)"
proof -
  have "hp_state h' = (hp_state h)\<lparr>hs_mapped_pages := mapped_pages_of h'\<rparr>" using assms by (simp only: same_table_def)
  from arg_cong [OF this, of hs_block_count] show ?thesis by simp
qed

lemma release_page_backed:
  assumes ok: "paging_ok (hp_paging h)" and bk: "backed (heap_store h) P frame" and k: "k \<in> P" "P \<subseteq> {..<4096}"
    and pages: "0 < mapped_pages_of h" "mapped_pages_of h < 2 ^ 64" and h': "h' = release_page (k * 4096) h"
  shows "paging_ok (hp_paging h') \<and> backed (heap_store h') (P - {k}) frame \<and> same_table h h' \<and>
    mapped_pages_of h' = mapped_pages_of h - 1 \<and>
    (\<forall>va. address_is_canonical va \<longrightarrow>
      leaf_of (heap_store h') va = (if in_heap_pages k (Suc k) va then None else leaf_of (heap_store h) va))"
proof -
  let ?st = "heap_store h"
  have small: "k < 4096" using k by auto
  have page: "foreign ?st (frame k)" "leaf_of ?st (heap_page k) = Some (page_leaf (frame k * 4096) PAGING_WRITE)"
    using bk k(1) by (auto simp: backed_def)
  have address: "add64 HEAP_BASE (k * 4096) = heap_page k" using small by (simp add: no_wrap)
  obtain u p where u: "paging_unmap (heap_page k) 4096 (hp_paging h) = (u, p)" by fastforce
  note U = paging_unmap_view [OF ok u]
  have "small_leaf (leaf_of ?st va)" if "address_is_canonical va" "heap_page k \<le> va" "va < heap_page k + 4096" for va
    using heap_page_leaf(2) [OF small, of va ?st] that page(2) by (simp add: small_leaf_def page_leaf_def)
  then have "fst (unmap_range (heap_page k) 4096 ?st) = PAGING_STATUS_OK"
    using ok heap_page_valid [OF small] by (intro unmap_range_succeeds) (simp_all add: paging_ok_def)
  then have OK: "u = PAGING_STATUS_OK" using u ok by (auto simp: paging_unmap_def paging_ok_def Let_def split: prod.splits)
  let ?F = "snd (frame_release (frame k * 4096) (frames_of p))"
  have foreign: "foreign (ps_store p) g" if "foreign ?st g" for g
    using U that by (simp add: flushed_def spared_def)
  note R = frames_released [of p "frame k" ?F]
  have h': "h' = h\<lparr>hp_paging := set_frames ?F p,
      hp_state := (hp_state h)\<lparr>hs_mapped_pages := sub64 (mapped_pages_of h) 1\<rparr>\<rparr>"
    using heap_page_translation [OF ok page small] u OK unfolding h' release_page_def address
    by (simp add: page_translation_def)
  have "backed (ps_store (set_frames ?F p)) (P - {k}) frame"
    unfolding backed_def
  proof (intro conjI ballI)
    show "inj_on frame (P - {k})" using bk by (auto simp: backed_def intro: inj_on_subset)
    fix j assume j: "j \<in> P - {k}"
    then have "frame j \<noteq> frame k" using bk k(1) by (auto simp: backed_def inj_on_def)
    then show "foreign (ps_store (set_frames ?F p)) (frame j)"
      using R(2) foreign bk j page(1) U by (auto simp: backed_def)
    have "heap_page j < heap_page k \<or> heap_page (Suc k) \<le> heap_page j" using j by auto
    moreover have "address_is_canonical (heap_page j)" using j k by (intro heap_page_canonical) auto
    ultimately show "leaf_of (ps_store (set_frames ?F p)) (heap_page j) = Some (page_leaf (frame j * 4096) PAGING_WRITE)"
      using U bk j by (auto simp: backed_def)
  qed
  then show ?thesis
    using R(1) U foreign [OF page(1)] pages OK unfolding h' by (auto simp: same_table_def no_wrap)
qed

lemma release_range_backed:
  assumes "paging_ok (hp_paging h)" "backed (heap_store h) ({..<m} \<union> {j..<n}) frame" "m \<le> j" "j \<le> n" "n \<le> 4096"
    and "mapped_pages_of h = m + (n - j)" "h' = fold (\<lambda>k. release_page (k * 4096)) [j ..< n] h"
  shows "paging_ok (hp_paging h') \<and> backed (heap_store h') {..<m} frame \<and> same_table h h' \<and> mapped_pages_of h' = m \<and>
    (\<forall>va. address_is_canonical va \<longrightarrow>
      leaf_of (heap_store h') va = (if in_heap_pages j n va then None else leaf_of (heap_store h) va))"
  using assms
proof (induction "n - j" arbitrary: j h)
  case 0
  then show ?case by auto
next
  case (Suc d)
  have j: "j < n" using Suc.hyps(2) by simp
  define h1 where "h1 = release_page (j * 4096) h"
  have sets: "({..<m} \<union> {j..<n}) - {j} = {..<m} \<union> {Suc j..<n}" using Suc.prems(3) by auto
  have pages: "j \<in> {..<m} \<union> {j..<n}" "{..<m} \<union> {j..<n} \<subseteq> {..<4096}" "0 < mapped_pages_of h" "mapped_pages_of h < 2 ^ 64"
    using Suc.prems(3,5,6) j by auto
  have R: "paging_ok (hp_paging h1)" "backed (heap_store h1) ({..<m} \<union> {Suc j..<n}) frame" "same_table h h1"
    "mapped_pages_of h1 = m + (n - Suc j)"
    "\<And>va. address_is_canonical va \<Longrightarrow>
      leaf_of (heap_store h1) va = (if in_heap_pages j (Suc j) va then None else leaf_of (heap_store h) va)"
    using release_page_backed [OF Suc.prems(1,2) pages h1_def] Suc.prems(3,6) j by (simp_all add: sets)
  have "h' = fold (\<lambda>k. release_page (k * 4096)) [Suc j ..< n] h1"
    using Suc.prems(7) j by (simp add: upt_conv_Cons h1_def)
  from Suc.hyps(1) [OF _ R(1,2) _ _ Suc.prems(5) R(4) this] Suc.hyps(2) Suc.prems(3) j
  have I: "paging_ok (hp_paging h')" "backed (heap_store h') {..<m} frame" "same_table h1 h'" "mapped_pages_of h' = m"
    "\<And>va. address_is_canonical va \<Longrightarrow>
      leaf_of (heap_store h') va = (if in_heap_pages (Suc j) n va then None else leaf_of (heap_store h1) va)" by auto
  have "in_heap_pages j n va \<longleftrightarrow> in_heap_pages j (Suc j) va \<or> in_heap_pages (Suc j) n va" for va using j by auto
  then show ?case using I R(5) same_table_trans [OF R(3) I(3)] by auto
qed

lemma release_pages_backed:
  assumes "paging_ok (hp_paging h)" "backed (heap_store h) {..<n} frame" "m \<le> n" "n \<le> 4096"
    and "mapped_pages_of h = n" "h' = release_pages (m * 4096) (n * 4096) h"
  shows "paging_ok (hp_paging h') \<and> backed (heap_store h') {..<m} frame \<and> same_table h h' \<and> mapped_pages_of h' = m \<and>
    (\<forall>va. address_is_canonical va \<longrightarrow>
      leaf_of (heap_store h') va = (if in_heap_pages m n va then None else leaf_of (heap_store h) va))"
proof (rule release_range_backed [OF assms(1) _ le_refl assms(3,4)])
  have "{..<m} \<union> {m..<n} = {..<n}" using assms(3) by auto
  then show "backed (heap_store h) ({..<m} \<union> {m..<n}) frame" using assms(2) by simp
  have "n * 4096 - m * 4096 = (n - m) * 4096" by (simp add: diff_mult_distrib)
  then have "page_offsets (n * 4096 - m * 4096) 4096 = map (\<lambda>j. j * 4096) [0 ..< n - m]" by (simp only: page_offsets_pages)
  moreover have "[m ..< n] = map (\<lambda>j. j + m) [0 ..< n - m]" using assms(3) by (simp add: map_add_upt)
  ultimately show "h' = fold (\<lambda>k. release_page (k * 4096)) [m ..< n] h"
    unfolding assms(6) release_pages_def by (simp add: fold_map comp_def algebra_simps)
  show "mapped_pages_of h = m + (n - m)" using assms(3,5) by simp
qed

section \<open>Committing pages\<close>

lemma commit_page_backed:
  assumes ok: "paging_ok p" and bk: "backed (ps_store p) {..<j} frame" and j: "j < 4096"
    and alloc: "frame_allocate (Some 0) (frames_of p) = (FRAME_STATUS_OK, Some a, F)"
    and map: "paging_map (heap_page j) a 4096 PAGING_WRITE (set_frames F p) = (m, p')"
    and p2: "p2 = (if m = PAGING_STATUS_OK then p' else set_frames (snd (frame_release a (frames_of p'))) p')"
  shows "paging_ok p2 \<and>
    (\<forall>va. address_is_canonical va \<longrightarrow> leaf_of (ps_store p2) va =
      (if m = PAGING_STATUS_OK \<and> in_heap_pages j (Suc j) va then Some (page_leaf a PAGING_WRITE) else leaf_of (ps_store p) va)) \<and>
    (m = PAGING_STATUS_OK \<longrightarrow> (\<exists>frame. backed (ps_store p2) {..<Suc j} frame) \<and>
      (\<forall>va. address_is_canonical va \<longrightarrow> in_heap_pages j (Suc j) va \<longrightarrow> leaf_of (ps_store p) va = None)) \<and>
    (m \<noteq> PAGING_STATUS_OK \<longrightarrow> backed (ps_store p2) {..<j} frame)"
proof -
  obtain f where f: "Some a = Some (f * 4096)" "paging_ok (set_frames F p)" "foreign (ps_store (set_frames F p)) f"
    "\<not> foreign (ps_store p) f" "\<And>g. foreign (ps_store p) g \<Longrightarrow> foreign (ps_store (set_frames F p)) g"
    using ok alloc by (rule frames_allocated) blast
  note M = paging_map_view [OF f(2) map]
  have a: "a = f * 4096" using f(1) by simp
  have spare: "foreign (ps_store p') g" if "foreign (ps_store p) g \<or> g = f" for g
    using M that f(3,5) by (auto simp: flushed_def spared_def)
  have new: "frame k \<noteq> f" "address_is_canonical (heap_page k)" "\<not> in_heap_pages j (Suc j) (heap_page k)" if "k < j" for k
    using bk that f(4) j heap_page_canonical [of k] by (auto simp: backed_def)
  show ?thesis
  proof (cases "m = PAGING_STATUS_OK")
    case True
    have leaf: "leaf_of (ps_store p') va = (if in_heap_pages j (Suc j) va then Some (page_leaf a PAGING_WRITE) else leaf_of (ps_store p) va)"
      if "address_is_canonical va" for va
      using M that True by auto
    have "leaf_of (ps_store p') (heap_page j) = Some (page_leaf (f * 4096) PAGING_WRITE)"
      using leaf [OF heap_page_canonical [of j]] j a by simp
    moreover have "inj_on (frame(j := f)) {..<Suc j}"
    proof -
      have "inj_on frame {..<j}" "f \<notin> frame ` {..<j}" using bk new(1) by (auto simp: backed_def)
      then show ?thesis unfolding lessThan_Suc by (auto simp: inj_on_fun_updI)
    qed
    ultimately have "backed (ps_store p') {..<Suc j} (frame(j := f))"
      using bk spare new(2,3) leaf unfolding backed_def by (auto simp: less_Suc_eq)
    moreover have "leaf_of (ps_store p) va = None" if "address_is_canonical va" "in_heap_pages j (Suc j) va" for va
    proof -
      obtain st1 where "map_range (heap_page j) a 4096 PAGING_WRITE 1 (ps_store (set_frames F p)) = (PAGING_STATUS_OK, st1)"
        using M True by (metis prod.collapse)
      then obtain n where "(4096 :: nat) = n * 4096"
        "\<And>va'. address_is_canonical va' \<Longrightarrow> in_pages (heap_page j) 0 n va' \<Longrightarrow> leaf_of (ps_store (set_frames F p)) va' = None"
        using f(2) by (auto simp: paging_ok_def elim: map_range_OK)
      then show ?thesis using that by (auto simp: in_pages_def)
    qed
    ultimately show ?thesis using M True leaf by (auto simp: p2)
  next
    case False
    have p2': "p2 = set_frames (snd (frame_release (f * 4096) (frames_of p'))) p'" using False by (simp add: p2 a)
    note R = frames_released [OF _ _ refl, of p' f]
    have "backed (ps_store p2) {..<j} frame"
      using bk new M R(2) spare False unfolding backed_def p2' by auto
    then show ?thesis using R(1) M spare False by (auto simp: p2')
  qed
qed


lemma commit_unwind:
  assumes "paging_ok p" "backed (ps_store p) {..<j} frame"
    and "\<And>va. address_is_canonical va \<Longrightarrow> leaf_of (ps_store p) va = leaf_of (heap_store h) va"
    and "m \<le> j" "j < 4096" "mapped_pages_of h = j" "h' = release_pages (m * 4096) (j * 4096) (h\<lparr>hp_paging := p\<rparr>)"
  shows "paging_ok (hp_paging h') \<and> same_table h h' \<and> (\<exists>frame. backed (heap_store h') {..<m} frame) \<and>
    mapped_pages_of h' = m \<and> (\<forall>va. address_is_canonical va \<longrightarrow>
      leaf_of (heap_store h') va = (if in_heap_pages m j va then None else leaf_of (heap_store h) va))"
  using release_pages_backed [of "h\<lparr>hp_paging := p\<rparr>" j frame m h'] assms by (auto simp: same_table_def)

lemma commit_offsets_backed:
  assumes "paging_ok (hp_paging h)" "backed (heap_store h) {..<j} frame" "m \<le> j" "j \<le> n" "n \<le> 4096"
    and "mapped_pages_of h = j" "commit_offsets (m * 4096) (map (\<lambda>k. k * 4096) [j ..< n]) h = (status, h')"
  shows "paging_ok (hp_paging h') \<and> same_table h h' \<and>
    (\<exists>frame. backed (heap_store h') {..<if status = HEAP_STATUS_OK then n else m} frame) \<and>
    mapped_pages_of h' = (if status = HEAP_STATUS_OK then n else m) \<and>
    (\<forall>va. address_is_canonical va \<longrightarrow>
      (if status = HEAP_STATUS_OK then in_heap_pages j n va \<or> leaf_of (heap_store h') va = leaf_of (heap_store h) va
       else leaf_of (heap_store h') va = (if in_heap_pages m j va then None else leaf_of (heap_store h) va)))"
  using assms
proof (induction "n - j" arbitrary: j h frame)
  case 0
  then show ?case by auto
next
  case (Suc d)
  have j: "j < n" "j < 4096" using Suc.hyps(2) Suc.prems(5) by simp_all
  have address: "add64 HEAP_BASE (j * 4096) = heap_page j" using j(2) by (simp add: no_wrap)
  obtain s a F where alloc: "frame_allocate (Some 0) (frames_of (hp_paging h)) = (s, a, F)" by (cases "frame_allocate (Some 0) (frames_of (hp_paging h))") auto
  have offsets: "map (\<lambda>k. k * 4096) [j ..< n] = j * 4096 # map (\<lambda>k. k * 4096) [Suc j ..< n]" using j by (simp add: upt_conv_Cons)
  note call = Suc.prems(7) [unfolded offsets, simplified, unfolded alloc address]
  show ?case
  proof (cases "s = FRAME_STATUS_OK")
    case False
    then have "set_frames F (hp_paging h) = hp_paging h" using alloc frames_refused by blast
    then have "status \<noteq> HEAP_STATUS_OK" "h' = release_pages (m * 4096) (j * 4096) (h\<lparr>hp_paging := hp_paging h\<rparr>)"
      using call False by (simp_all add: Let_def)
    then show ?thesis using commit_unwind [OF Suc.prems(1,2) _ Suc.prems(3) j(2) Suc.prems(6)] by simp
  next
    case True
    then obtain a' where a': "a = Some a'" using alloc by (auto elim: frame_allocate_OK)
    obtain mp p' where map: "paging_map (heap_page j) a' 4096 PAGING_WRITE (set_frames F (hp_paging h)) = (mp, p')" by fastforce
    define p2 where "p2 = (if mp = PAGING_STATUS_OK then p' else set_frames (snd (frame_release a' (frames_of p'))) p')"
    note C = commit_page_backed [OF Suc.prems(1,2) j(2) alloc [unfolded True a'] map p2_def]
    show ?thesis
    proof (cases "mp = PAGING_STATUS_OK")
      case False
      then have "status \<noteq> HEAP_STATUS_OK" "h' = release_pages (m * 4096) (j * 4096) (h\<lparr>hp_paging := p2\<rparr>)"
        using call True map a' by (simp_all add: Let_def p2_def)
      then show ?thesis using commit_unwind [of p2 j frame h m h'] C False Suc.prems(3,6) j(2) by simp
    next
      case OK: True
      define h1 where "h1 = h\<lparr>hp_paging := p2, hp_state := (hp_state h)\<lparr>hs_mapped_pages := Suc j\<rparr>\<rparr>"
      have rest: "commit_offsets (m * 4096) (map (\<lambda>k. k * 4096) [Suc j ..< n]) h1 = (status, h')"
        using call True map a' OK Suc.prems(6) j(2) by (simp add: Let_def p2_def h1_def no_wrap)
      obtain frame' where h1: "paging_ok (hp_paging h1)" "backed (heap_store h1) {..<Suc j} frame'" "mapped_pages_of h1 = Suc j" "same_table h h1"
        using C OK by (auto simp: h1_def same_table_def)
      have leaf: "leaf_of (heap_store h1) va = (if in_heap_pages j (Suc j) va then Some (page_leaf a' PAGING_WRITE) else leaf_of (heap_store h) va)"
        "in_heap_pages j (Suc j) va \<Longrightarrow> leaf_of (heap_store h) va = None" if "address_is_canonical va" for va
        using C OK that by (simp_all add: h1_def)
      have "d = n - Suc j" "m \<le> Suc j" "Suc j \<le> n" using Suc.hyps(2) Suc.prems(3) j by simp_all
      note IH = Suc.hyps(1) [OF this(1) h1(1,2) this(2,3) Suc.prems(5) h1(3) rest]
      have I: "paging_ok (hp_paging h') \<and> same_table h1 h' \<and>
        (\<exists>frame. backed (heap_store h') {..<if status = HEAP_STATUS_OK then n else m} frame) \<and>
        mapped_pages_of h' = (if status = HEAP_STATUS_OK then n else m)"
        and L: "\<And>va. address_is_canonical va \<Longrightarrow>
          (if status = HEAP_STATUS_OK then in_heap_pages (Suc j) n va \<or> leaf_of (heap_store h') va = leaf_of (heap_store h1) va
           else leaf_of (heap_store h') va = (if in_heap_pages m (Suc j) va then None else leaf_of (heap_store h1) va))"
        using IH by blast+
      have "if status = HEAP_STATUS_OK then in_heap_pages j n va \<or> leaf_of (heap_store h') va = leaf_of (heap_store h) va
          else leaf_of (heap_store h') va = (if in_heap_pages m j va then None else leaf_of (heap_store h) va)"
        if "address_is_canonical va" for va
        using L [OF that] leaf [OF that] j(1) Suc.prems(3) by (auto split: if_splits)
      then show ?thesis using I same_table_trans [OF h1(4)] by blast
    qed
  qed
qed


text \<open>Committing either backs every page of the range or leaves every translation as it was.\<close>

lemma commit_pages_backed:
  assumes "paging_ok (hp_paging h)" "backed (heap_store h) {..<m} frame" "m \<le> n" "n \<le> 4096"
    and "mapped_pages_of h = m" "commit_pages (m * 4096) (n * 4096) h = (status, h')"
  shows "paging_ok (hp_paging h')" "same_table h h'"
    "\<exists>frame. backed (heap_store h') {..<if status = HEAP_STATUS_OK then n else m} frame"
    "mapped_pages_of h' = (if status = HEAP_STATUS_OK then n else m)"
    "address_is_canonical va \<Longrightarrow> status = HEAP_STATUS_OK \<and> in_heap_pages m n va \<or>
      leaf_of (heap_store h') va = leaf_of (heap_store h) va"
proof -
  have "n * 4096 - m * 4096 = (n - m) * 4096" by (simp add: diff_mult_distrib)
  then have "page_offsets (n * 4096 - m * 4096) 4096 = map (\<lambda>j. j * 4096) [0 ..< n - m]" by (simp only: page_offsets_pages)
  moreover have "[m ..< n] = map (\<lambda>j. j + m) [0 ..< n - m]" using assms(3) by (simp add: map_add_upt)
  ultimately have "commit_offsets (m * 4096) (map (\<lambda>k. k * 4096) [m ..< n]) h = (status, h')"
    using assms(6) unfolding commit_pages_def by (simp add: comp_def algebra_simps)
  note C = commit_offsets_backed [OF assms(1,2) le_refl assms(3-5) this]
  show "paging_ok (hp_paging h')" "same_table h h'"
    "\<exists>frame. backed (heap_store h') {..<if status = HEAP_STATUS_OK then n else m} frame"
    "mapped_pages_of h' = (if status = HEAP_STATUS_OK then n else m)" using C by blast+
  show "status = HEAP_STATUS_OK \<and> in_heap_pages m n va \<or> leaf_of (heap_store h') va = leaf_of (heap_store h) va"
    if "address_is_canonical va" using C that by (cases "status = HEAP_STATUS_OK") auto
qed

end
