(* ===== verification/Heap_Runs.thy ===== *)
theory Heap_Runs
  imports Heap_Pages
begin

text \<open>
  What the calls of the heap guarantee. \<open>heap_ok\<close> ties the table of blocks to the pages under it and is kept by
  every call; the heap is a \<open>restoring_allocator\<close>, and the guarantees over sequences of calls come from there.
\<close>

section \<open>Well-formed heaps\<close>

definition heap_ok :: "heap_system \<Rightarrow> bool" where
  "heap_ok h \<longleftrightarrow>
     hs_active (hp_state h) \<and> length (hp_blocks h) = HEAP_MAX_BLOCKS \<and> hp_block_count h \<le> HEAP_MAX_BLOCKS \<and>
     (let committed = hs_committed_bytes (hp_state h) in
      committed \<le> HEAP_SIZE \<and> 4096 dvd committed \<and> mapped_pages_of h = committed div 4096 \<and>
      tiling 16 committed (heap_table h) \<and> (\<exists>frame. backed (heap_store h) {..<committed div 4096} frame)) \<and>
     paging_ok (hp_paging h) \<and> leaf_of (heap_store h) HEAP_GUARD_BELOW = None \<and> leaf_of (heap_store h) HEAP_GUARD_ABOVE = None"

text \<open>The counters the heap reports are those of the table.\<close>

definition heap_counted :: "heap_system \<Rightarrow> bool" where
  "heap_counted h \<longleftrightarrow> hs_block_count (hp_state h) = hp_block_count h \<and>
     hs_allocated_bytes (hp_state h) = used_bytes (heap_table h) \<and>
     hs_live_allocations (hp_state h) = count_if bk_used (heap_table h)"

text \<open>The address ranges in use.\<close>

definition heap_live :: "heap_system \<Rightarrow> (nat \<times> nat) set" where
  "heap_live h = map_prod (\<lambda>offset. HEAP_BASE + offset) id ` live_spans (heap_table h)"

abbreviation committed_of :: "heap_system \<Rightarrow> nat" where
  "committed_of h \<equiv> hs_committed_bytes (hp_state h)"

lemma heap_okD:
  assumes "heap_ok h"
  shows "hs_active (hp_state h)" "length (hp_blocks h) = 256" "hp_block_count h \<le> 256" "committed_of h \<le> 0x1000000"
    "4096 dvd committed_of h" "mapped_pages_of h = committed_of h div 4096" "tiling 16 (committed_of h) (heap_table h)"
    "\<exists>frame. backed (heap_store h) {..<committed_of h div 4096} frame" "paging_ok (hp_paging h)"
    "leaf_of (heap_store h) HEAP_GUARD_BELOW = None" "leaf_of (heap_store h) HEAP_GUARD_ABOVE = None"
  using assms by (simp_all add: heap_ok_def Let_def)

lemma refresh_counts:
  assumes "tiling 16 limit (heap_table h)" "limit \<le> 0x1000000" "hp_block_count h \<le> 256"
  shows "refresh_state h = h\<lparr>hp_state := (hp_state h)\<lparr>hs_block_count := hp_block_count h,
      hs_allocated_bytes := used_bytes (heap_table h), hs_live_allocations := count_if bk_used (heap_table h)\<rparr>\<rparr>"
    and "fold count_block (heap_table h) (0, 0) = (used_bytes (heap_table h), count_if bk_used (heap_table h))"
proof -
  have "used_bytes (heap_table h) \<le> limit" using assms(1) tiles_used_bytes [of 0 "heap_table h" limit] by (simp add: tiling_def)
  then show count: "fold count_block (heap_table h) (0, 0) = (used_bytes (heap_table h), count_if bk_used (heap_table h))"
    using fold_count_block [of 0 "heap_table h" 0] assms(2,3) by (simp add: heap_table_def)
  then show "refresh_state h = h\<lparr>hp_state := (hp_state h)\<lparr>hs_block_count := hp_block_count h,
      hs_allocated_bytes := used_bytes (heap_table h), hs_live_allocations := count_if bk_used (heap_table h)\<rparr>\<rparr>"
    by (simp add: refresh_state_def heap_table_def)
qed

text \<open>Replacing the table of a well-formed heap by another one over the same range.\<close>

lemma heap_ok_table:
  assumes "heap_ok h" "length blocks = 256" "count \<le> 256" "tiling 16 (committed_of h) (take count blocks)"
    and "h' = refresh_state (h\<lparr>hp_blocks := blocks, hp_block_count := count\<rparr>)"
  shows "heap_ok h'" "heap_counted h'" "heap_table h' = take count blocks" "committed_of h' = committed_of h"
proof -
  let ?h = "h\<lparr>hp_blocks := blocks, hp_block_count := count\<rparr>"
  note D = heap_okD [OF assms(1)]
  have h': "h' = ?h\<lparr>hp_state := (hp_state ?h)\<lparr>hs_block_count := hp_block_count ?h,
      hs_allocated_bytes := used_bytes (heap_table ?h), hs_live_allocations := count_if bk_used (heap_table ?h)\<rparr>\<rparr>"
    unfolding assms(5) using assms(3,4) D(4) by (intro refresh_counts) (simp_all add: heap_table_def)
  then show "heap_table h' = take count blocks" "committed_of h' = committed_of h" by (simp_all add: heap_table_def)
  then show "heap_ok h'" "heap_counted h'"
    using assms(1-4) h' by (simp_all add: heap_ok_def heap_counted_def heap_table_def Let_def)
qed

lemma find_fit_split:
  assumes "find_fit (hp_blocks h) (hp_block_count h) bytes = Some index"
  obtains us b vs where "heap_table h = us @ b # vs" "length us = index" "\<not> bk_used b" "bytes \<le> bk_size b"
proof -
  note F = first_index_SomeD [OF assms [unfolded find_fit_def, folded heap_table_def]]
  then have "heap_table h = take index (heap_table h) @ heap_table h ! index # drop (Suc index) (heap_table h)"
    by (simp add: id_take_nth_drop)
  then show thesis using F by (intro that [of "take index (heap_table h)" "heap_table h ! index" "drop (Suc index) (heap_table h)"]) auto
qed

section \<open>Growing\<close>

lemma tiling_extend:
  assumes "tiling g limit (us @ [b])" "\<not> bk_used b" "g dvd n"
  shows "tiling g (limit + n) (us @ [b\<lparr>bk_size := bk_size b + n\<rparr>])"
  using assms by (auto simp: tiling_def tiles_append coalesced_append)

lemma tiling_append:
  assumes "tiling g limit xs" "xs = [] \<or> bk_used (last xs)" "g dvd n" "0 < n"
  shows "tiling g (limit + n) (xs @ [\<lparr>bk_offset = limit, bk_size = n, bk_used = False\<rparr>])"
  using assms by (auto simp: tiling_def tiles_append coalesced_append)


lemma commit_heap:
  assumes ok: "heap_ok h" and n: "4096 dvd n" "committed_of h + n \<le> 0x1000000"
    and call: "commit_pages (committed_of h) (committed_of h + n) h = (status, h1)"
  shows "same_table h h1" "paging_ok (hp_paging h1)"
    "mapped_pages_of h1 = (if status = HEAP_STATUS_OK then (committed_of h + n) div 4096 else mapped_pages_of h)"
    "\<exists>frame. backed (heap_store h1) {..<if status = HEAP_STATUS_OK then (committed_of h + n) div 4096 else committed_of h div 4096} frame"
    "leaf_of (heap_store h1) HEAP_GUARD_BELOW = None" "leaf_of (heap_store h1) HEAP_GUARD_ABOVE = None"
proof -
  note D = heap_okD [OF ok]
  obtain m j where m: "committed_of h = m * 4096" "n = j * 4096" using D(5) n(1) by (metis dvd_def mult.commute)
  obtain frame where bk: "backed (heap_store h) {..<m} frame" using D(8) m(1) by auto
  have call': "commit_pages (m * 4096) ((m + j) * 4096) h = (status, h1)" using call m by (simp add: algebra_simps)
  have bound: "m \<le> m + j" "m + j \<le> 4096" "mapped_pages_of h = m" using n(2) m D(6) by simp_all
  note C = commit_pages_backed [OF D(9) bk bound call']
  have div: "(committed_of h + n) div 4096 = m + j" "committed_of h div 4096 = m" using m by simp_all
  show "same_table h h1" "paging_ok (hp_paging h1)"
    "mapped_pages_of h1 = (if status = HEAP_STATUS_OK then (committed_of h + n) div 4096 else mapped_pages_of h)"
    "\<exists>frame. backed (heap_store h1) {..<if status = HEAP_STATUS_OK then (committed_of h + n) div 4096 else committed_of h div 4096} frame"
    using C(1-4) div bound(3) by auto
  show "leaf_of (heap_store h1) HEAP_GUARD_BELOW = None" using C(5) [of HEAP_GUARD_BELOW] D(10) by (simp add: canonical_iff)
  show "leaf_of (heap_store h1) HEAP_GUARD_ABOVE = None" using C(5) [of HEAP_GUARD_ABOVE] D(11) bound(2) by (simp add: canonical_iff)
qed

text \<open>How far the heap grows for a request that fits no free block.\<close>

definition trailing_bytes :: "block list \<Rightarrow> nat" where
  "trailing_bytes xs = (if xs \<noteq> [] \<and> \<not> bk_used (last xs) then bk_size (last xs) else 0)"

lemma table_last:
  assumes "heap_ok h"
  shows "0 < hp_block_count h \<longleftrightarrow> heap_table h \<noteq> []"
    "heap_table h \<noteq> [] \<Longrightarrow> hp_blocks h ! (hp_block_count h - 1) = last (heap_table h)"
    "length (heap_table h) = hp_block_count h"
  using heap_okD(2,3) [OF assms] by (auto simp: heap_table_def last_conv_nth)

lemma growth_bounds:
  assumes "heap_ok h" "0 < bytes" "bytes \<le> 0x1000000" "find_fit (hp_blocks h) (hp_block_count h) bytes = None"
  defines "n \<equiv> align_up (bytes - trailing_bytes (heap_table h)) 4096"
  shows "trailing_bytes (heap_table h) < bytes" "4096 dvd n" "bytes \<le> trailing_bytes (heap_table h) + n" "0 < n"
    "n < 0x2000000"
proof -
  have "bk_size (last (heap_table h)) < bytes" if "heap_table h \<noteq> []" "\<not> bk_used (last (heap_table h))"
    using assms(4) that unfolding find_fit_def heap_table_def [symmetric] first_index_None_iff by force
  then show t: "trailing_bytes (heap_table h) < bytes" using assms(2) by (auto simp: trailing_bytes_def)
  have "(4096 :: nat) = 2 ^ 12" "(12 :: nat) \<le> 63" "bytes - trailing_bytes (heap_table h) + 4096 \<le> 2 ^ 64"
    using assms(3) by simp_all
  note A = align_up_bounds [OF this]
  show "4096 dvd n" unfolding n_def by (rule A(1))
  show "bytes \<le> trailing_bytes (heap_table h) + n" "0 < n" "n < 0x2000000"
    using A(2,3) t assms(3) unfolding n_def by linarith+
qed

lemma grow_for_eq:
  assumes "heap_ok h" "0 < bytes" "bytes \<le> 0x1000000" "find_fit (hp_blocks h) (hp_block_count h) bytes = None"
    and "n = align_up (bytes - trailing_bytes (heap_table h)) 4096"
    and "ext_last = (heap_table h \<noteq> [] \<and> \<not> bk_used (last (heap_table h)))"
  shows "grow_for bytes h =
    (if n > 0x1000000 - committed_of h then (Inl HEAP_STATUS_OUT_OF_MEMORY, h)
     else if \<not> ext_last \<and> hp_block_count h = 256 then (Inl HEAP_STATUS_OUT_OF_BLOCKS, h)
     else
       (case commit_pages (committed_of h) (committed_of h + n) h of
          (status, h1) \<Rightarrow>
            if status \<noteq> HEAP_STATUS_OK then (Inl status, h1)
            else
              (let count = hp_block_count h; blocks = hp_blocks h;
                   (blocks1, count1) =
                     (if ext_last then (blocks[count - 1 := (last (heap_table h))\<lparr>bk_size := bk_size (last (heap_table h)) + n\<rparr>], count)
                      else (blocks[count := \<lparr>bk_offset = committed_of h, bk_size = n, bk_used = False\<rparr>], count + 1)) in
               (Inr (count1 - 1), h1\<lparr>hp_blocks := blocks1, hp_block_count := count1,
                    hp_state := (hp_state h1)\<lparr>hs_committed_bytes := committed_of h + n\<rparr>\<rparr>))))"
proof -
  note D = heap_okD [OF assms(1)] and L = table_last [OF assms(1)]
  note B = growth_bounds [OF assms(1-4), folded assms(5)]
  have sub: "sub64 bytes (trailing_bytes (heap_table h)) = bytes - trailing_bytes (heap_table h)"
    "sub64 0x1000000 (committed_of h) = 0x1000000 - committed_of h" "add64 (committed_of h) n = committed_of h + n"
    using B(1,5) assms(3) D(4) by (simp_all add: no_wrap)
  have count: "add64 (hp_block_count h) 1 = hp_block_count h + 1" "sub64 (hp_block_count h + 1) 1 = hp_block_count h"
    "ext_last \<Longrightarrow> sub64 (hp_block_count h) 1 = hp_block_count h - 1"
    using D(3) L(1) assms(6) by (simp_all add: no_wrap)
  have ext: "(0 < hp_block_count h \<and> \<not> bk_used (hp_blocks h ! (hp_block_count h - 1))) = ext_last" using L assms(6) by auto
  have trail: "(if ext_last then bk_size (hp_blocks h ! (hp_block_count h - 1)) else 0) = trailing_bytes (heap_table h)"
    using L(2) assms(6) by (auto simp: trailing_bytes_def)
  have "add64 (bk_size (last (heap_table h))) n = bk_size (last (heap_table h)) + n" if ext_last
    using that B(1,5) assms(3,6) by (simp add: no_wrap trailing_bytes_def)
  then show ?thesis
    using L(2) assms(6) count
    unfolding grow_for_def Let_def ext trail sub assms(5) [symmetric]
    by (cases ext_last) (auto split: prod.splits)
qed


lemma live_last:
  assumes "xs \<noteq> []" "\<not> bk_used (last xs)"
  shows "live_spans (butlast xs @ [b]) = (if bk_used b then {(bk_offset b, bk_size b)} else {}) \<union> live_spans xs"
    "\<not> bk_used b \<Longrightarrow> used_bytes (butlast xs @ [b]) = used_bytes xs"
    "\<not> bk_used b \<Longrightarrow> count_if bk_used (butlast xs @ [b]) = count_if bk_used xs"
proof -
  have xs: "xs = butlast xs @ [last xs]" using assms(1) by simp
  show "live_spans (butlast xs @ [b]) = (if bk_used b then {(bk_offset b, bk_size b)} else {}) \<union> live_spans xs"
    by (subst (2) xs) (use assms(2) in auto)
  show "\<not> bk_used b \<Longrightarrow> used_bytes (butlast xs @ [b]) = used_bytes xs" by (subst (2) xs) (use assms(2) in auto)
  show "\<not> bk_used b \<Longrightarrow> count_if bk_used (butlast xs @ [b]) = count_if bk_used xs" by (subst (2) xs) (use assms(2) in auto)
qed

text \<open>The table after growth: its last block is free and large enough, and nothing in use has changed.\<close>

lemma grown_table:
  assumes ok: "heap_ok h" and n: "16 dvd n" "0 < n" and room: "ext_last \<or> hp_block_count h < 256"
    and ext_last: "ext_last = (heap_table h \<noteq> [] \<and> \<not> bk_used (last (heap_table h)))"
    and new: "(if ext_last then ((hp_blocks h)[hp_block_count h - 1 := (last (heap_table h))\<lparr>bk_size := bk_size (last (heap_table h)) + n\<rparr>],
          hp_block_count h)
        else ((hp_blocks h)[hp_block_count h := \<lparr>bk_offset = committed_of h, bk_size = n, bk_used = False\<rparr>], hp_block_count h + 1)) = (blocks, count)"
  obtains us b where "take count blocks = us @ [b]" "length us = count - 1" "\<not> bk_used b" "bk_size b = trailing_bytes (heap_table h) + n"
    "tiling 16 (committed_of h + n) (take count blocks)" "length blocks = 256" "0 < count" "count \<le> 256"
    "live_spans (take count blocks) = live_spans (heap_table h)" "used_bytes (take count blocks) = used_bytes (heap_table h)"
    "count_if bk_used (take count blocks) = count_if bk_used (heap_table h)"
proof (cases ext_last)
  case True
  let ?xs = "heap_table h" and ?b = "(last (heap_table h))\<lparr>bk_size := bk_size (last (heap_table h)) + n\<rparr>"
  note D = heap_okD [OF ok] and L = table_last [OF ok]
  have xs: "?xs \<noteq> []" "\<not> bk_used (last ?xs)" using True ext_last by auto
  have split: "take (hp_block_count h) (hp_blocks h) = butlast ?xs @ last ?xs # []" using xs(1) by (simp add: heap_table_def)
  have len: "length (butlast ?xs) = hp_block_count h - 1" using L(3) by simp
  have bc: "blocks = (hp_blocks h)[length (butlast ?xs) := ?b]" "count = hp_block_count h" using new True len by auto
  have table: "take count blocks = butlast ?xs @ [?b]" unfolding bc by (rule take_update [OF split])
  have "tiling 16 (committed_of h) (butlast ?xs @ [last ?xs])" using D(7) xs(1) by simp
  from tiling_extend [OF this xs(2) n(1)] have "tiling 16 (committed_of h + n) (take count blocks)" unfolding table .
  then show thesis
    using live_last [OF xs, of ?b, folded table] L D(2,3) len xs
    by (intro that [OF table]) (simp_all add: bc trailing_bytes_def)
next
  case False
  let ?xs = "heap_table h" and ?b = "\<lparr>bk_offset = committed_of h, bk_size = n, bk_used = False\<rparr>"
  note D = heap_okD [OF ok] and L = table_last [OF ok]
  have bc: "blocks = (hp_blocks h)[hp_block_count h := ?b]" "count = hp_block_count h + 1" using new False by auto
  have table: "take count blocks = ?xs @ [?b]"
    using room False D(2) by (simp add: bc heap_table_def take_Suc_conv_app_nth)
  have "tiling 16 (committed_of h + n) (take count blocks)"
    unfolding table by (rule tiling_append [OF D(7) _ n]) (use False ext_last in auto)
  moreover have "live_spans (take count blocks) = live_spans ?xs" "used_bytes (take count blocks) = used_bytes ?xs"
    "count_if bk_used (take count blocks) = count_if bk_used ?xs" unfolding table by simp_all
  moreover have "trailing_bytes ?xs = 0" using False ext_last by (auto simp: trailing_bytes_def)
  ultimately show thesis
    using L(3) D(2) room False by (intro that [OF table]) (simp_all add: bc)
qed

lemma grow_for_ok:
  assumes ok: "heap_ok h" and bytes: "0 < bytes" "bytes \<le> 0x1000000" "16 dvd bytes"
    and nofit: "find_fit (hp_blocks h) (hp_block_count h) bytes = None" and call: "grow_for bytes h = (r, h')"
  shows "heap_ok h'"
    and "r = Inl s \<Longrightarrow> s \<noteq> HEAP_STATUS_OK \<and> hp_blocks h' = hp_blocks h \<and> hp_block_count h' = hp_block_count h \<and> hp_state h' = hp_state h"
    and "r = Inr i \<Longrightarrow> \<exists>us b. heap_table h' = us @ [b] \<and> length us = i \<and> \<not> bk_used b \<and> bytes \<le> bk_size b \<and>
      live_spans (heap_table h') = live_spans (heap_table h) \<and> committed_of h < committed_of h'"
proof -
  let ?n = "align_up (bytes - trailing_bytes (heap_table h)) 4096"
  let ?ext = "heap_table h \<noteq> [] \<and> \<not> bk_used (last (heap_table h))"
  note D = heap_okD [OF ok] and B = growth_bounds [OF ok bytes(1,2) nofit]
  note call' = call [unfolded grow_for_eq [OF ok bytes(1,2) nofit refl refl]]
  have "heap_ok h' \<and>
    (\<forall>s. r = Inl s \<longrightarrow> s \<noteq> HEAP_STATUS_OK \<and> hp_blocks h' = hp_blocks h \<and> hp_block_count h' = hp_block_count h \<and> hp_state h' = hp_state h) \<and>
    (\<forall>i. r = Inr i \<longrightarrow> (\<exists>us b. heap_table h' = us @ [b] \<and> length us = i \<and> \<not> bk_used b \<and> bytes \<le> bk_size b \<and>
      live_spans (heap_table h') = live_spans (heap_table h) \<and> committed_of h < committed_of h'))"
  proof (cases "?n > 0x1000000 - committed_of h \<or> \<not> ?ext \<and> hp_block_count h = 256")
    case True
    then show ?thesis using call' ok by (auto split: if_splits)
  next
    case False
    note some = False
    then have n: "committed_of h + ?n \<le> 0x1000000" and room: "?ext \<or> hp_block_count h < 256" using D(3,4) by auto
    obtain status h1 where commit: "commit_pages (committed_of h) (committed_of h + ?n) h = (status, h1)" by fastforce
    note C = commit_heap [OF ok B(2) n commit]
    show ?thesis
    proof (cases "status = HEAP_STATUS_OK")
      case False
      then have h': "h' = h1" "r = Inl status" using call' commit some by (auto split: if_splits)
      have state: "hp_state h1 = hp_state h" "hp_blocks h1 = hp_blocks h" "hp_block_count h1 = hp_block_count h"
        using C(1,3) False by (auto simp: same_table_def)
      then have "heap_ok h1" using ok C False by (auto simp: heap_ok_def heap_table_def Let_def)
      then show ?thesis using h' state False by simp
    next
      case OK: True
      obtain blocks count where new: "(if ?ext then ((hp_blocks h)[hp_block_count h - 1 := (last (heap_table h))\<lparr>bk_size := bk_size (last (heap_table h)) + ?n\<rparr>],
          hp_block_count h)
        else ((hp_blocks h)[hp_block_count h := \<lparr>bk_offset = committed_of h, bk_size = ?n, bk_used = False\<rparr>], hp_block_count h + 1)) = (blocks, count)"
        by fastforce
      have h': "r = Inr (count - 1)" "h' = h1\<lparr>hp_blocks := blocks, hp_block_count := count,
          hp_state := (hp_state h1)\<lparr>hs_committed_bytes := committed_of h + ?n\<rparr>\<rparr>"
        using call' commit OK some new by (auto simp: Let_def split: if_splits)
      have "16 dvd ?n" using B(2) by (rule dvd_trans [rotated]) simp
      then obtain us b where G: "take count blocks = us @ [b]" "length us = count - 1" "\<not> bk_used b" "bk_size b = trailing_bytes (heap_table h) + ?n"
        "tiling 16 (committed_of h + ?n) (take count blocks)" "length blocks = 256" "count \<le> 256"
        "live_spans (take count blocks) = live_spans (heap_table h)"
        using grown_table [OF ok _ B(4) room refl new] by metis
      have "heap_ok h'"
        using C OK G(5-7) n B(2) D(1,5) unfolding h'(2) heap_ok_def same_table_def by (auto simp: heap_table_def Let_def)
      then show ?thesis using G B(3,4) h' by (auto simp: heap_table_def)
    qed
  qed
  then show "heap_ok h'"
    and "r = Inl s \<Longrightarrow> s \<noteq> HEAP_STATUS_OK \<and> hp_blocks h' = hp_blocks h \<and> hp_block_count h' = hp_block_count h \<and> hp_state h' = hp_state h"
    and "r = Inr i \<Longrightarrow> \<exists>us b. heap_table h' = us @ [b] \<and> length us = i \<and> \<not> bk_used b \<and> bytes \<le> bk_size b \<and>
      live_spans (heap_table h') = live_spans (heap_table h) \<and> committed_of h < committed_of h'" by blast+
qed


section \<open>Allocating\<close>

lemma request_bounds:
  assumes "0 < bytes" "bytes \<le> 0x1000000"
  shows "16 dvd align_up bytes 16" "bytes \<le> align_up bytes 16" "align_up bytes 16 < bytes + 16" "align_up bytes 16 \<le> 0x1000000"
proof -
  have "(16 :: nat) = 2 ^ 4" "(4 :: nat) \<le> 63" "bytes + 16 \<le> 2 ^ 64" using assms(2) by simp_all
  note A = align_up_bounds [OF this]
  show "16 dvd align_up bytes 16" "bytes \<le> align_up bytes 16" "align_up bytes 16 < bytes + 16" by (rule A)+
  show "align_up bytes 16 \<le> 0x1000000" by (rule A(4) [OF _ assms(2)]) simp
qed

text \<open>The block a request is taken from: a free block that is there, or the last one of a grown heap.\<close>

lemma heap_source:
  assumes ok: "heap_ok h" and n: "0 < n" "n \<le> 0x1000000" "16 dvd n"
    and call: "(case find_fit (hp_blocks h) (hp_block_count h) n of Some index \<Rightarrow> (Inr index, h) | None \<Rightarrow> grow_for n h) = (r, h1)"
  obtains (refused) s where "r = Inl s" "s \<noteq> HEAP_STATUS_OK" "heap_ok h1" "heap_table h1 = heap_table h" "hp_state h1 = hp_state h"
      "hp_block_count h1 = hp_block_count h"
    | (found) us b vs where "r = Inr (length us)" "heap_ok h1" "heap_table h1 = us @ b # vs" "\<not> bk_used b" "n \<le> bk_size b"
      "live_spans (heap_table h1) = live_spans (heap_table h)" "h1 = h \<or> committed_of h < committed_of h1"
proof (cases "find_fit (hp_blocks h) (hp_block_count h) n")
  case (Some index)
  obtain us b vs where "heap_table h = us @ b # vs" "length us = index" "\<not> bk_used b" "n \<le> bk_size b"
    using Some by (rule find_fit_split)
  then show thesis using Some call ok by (intro found [of us b vs]) auto
next
  case None
  then have grow: "grow_for n h = (r, h1)" using call by simp
  note G = grow_for_ok [OF ok n None grow]
  show thesis
  proof (cases r)
    case (Inl s)
    then show thesis using G(1) G(2) [OF Inl] by (intro refused [of s]) (simp_all add: heap_table_def)
  next
    case (Inr i)
    then obtain us b where "heap_table h1 = us @ [b]" "length us = i" "\<not> bk_used b" "n \<le> bk_size b"
      "live_spans (heap_table h1) = live_spans (heap_table h)" "committed_of h < committed_of h1"
      using G(3) [OF Inr] by blast
    then show thesis using G(1) Inr by (intro found [of us b "[]"]) simp_all
  qed
qed

text \<open>Taking a request from a free block of the table.\<close>

lemma heap_take:
  assumes ok: "heap_ok h" and xs: "heap_table h = us @ b # vs" "\<not> bk_used b"
    and n: "0 < n" "n \<le> bk_size b" "16 dvd n"
    and split: "split_block (hp_blocks h) (hp_block_count h) (length us) n = (split, blocks, count)"
  shows "split \<Longrightarrow> add64 HEAP_BASE (bk_offset (blocks ! length us)) = HEAP_BASE + bk_offset b"
    and "split \<Longrightarrow> h' = refresh_state (h\<lparr>hp_blocks := blocks, hp_block_count := count\<rparr>) \<Longrightarrow> heap_ok h'"
    and "split \<Longrightarrow> h' = refresh_state (h\<lparr>hp_blocks := blocks, hp_block_count := count\<rparr>) \<Longrightarrow> heap_counted h'"
    and "split \<Longrightarrow> h' = refresh_state (h\<lparr>hp_blocks := blocks, hp_block_count := count\<rparr>) \<Longrightarrow>
      heap_table h' = us @ carve 0 n b @ vs"
    and "split \<Longrightarrow> h' = refresh_state (h\<lparr>hp_blocks := blocks, hp_block_count := count\<rparr>) \<Longrightarrow> committed_of h' = committed_of h"
proof -
  note D = heap_okD [OF ok]
  have "b \<in> set (heap_table h)" using xs by simp
  then have "bk_offset b + bk_size b \<le> committed_of h" "16 dvd bk_size b"
    using D(7) tiles_member [of 0 "heap_table h" "committed_of h" b] by (auto simp: tiling_def list_all_iff)
  then have b: "16 dvd bk_size b" "bk_offset b + bk_size b < 2 ^ 64" "HEAP_BASE + bk_offset b < 2 ^ 64" using D(4) by simp_all
  note S = split_block_carve [OF xs(1) [unfolded heap_table_def] D(2,3) n b(1) xs(2) b(2) split]
  show "add64 HEAP_BASE (bk_offset (blocks ! length us)) = HEAP_BASE + bk_offset b" if split
    using S(5) [OF that] add64_exact [OF b(3)] by simp
  assume ok': split and h': "h' = refresh_state (h\<lparr>hp_blocks := blocks, hp_block_count := count\<rparr>)"
  have "0 + n \<le> bk_size b" "16 dvd (0 :: nat)" "tiling 16 (committed_of h) (us @ b # vs)" using n(2) D(7) xs(1) by simp_all
  from tiling_carve(1) [OF this(3) xs(2) n(1) this(1,2) n(3)]
  have "tiling 16 (committed_of h) (take count blocks)" unfolding S(2) [OF ok'] .
  from heap_ok_table [OF ok S(4) S(3) [OF ok'] this h']
  show "heap_ok h'" "heap_counted h'" "heap_table h' = us @ carve 0 n b @ vs" "committed_of h' = committed_of h"
    using S(2) [OF ok'] by simp_all
qed

lemma heap_allocate_cases:
  assumes ok: "heap_ok h" and call: "heap_allocate bytes (Some d) h = (s, p, h')"
  obtains (refused) "s \<noteq> HEAP_STATUS_OK" "p = Some 0" "heap_ok h'" "live_spans (heap_table h') = live_spans (heap_table h)"
      "heap_counted h \<Longrightarrow> s \<noteq> HEAP_STATUS_OUT_OF_BLOCKS \<Longrightarrow> heap_counted h'"
    | (taken) us b vs where "s = HEAP_STATUS_OK" "p = Some (HEAP_BASE + bk_offset b)" "heap_ok h'" "heap_counted h'"
      "heap_table h' = us @ carve 0 (align_up bytes 16) b @ vs" "tiling 16 (committed_of h') (us @ b # vs)" "\<not> bk_used b"
      "align_up bytes 16 \<le> bk_size b" "live_spans (us @ b # vs) = live_spans (heap_table h)" "0 < bytes" "bytes \<le> 0x1000000"
      "committed_of h' = committed_of h \<Longrightarrow> us @ b # vs = heap_table h"
proof -
  let ?n = "align_up bytes 16"
  consider "\<not> (0 < bytes \<and> bytes \<le> 0x1000000)" | "0 < bytes" "bytes \<le> 0x1000000" by blast
  then show thesis
  proof cases
    case 1
    then have "s \<noteq> HEAP_STATUS_OK \<and> p = Some 0 \<and> h' = h"
      using call heap_okD(1) [OF ok] by (auto simp: heap_allocate_def split: if_splits)
    then show thesis using ok by (intro refused) simp_all
  next
    case 2
    note B = request_bounds [OF 2]
    obtain r h1 where source: "(case find_fit (hp_blocks h) (hp_block_count h) ?n of Some index \<Rightarrow> (Inr index, h) | None \<Rightarrow> grow_for ?n h) = (r, h1)"
      by fastforce
    have call': "(case r of Inl status \<Rightarrow> (status, Some 0, h1)
        | Inr index \<Rightarrow> (case split_block (hp_blocks h1) (hp_block_count h1) index ?n of (split, blocks, count) \<Rightarrow>
            if \<not> split then (HEAP_STATUS_OUT_OF_BLOCKS, Some 0, h1)
            else (HEAP_STATUS_OK, Some (add64 HEAP_BASE (bk_offset (blocks ! index))),
              refresh_state (h1\<lparr>hp_blocks := blocks, hp_block_count := count\<rparr>)))) = (s, p, h')"
      using call 2 B(4) heap_okD(1) [OF ok] source by (simp add: heap_allocate_def Let_def split: sum.splits)
    have n: "0 < ?n" using 2 B(2) by simp
    from ok n B(4,1) source show thesis
    proof (cases rule: heap_source)
      case (refused s')
      then show thesis using call' by (intro that(1)) (simp_all add: heap_counted_def)
    next
      case (found us b vs)
      obtain split blocks count where split: "split_block (hp_blocks h1) (hp_block_count h1) (length us) ?n = (split, blocks, count)"
        using prod_cases3 by blast
      note T = heap_take [OF found(2,3,4) n found(5) B(1) split]
      show thesis
      proof (cases split)
        case False
        then show thesis using call' found split by (intro that(1)) simp_all
      next
        case True
        have h': "h' = refresh_state (h1\<lparr>hp_blocks := blocks, hp_block_count := count\<rparr>)" "s = HEAP_STATUS_OK"
          "p = Some (HEAP_BASE + bk_offset b)"
          using call' found(1) split True T(1) by auto
        note H = T(2-) [OF True h'(1)]
        show thesis
        proof (rule that(2) [OF h'(2,3) H(1,2)])
          show "us @ b # vs = heap_table h" if "committed_of h' = committed_of h" using found(3,7) H(4) that by auto
          show "tiling 16 (committed_of h') (us @ b # vs)" using H(4) heap_okD(7) [OF found(2)] found(3) by simp
        qed (use H found 2 in simp_all)
      qed
    qed
  qed
qed

section \<open>Freeing\<close>

lemma heap_free_used:
  assumes ok: "heap_ok h" and xs: "heap_table h = us @ b # vs" "bk_used b"
    and call: "heap_free (HEAP_BASE + bk_offset b) h = (s, h')"
  shows "s = HEAP_STATUS_OK" "heap_ok h'" "heap_counted h'" "heap_table h' = give_back us b vs" "committed_of h' = committed_of h"
proof -
  note D = heap_okD [OF ok]
  have tiles: "tiles 0 (us @ b # vs) (committed_of h)" using D(7) xs by (simp add: tiling_def)
  then have b: "bk_offset b < committed_of h" using tiles_member [of 0 "us @ b # vs" "committed_of h" b] by simp
  have addr: "add64 HEAP_BASE (committed_of h) = HEAP_BASE + committed_of h" "sub64 (HEAP_BASE + bk_offset b) HEAP_BASE = bk_offset b"
    using D(4) b by (simp_all add: no_wrap)
  have "block_index_for_offset (hp_blocks h) (hp_block_count h) (bk_offset b) = Some (length us)"
    unfolding block_index_for_offset_def heap_table_def [symmetric] xs
  proof (rule first_index_SomeI)
    fix j assume "j < length us"
    then show "bk_offset ((us @ b # vs) ! j) \<noteq> bk_offset b"
      using tiles_offset_less(1) [OF tiles, of "us ! j"] by (simp add: nth_append)
  qed simp_all
  moreover note at = nth_prefix [OF xs(1) [unfolded heap_table_def]]
  let ?b = "b\<lparr>bk_used := False\<rparr>"
  obtain blocks count where merge: "merge_free_neighbours ((hp_blocks h)[length us := ?b]) (hp_block_count h) (length us) = (blocks, count)"
    by fastforce
  ultimately have h': "s = HEAP_STATUS_OK" "h' = refresh_state (h\<lparr>hp_blocks := blocks, hp_block_count := count\<rparr>)"
    using call D(1) b addr xs(2) at(1) by (auto simp: heap_free_def)
  have "tiles 0 (us @ ?b # vs) (committed_of h)" using tiles by (simp add: tiles_append)
  from merge_prefix [OF this _ _ take_update [OF xs(1) [unfolded heap_table_def]] _ merge]
  have M: "take count blocks = give_back us b vs" "count \<le> hp_block_count h" "length blocks = 256"
    using D(2-4) by (simp_all add: give_back_def)
  have "tiling 16 (committed_of h) (take count blocks)"
    unfolding M(1) using tiling_give_back(1) D(7) xs by simp
  from heap_ok_table [OF ok M(3) _ this h'(2)] M D(3) h'(1)
  show "s = HEAP_STATUS_OK" "heap_ok h'" "heap_counted h'" "heap_table h' = give_back us b vs" "committed_of h' = committed_of h" by simp_all
qed

lemma heap_free_refused:
  assumes ok: "heap_ok h" and free: "\<forall>n. (p, n) \<notin> heap_live h" and call: "heap_free p h = (s, h')"
  shows "s \<noteq> HEAP_STATUS_OK" "h' = h"
proof -
  note D = heap_okD [OF ok]
  have "s \<noteq> HEAP_STATUS_OK \<and> h' = h"
  proof (cases "HEAP_BASE \<le> p \<and> p < HEAP_BASE + committed_of h")
    case False
    have "add64 HEAP_BASE (committed_of h) = HEAP_BASE + committed_of h" using D(4) by (simp add: no_wrap)
    then show ?thesis using call D(1) False by (auto simp: heap_free_def split: if_splits)
  next
    case True
    then have p: "sub64 p HEAP_BASE = p - HEAP_BASE" "add64 HEAP_BASE (committed_of h) = HEAP_BASE + committed_of h"
      using D(4) by (simp_all add: no_wrap)
    have "\<not> bk_used (hp_blocks h ! i)"
      if i: "block_index_for_offset (hp_blocks h) (hp_block_count h) (p - HEAP_BASE) = Some i" for i
    proof
      assume used: "bk_used (hp_blocks h ! i)"
      note F = first_index_SomeD [OF i [unfolded block_index_for_offset_def, folded heap_table_def]]
      let ?b = "heap_table h ! i"
      have "?b = hp_blocks h ! i" using F by (simp add: heap_table_def)
      then have "(bk_offset ?b, bk_size ?b) \<in> live_spans (heap_table h)" using F used nth_mem [of i "heap_table h"] unfolding live_spans_def by (intro CollectI exI [of _ ?b]) simp
      then have "(HEAP_BASE + bk_offset ?b, bk_size ?b) \<in> heap_live h" by (force simp: heap_live_def)
      then show False using free F True by simp
    qed
    then show ?thesis using call D(1) True p by (auto simp: heap_free_def split: option.splits if_splits)
  qed
  then show "s \<noteq> HEAP_STATUS_OK" "h' = h" by simp_all
qed


section \<open>Initialisation and verification\<close>

lemma guards_absent_iff:
  "ps_active p \<Longrightarrow> guards_absent p \<longleftrightarrow>
    leaf_of (ps_store p) HEAP_GUARD_BELOW = None \<and> leaf_of (ps_store p) HEAP_GUARD_ABOVE = None"
  by (auto simp: guards_absent_def paging_translate_def translate_address_def leaf_of_def canonical_iff split: option.splits)

lemma heap_initialize_ok:
  assumes "paging_ok (hp_paging h)" "length (hp_blocks h) = 256" "heap_initialize interrupts_enabled h = (HEAP_STATUS_OK, h')"
  shows "heap_ok h'" "heap_counted h'" "heap_table h' = []"
proof -
  have "ps_active (hp_paging h)" using assms(1) by (simp add: paging_ok_def)
  moreover have "guards_absent (hp_paging h)" and h': "h' = refresh_state (h\<lparr>hp_block_count := 0, hp_state := (hp_state h)\<lparr>hs_base_address := HEAP_BASE,
      hs_size := HEAP_SIZE, hs_committed_bytes := 0, hs_mapped_pages := 0, hs_active := True\<rparr>\<rparr>)"
    using assms(3) by (auto simp: heap_initialize_def split: if_splits)
  ultimately show "heap_ok h'" "heap_counted h'" "heap_table h' = []"
    using assms(1,2) unfolding h'
    by (simp_all add: guards_absent_iff refresh_state_def heap_ok_def heap_counted_def heap_table_def tiling_def backed_def Let_def)
qed

lemma heap_page_ok:
  assumes "heap_ok h" "k < committed_of h div 4096"
  shows "heap_page_ok (hp_paging h) (k * 4096)"
proof -
  note D = heap_okD [OF assms(1)]
  have k: "k < 4096" using assms(2) D(4) by linarith
  obtain frame where "backed (heap_store h) {..<committed_of h div 4096} frame" using D(8) by blast
  then have f: "foreign (heap_store h) (frame k)" "leaf_of (heap_store h) (heap_page k) = Some (page_leaf (frame k * 4096) PAGING_WRITE)"
    using assms(2) by (auto simp: backed_def)
  have "add64 HEAP_BASE (k * 4096) = heap_page k" using k by (simp add: no_wrap)
  then show ?thesis
    using heap_page_translation [OF D(9) f k] unfolding heap_page_ok_def by (simp add: page_translation_def)
qed

lemma heap_verify_ok:
  assumes "heap_ok h"
  shows "heap_verify h = (if heap_counted h then HEAP_STATUS_OK else HEAP_STATUS_VALIDATION_FAILURE)"
proof -
  note D = heap_okD [OF assms]
  have "validate_table (hp_blocks h) (hp_block_count h) (committed_of h)"
  proof (cases "hp_block_count h = 0")
    case True
    then show ?thesis using D(7) by (simp add: validate_table_def tiling_def heap_table_def)
  next
    case False
    have "validate_blocks None 0 (heap_table h) (committed_of h)"
      using D(4,7) by (intro validate_blocks_tiles) (auto simp: tiling_def)
    then show ?thesis using False D(3) by (simp add: validate_table_def heap_table_def)
  qed
  moreover have "guards_absent (hp_paging h)" using D(9-11) by (simp add: guards_absent_iff paging_ok_def)
  moreover have "list_all (heap_page_ok (hp_paging h)) (page_offsets (committed_of h) 4096)"
  proof -
    obtain m where m: "committed_of h = m * 4096" using D(5) by (metis dvd_def mult.commute)
    then show ?thesis using heap_page_ok [OF assms] unfolding m page_offsets_pages by (auto simp: list_all_iff)
  qed
  moreover have "fold count_block (take (hp_block_count h) (hp_blocks h)) (0, 0) = (used_bytes (heap_table h), count_if bk_used (heap_table h))"
    using refresh_counts(2) [OF D(7,4,3)] by (simp add: heap_table_def)
  ultimately show ?thesis
    using D(1,4-6) by (auto simp: heap_verify_def heap_counted_def Let_def mod_eq_0_iff_dvd)
qed

section \<open>The heap as an allocator\<close>

definition heap_take_call :: "nat \<Rightarrow> heap_system \<Rightarrow> nat option \<times> heap_system" where
  "heap_take_call bytes h = (case heap_allocate bytes (Some 0) h of (s, p, h') \<Rightarrow> (if s = HEAP_STATUS_OK then p else None, h'))"

definition heap_give_call :: "nat \<Rightarrow> heap_system \<Rightarrow> bool \<times> heap_system" where
  "heap_give_call p h = (case heap_free p h of (s, h') \<Rightarrow> (s = HEAP_STATUS_OK, h'))"

definition heap_fits :: "nat \<Rightarrow> nat \<Rightarrow> nat \<Rightarrow> bool" where
  "heap_fits bytes p n \<longleftrightarrow> 0 < bytes \<and> bytes \<le> n \<and> n < bytes + 16 \<and> 16 dvd p \<and> HEAP_BASE \<le> p \<and> p + n \<le> HEAP_BASE + HEAP_SIZE"

definition heap_grew :: "heap_system \<Rightarrow> heap_system \<Rightarrow> bool" where
  "heap_grew h h' \<longleftrightarrow> committed_of h' \<noteq> committed_of h"

lemma heap_live_split:
  assumes "(p, n) \<in> heap_live h"
  obtains us b vs where "heap_table h = us @ b # vs" "bk_used b" "p = HEAP_BASE + bk_offset b" "n = bk_size b"
  using assms by (auto simp: heap_live_def live_spans_def in_set_conv_decomp)

lemma heap_take_taken:
  assumes "heap_ok h" "heap_take_call bytes h = (Some p, h')"
  shows "heap_ok h' \<and> heap_counted h' \<and>
    (\<exists>n. heap_fits bytes p n \<and> heap_live h' = insert (p, n) (heap_live h) \<and> (\<forall>m. (p, m) \<notin> heap_live h))"
proof -
  obtain s q where call: "heap_allocate bytes (Some 0) h = (s, q, h')" "s = HEAP_STATUS_OK" "q = Some p"
    using assms(2) by (auto simp: heap_take_call_def split: prod.splits if_splits)
  from assms(1) call(1) show ?thesis
  proof (cases rule: heap_allocate_cases)
    case (taken us b vs)
    let ?n = "align_up bytes 16"
    note B = request_bounds [OF taken(10,11)] and D = heap_okD [OF taken(3)]
    have n: "0 < ?n" "0 + ?n \<le> bk_size b" "16 dvd (0 :: nat)" using B(2) taken(8,10) by simp_all
    note C = tiling_carve [OF taken(6,7) n B(1)]
    have p: "p = HEAP_BASE + bk_offset b" using taken(2) call(3) by simp
    have "16 dvd bk_offset b" "bk_offset b + bk_size b \<le> committed_of h'"
      using taken(6) tiles_aligned [of 0 "us @ b # vs" "committed_of h'" 16 b] tiles_member [of 0 "us @ b # vs" "committed_of h'" b]
      by (auto simp: tiling_def)
    moreover have "16 dvd HEAP_BASE" by simp
    ultimately have fits: "heap_fits bytes p ?n"
      using B D(4) n taken(10) unfolding heap_fits_def p by (auto intro: dvd_add simp del: dvd_add_right_iff)
    have live: "heap_live h' = insert (p, ?n) (heap_live h)"
      using C(2) taken(5,9) p by (simp add: heap_live_def)
    have "(p, m) \<notin> heap_live h" for m
      using C(5) [of m] unfolding taken(9) p by (auto simp: heap_live_def)
    then show ?thesis using taken(3,4) fits live by metis
  next
    case refused
    then show ?thesis using call(2) by simp
  qed
qed

lemma heap_take_refused:
  assumes "heap_ok h" "heap_take_call bytes h = (None, h')"
  shows "heap_ok h' \<and> heap_live h' = heap_live h"
proof -
  obtain s q where call: "heap_allocate bytes (Some 0) h = (s, q, h')"
    using assms(2) by (auto simp: heap_take_call_def split: prod.splits)
  from assms(1) call show ?thesis
  proof (cases rule: heap_allocate_cases)
    case refused
    then show ?thesis by (simp add: heap_live_def)
  next
    case (taken us b vs)
    then show ?thesis using assms(2) call by (simp add: heap_take_call_def)
  qed
qed

lemma heap_give_given:
  assumes "heap_ok h" "(p, n) \<in> heap_live h"
  shows "\<exists>h'. heap_give_call p h = (True, h') \<and> heap_ok h' \<and> heap_counted h' \<and> heap_live h' = heap_live h - {(p, n)}"
proof -
  obtain us b vs where b: "heap_table h = us @ b # vs" "bk_used b" "p = HEAP_BASE + bk_offset b" "n = bk_size b"
    using assms(2) by (rule heap_live_split)
  obtain s h' where call: "heap_free p h = (s, h')" by fastforce
  note F = heap_free_used [OF assms(1) b(1,2) call [unfolded b(3)]]
  have "live_spans (heap_table h') = live_spans (heap_table h) - {(bk_offset b, bk_size b)}"
    unfolding F(4) b(1) using heap_okD(7) [OF assms(1)] b(1,2) by (intro tiling_give_back(2)) auto
  moreover have "inj (map_prod (\<lambda>offset. HEAP_BASE + offset) (id :: nat \<Rightarrow> nat))" by (rule injI) auto
  ultimately have "heap_live h' = heap_live h - {(p, n)}"
    unfolding heap_live_def b(3,4) by (simp add: image_set_diff)
  then show ?thesis using F call by (simp add: heap_give_call_def)
qed

interpretation hp: restoring_allocator heap_ok heap_live heap_fits heap_take_call heap_give_call heap_table heap_grew
proof (unfold_locales, goal_cases)
  case (1 s p n q m)
  obtain p' q' where "p = HEAP_BASE + p'" "q = HEAP_BASE + q'" "(p', n) \<in> live_spans (heap_table s)" "(q', m) \<in> live_spans (heap_table s)"
    using 1(2,3) by (auto simp: heap_live_def)
  then show ?case using live_disjoint heap_okD(7) [OF 1(1)] by (fastforce simp: tiling_def)
next
  case (2 s p n)
  then show ?case using heap_okD(7) [OF 2(1)] live_bounds by (fastforce simp: heap_live_def tiling_def)
next
  case (3 s r p s')
  then show ?case using heap_take_taken by blast
next
  case (4 s r s')
  then show ?case using heap_take_refused by blast
next
  case (5 s p n)
  then show ?case using heap_give_given by blast
next
  case (6 s p)
  obtain st s' where call: "heap_free p s = (st, s')" by fastforce
  show ?case using heap_free_refused [OF 6 call] 6(1) call by (simp add: heap_give_call_def)
next
  case (7 s r p s1 s2 s3)
  obtain st q where call: "heap_allocate r (Some 0) s = (st, q, s1)" "st = HEAP_STATUS_OK" "q = Some p"
    using 7(2) by (auto simp: heap_take_call_def split: prod.splits if_splits)
  from 7(1) call(1) show ?case
  proof (cases rule: heap_allocate_cases)
    case (taken us b vs)
    have table: "us @ b # vs = heap_table s" using taken(12) 7(3) by (simp add: heap_grew_def)
    have p: "p = HEAP_BASE + bk_offset b" using taken(2) call(3) by simp
    have "\<exists>n. (p, n) \<in> heap_live s2"
    proof (rule ccontr)
      assume "\<not> (\<exists>n. (p, n) \<in> heap_live s2)"
      then show False using heap_free_refused(1) [OF 7(4), of p] 7(6) by (auto simp: heap_give_call_def split: prod.splits)
    qed
    then obtain us' c vs' where c: "heap_table s2 = us' @ c # vs'" "bk_used c" "p = HEAP_BASE + bk_offset c"
      using heap_live_split by metis
    have "heap_free p s2 = (fst (heap_free p s2), s3)" using 7(6) by (auto simp: heap_give_call_def split: prod.splits)
    note F = heap_free_used(4) [OF 7(4) c(1,2) this [unfolded c(3)]]
    have "0 < align_up r 16" using request_bounds(2) [OF taken(10,11)] taken(10) by simp
    then have "give_back us' c vs' = us @ b # vs"
      using taken(5-8) c 7(5) heap_okD(7) [OF taken(3)] p
      by (intro carve_give_back [where limit = "committed_of s1" and pad = 0 and len = "align_up r 16"]) (simp_all add: tiling_def)
    then show ?thesis using F table by simp
  qed (use call in simp)
next
  case (8 s s')
  then show ?case by (simp add: heap_live_def)
qed

end
