(* ===== verification/Heap_Guarantees.thy ===== *)
theory Heap_Guarantees
  imports Heap_Runs
begin

text \<open>
  The guarantees of the heap over sequences of calls, and when an allocation succeeds.
\<close>

lemma heap_address:
  assumes "HEAP_BASE \<le> va"
  shows "va = HEAP_BASE + (va - HEAP_BASE) div 4096 * 4096 + va mod 4096"
proof -
  define w where "w = va - HEAP_BASE"
  have "va = HEAP_BASE + w" using assms by (simp add: w_def)
  moreover have "(HEAP_BASE + w) mod 4096 = w mod 4096" using mod_add_left_eq [of HEAP_BASE 4096 w] by simp
  ultimately show ?thesis unfolding w_def [symmetric] by simp
qed

section \<open>Progress\<close>

text \<open>A store with frames for \<open>n\<close> more pages and their tables, and a registry with room for them.\<close>

definition room_for :: "nat \<Rightarrow> paging_system \<Rightarrow> bool" where
  "room_for n p \<longleftrightarrow> 4 * n \<le> free_frames (ps_store p) \<and> \<not> failure_armed (ps_store p) \<and>
     length (ps_intents p) + n \<le> PAGING_SUPERVISOR_INTENT_CAPACITY"

lemma commit_page_progress:
  assumes ok: "paging_ok p" and j: "j < 4096" and room: "room_for (Suc n) p"
    and none: "\<And>va. address_is_canonical va \<Longrightarrow> in_heap_pages j (Suc j) va \<Longrightarrow> leaf_of (ps_store p) va = None"
  obtains a F p' where "frame_allocate (Some 0) (frames_of p) = (FRAME_STATUS_OK, Some a, F)"
    "paging_map (heap_page j) a 4096 PAGING_WRITE (set_frames F p) = (PAGING_STATUS_OK, p')" "room_for n p'"
proof -
  have frames: "frames_ok (frames_of p)" "fa_initialized (frames_of p)" using ok by (simp_all add: paging_ok_def hierarchy_ok_def)
  obtain a F where F: "frame_allocate (Some 0) (frames_of p) = (FRAME_STATUS_OK, Some a, F)"
    "fs_free_frames (fa_stats F) = free_frames (ps_store p) - 1"
    using frame_allocate_free [OF frames, of 0] room by (auto simp: room_for_def)
  obtain f where f: "Some a = Some (f * 4096)" "f < FRAME_COUNT" "paging_ok (set_frames F p)"
    using ok F(1) by (rule frames_allocated)
  let ?p = "set_frames F p"
  have "a AND (4096 - 1) = 0" unfolding aligned_iff using f(1) by simp
  then have "validate_physical_range a 4096 4096 = PAGING_STATUS_OK"
    using f(1,2) by (simp add: validate_physical_range_def PAGE_PHYSICAL_LIMIT_def FRAME_COUNT_eq UINT64_MAX_def)
  moreover have "4 \<le> free_frames (ps_store p)" using room by (simp add: room_for_def)
  then have "3 * (4096 div 4096) \<le> free_frames (ps_store ?p)" using F(2) by simp
  moreover have "\<not> failure_armed (ps_store ?p)" "hierarchy_ok (ps_store ?p)"
    using room f(3) by (simp_all add: room_for_def failure_armed_def set_frames_def paging_ok_def)
  ultimately have "\<exists>st'. map_range (heap_page j) a 4096 PAGING_WRITE 1 (ps_store ?p) = (PAGING_STATUS_OK, st') \<and>
      free_frames (ps_store ?p) \<le> free_frames st' + 3 * (4096 div 4096) \<and> \<not> failure_armed st'"
    by (intro map_range_progress heap_page_valid j write_permission_ok) (use none in simp_all)
  then obtain st' where st': "map_range (heap_page j) a 4096 PAGING_WRITE 1 (ps_store ?p) = (PAGING_STATUS_OK, st')"
    "free_frames (ps_store ?p) \<le> free_frames st' + 3" "\<not> failure_armed st'" by auto
  define p' where "p' = snd (paging_map (heap_page j) a 4096 PAGING_WRITE ?p)"
  have "ps_active p" "length (ps_intents p) \<noteq> PAGING_SUPERVISOR_INTENT_CAPACITY" using ok room by (simp_all add: paging_ok_def room_for_def)
  then have map: "paging_map (heap_page j) a 4096 PAGING_WRITE ?p = (PAGING_STATUS_OK, p')" "ps_store p' = st'"
    "length (ps_intents p') = Suc (length (ps_intents p))"
    using st'(1) by (simp_all add: p'_def paging_map_def supervisor_intent_add_def)
  have "room_for n p'" using st' F(2) room map(2,3) by (auto simp: room_for_def)
  then show thesis using that F(1) map(1) by blast
qed

lemma commit_offsets_progress:
  assumes "paging_ok (hp_paging h)" "backed (heap_store h) {..<j} frame" "j \<le> n" "n \<le> 4096" "room_for (n - j + k) (hp_paging h)"
    and "\<And>va. address_is_canonical va \<Longrightarrow> in_heap_pages j n va \<Longrightarrow> leaf_of (heap_store h) va = None"
  shows "\<exists>h'. commit_offsets m (map (\<lambda>k. k * 4096) [j ..< n]) h = (HEAP_STATUS_OK, h') \<and> room_for k (hp_paging h')"
  using assms
proof (induction "n - j" arbitrary: j h frame)
  case 0
  then show ?case by simp
next
  case (Suc d)
  have j: "j < n" "j < 4096" "n - j + k = Suc (n - Suc j + k)" using Suc.hyps(2) Suc.prems(4) by simp_all
  have none: "leaf_of (heap_store h) va = None" if "address_is_canonical va" "in_heap_pages j (Suc j) va" for va
    using Suc.prems(6) [OF that(1)] that(2) j(1) by simp
  obtain a F p' where page: "frame_allocate (Some 0) (frames_of (hp_paging h)) = (FRAME_STATUS_OK, Some a, F)"
    "paging_map (heap_page j) a 4096 PAGING_WRITE (set_frames F (hp_paging h)) = (PAGING_STATUS_OK, p')" "room_for (n - Suc j + k) p'"
    using commit_page_progress [OF Suc.prems(1) j(2) Suc.prems(5) [unfolded j(3)] none] by blast
  note C = commit_page_backed [OF Suc.prems(1,2) j(2) page(1,2) refl]
  then obtain frame' where C': "paging_ok p'" "backed (ps_store p') {..<Suc j} frame'" by auto
  define h1 where "h1 = h\<lparr>hp_paging := p', hp_state := (hp_state h)\<lparr>hs_mapped_pages := add64 (mapped_pages_of h) 1\<rparr>\<rparr>"
  have "\<exists>h'. commit_offsets m (map (\<lambda>k. k * 4096) [Suc j ..< n]) h1 = (HEAP_STATUS_OK, h') \<and> room_for k (hp_paging h')"
  proof (rule Suc.hyps(1))
    show "leaf_of (heap_store h1) va = None" if "address_is_canonical va" "in_heap_pages (Suc j) n va" for va
      using C that Suc.prems(6) [OF that(1)] by (auto simp: h1_def)
  qed (use Suc.hyps(2) Suc.prems(4) C' page(3) j in \<open>simp_all add: h1_def\<close>)
  moreover have "add64 HEAP_BASE (j * 4096) = heap_page j" using j(2) by (simp add: no_wrap)
  ultimately show ?case using page(1,2) j(1) by (simp add: upt_conv_Cons Let_def h1_def)
qed

lemma commit_pages_progress:
  assumes "heap_ok h" "4096 dvd n" "committed_of h + n \<le> 0x1000000" "room_for (n div 4096 + k) (hp_paging h)"
    and "\<And>va. address_is_canonical va \<Longrightarrow> HEAP_BASE + committed_of h \<le> va \<Longrightarrow> va < HEAP_BASE + committed_of h + n \<Longrightarrow>
      leaf_of (heap_store h) va = None"
  shows "\<exists>h'. commit_pages (committed_of h) (committed_of h + n) h = (HEAP_STATUS_OK, h') \<and> room_for k (hp_paging h')"
proof -
  note D = heap_okD [OF assms(1)]
  obtain m j where m: "committed_of h = m * 4096" "n = j * 4096" using D(5) assms(2) by (metis dvd_def mult.commute)
  obtain frame where bk: "backed (heap_store h) {..<m} frame" using D(8) m(1) by auto
  have "\<exists>h'. commit_offsets (m * 4096) (map (\<lambda>k. k * 4096) [m ..< m + j]) h = (HEAP_STATUS_OK, h') \<and> room_for k (hp_paging h')"
    by (rule commit_offsets_progress [OF D(9) bk]) (use assms(3-5) m in \<open>simp_all add: algebra_simps\<close>)
  moreover have "page_offsets n 4096 = map (\<lambda>i. i * 4096) [0 ..< j]" unfolding m(2) by (rule page_offsets_pages)
  moreover have "[m ..< m + j] = map (\<lambda>i. i + m) [0 ..< j]" by (simp add: map_add_upt add.commute)
  ultimately show ?thesis unfolding commit_pages_def m(1) by (simp add: comp_def algebra_simps)
qed


text \<open>The pages a request that fits no free block needs.\<close>

definition pages_needed :: "nat \<Rightarrow> heap_system \<Rightarrow> nat" where
  "pages_needed bytes h = align_up (align_up bytes 16 - trailing_bytes (heap_table h)) 4096 div 4096"

lemma grow_for_progress:
  assumes ok: "heap_ok h" and n: "0 < n" "n \<le> 0x1000000" "16 dvd n" and nofit: "find_fit (hp_blocks h) (hp_block_count h) n = None"
    and count: "hp_block_count h < 256" and pages: "k = align_up (n - trailing_bytes (heap_table h)) 4096 div 4096"
    and window: "committed_of h + k * 4096 \<le> 0x1000000" and room: "room_for k (hp_paging h)"
    and none: "\<And>va. address_is_canonical va \<Longrightarrow> HEAP_BASE + committed_of h \<le> va \<Longrightarrow> va < HEAP_BASE + committed_of h + k * 4096 \<Longrightarrow>
      leaf_of (heap_store h) va = None"
  obtains i h' where "grow_for n h = (Inr i, h')" "hp_block_count h' \<le> hp_block_count h + 1"
    "hp_block_count h' = (if heap_table h \<noteq> [] \<and> \<not> bk_used (last (heap_table h)) then hp_block_count h else hp_block_count h + 1)"
    "hs_block_count (hp_state h') = hs_block_count (hp_state h)"
proof -
  let ?g = "align_up (n - trailing_bytes (heap_table h)) 4096"
  have g: "?g = k * 4096" using growth_bounds(2) [OF ok n(1,2) nofit] pages by simp
  have "\<exists>h'. commit_pages (committed_of h) (committed_of h + ?g) h = (HEAP_STATUS_OK, h') \<and> room_for 0 (hp_paging h')"
    unfolding g by (rule commit_pages_progress [OF ok]) (use window room none in simp_all)
  then obtain h1 where commit: "commit_pages (committed_of h) (committed_of h + ?g) h = (HEAP_STATUS_OK, h1)" by blast
  have "4096 dvd ?g" "committed_of h + ?g \<le> 0x1000000" unfolding g using window by simp_all
  note C = commit_heap(1) [OF ok this commit]
  have "\<not> ?g > 0x1000000 - committed_of h" unfolding g using window by simp
  then show thesis
    using same_table_block_count [OF C] count commit grow_for_eq [OF ok n(1,2) nofit refl refl]
    by (cases "heap_table h \<noteq> [] \<and> \<not> bk_used (last (heap_table h))") (auto intro!: that simp: Let_def)
qed

lemma heap_split:
  assumes "heap_ok h" "heap_table h = us @ b # vs" "\<not> bk_used b" "0 < n" "n \<le> bk_size b" "16 dvd n"
    and "split_block (hp_blocks h) (hp_block_count h) (length us) n = (split, blocks, count)"
  shows "split = (bk_size b = n \<or> hp_block_count h < 256)"
proof -
  note D = heap_okD [OF assms(1)]
  have "bk_offset b + bk_size b \<le> committed_of h" "16 dvd bk_size b"
    using D(7) assms(2) tiles_member [of 0 "heap_table h" "committed_of h" b] by (auto simp: tiling_def)
  then have "16 dvd bk_size b" "bk_offset b + bk_size b < 2 ^ 64" using D(4) by simp_all
  from split_block_carve(1) [OF assms(2) [unfolded heap_table_def] D(2,3) assms(4-6) this(1) assms(3) this(2) assms(7)]
  show ?thesis .
qed

lemma grow_for_block_count:
  assumes ok: "heap_ok h" and n: "0 < n" "n \<le> 0x1000000" "find_fit (hp_blocks h) (hp_block_count h) n = None"
    and call: "grow_for n h = (r, h')"
  shows "hs_block_count (hp_state h') = hs_block_count (hp_state h)"
proof (cases "align_up (n - trailing_bytes (heap_table h)) 4096 > 0x1000000 - committed_of h")
  case True
  then show ?thesis using call grow_for_eq [OF ok n refl refl] by simp
next
  case False
  let ?g = "align_up (n - trailing_bytes (heap_table h)) 4096"
  obtain s h1 where commit: "commit_pages (committed_of h) (committed_of h + ?g) h = (s, h1)" by fastforce
  have "committed_of h + ?g \<le> 0x1000000" using False heap_okD(4) [OF ok] by simp
  from same_table_block_count [OF commit_heap(1) [OF ok growth_bounds(2) [OF ok n] this commit]]
  show ?thesis using call grow_for_eq [OF ok n refl refl] commit by (auto simp: Let_def split: if_splits)
qed

lemma heap_allocate_block_count:
  assumes ok: "heap_ok h" and call: "heap_allocate n (Some d) h = (s, p, h')" "s \<noteq> HEAP_STATUS_OK"
  shows "hs_block_count (hp_state h') = hs_block_count (hp_state h)"
proof (cases "0 < n \<and> n \<le> 0x1000000")
  case False
  then have "h' = h" using call heap_okD(1) [OF ok] by (auto simp: heap_allocate_def split: if_splits)
  then show ?thesis by simp
next
  case True
  then have B: "0 < align_up n 16" "align_up n 16 \<le> 0x1000000" using request_bounds [of n] by linarith+
  show ?thesis
    using call True grow_for_block_count [OF ok B]
    by (auto simp: heap_allocate_def Let_def split: if_splits sum.splits prod.splits option.splits)
qed

section \<open>Guarantees\<close>

lemma heap_take_call_OK:
  "heap_allocate n (Some d) h = (HEAP_STATUS_OK, p, h') \<Longrightarrow> heap_take_call n h = (p, h')"
proof -
  have "heap_allocate n (Some d) h = heap_allocate n (Some 0) h" by (simp add: heap_allocate_def)
  then show "heap_allocate n (Some d) h = (HEAP_STATUS_OK, p, h') \<Longrightarrow> heap_take_call n h = (p, h')"
    by (simp add: heap_take_call_def)
qed

text \<open>C36. Two blocks handed out never overlap while the first is not freed, whatever is allocated and freed in
  between; both are aligned to 16 bytes and lie in the window of the heap.\<close>

theorem heap_never_overlaps:
  assumes "heap_ok h" "heap_allocate n (Some d) h = (HEAP_STATUS_OK, Some p, h1)" "Give p \<notin> set calls"
    and "h2 = span_run heap_take_call heap_give_call calls h1" "heap_allocate m (Some d) h2 = (HEAP_STATUS_OK, Some q, h3)"
  shows "(p + n \<le> q \<or> q + m \<le> p) \<and> 16 dvd p \<and> 16 dvd q \<and>
    HEAP_BASE \<le> p \<and> p + n \<le> HEAP_BASE + HEAP_SIZE \<and> HEAP_BASE \<le> q \<and> q + m \<le> HEAP_BASE + HEAP_SIZE \<and> heap_ok h3"
proof -
  obtain i j where fits: "heap_fits n p i" "heap_fits m q j" "p + i \<le> q \<or> q + j \<le> p" "heap_ok h3"
    using assms(1) heap_take_call_OK [OF assms(2)] assms(3,4) heap_take_call_OK [OF assms(5)] by (rule hp.never_overlaps)
  then show ?thesis by (auto simp: heap_fits_def)
qed

text \<open>C37. Every byte of a block handed out is mapped writable and not executable, write-back; different
  bytes have different physical addresses, all in frames that hold no page table.\<close>

theorem heap_memory_backed:
  assumes "heap_ok h" "heap_allocate n (Some d) h = (HEAP_STATUS_OK, Some p, h')"
  shows "\<exists>physical. inj_on physical {p ..< p + n} \<and>
    (\<forall>va. p \<le> va \<longrightarrow> va < p + n \<longrightarrow>
      paging_translate va (Some e) (hp_paging h') = (PAGING_STATUS_OK, Some (page_translation (physical va) PAGING_WRITE)) \<and>
      foreign (ps_store (hp_paging h')) (physical va div 4096))"
proof -
  obtain m where m: "heap_ok h'" "heap_fits n p m" "(p, m) \<in> heap_live h'"
    using heap_take_taken [OF assms(1) heap_take_call_OK [OF assms(2)]] by blast
  note D = heap_okD [OF m(1)]
  obtain frame where bk: "backed (heap_store h') {..<committed_of h' div 4096} frame" using D(8) by blast
  have range: "HEAP_BASE \<le> p" "p + n \<le> HEAP_BASE + committed_of h'"
    using m(2,3) D(7) live_bounds [of 0 "heap_table h'" "committed_of h'"] by (fastforce simp: heap_live_def heap_fits_def tiling_def)+
  define page where "page va = (va - HEAP_BASE) div 4096" for va
  define physical where "physical va = frame (page va) * 4096 + va mod 4096" for va
  have page: "page va < committed_of h' div 4096" "page va < 4096" "in_heap_pages (page va) (Suc (page va)) va" if "p \<le> va" "va < p + n" for va
  proof -
    have "va - HEAP_BASE < committed_of h' div 4096 * 4096" using range that D(5) by simp
    then show k: "page va < committed_of h' div 4096" unfolding page_def by (simp add: div_less_iff_less_mult)
    then show "page va < 4096" using D(4) by linarith
    have "page va * 4096 \<le> va - HEAP_BASE" "va - HEAP_BASE < Suc (page va) * 4096" unfolding page_def by simp_all
    then show "in_heap_pages (page va) (Suc (page va)) va" using range(1) that(1) by linarith
  qed
  show ?thesis
  proof (intro exI [of _ physical] conjI inj_onI allI impI)
    fix va assume va: "p \<le> va" "va < p + n"
    have f: "foreign (heap_store h') (frame (page va))"
      "leaf_of (heap_store h') (heap_page (page va)) = Some (page_leaf (frame (page va) * 4096) PAGING_WRITE)"
      using bk page(1) [OF va] by (auto simp: backed_def)
    then show "foreign (heap_store h') (physical va div 4096)" by (simp add: physical_def)
    have "view (hp_paging h') va = (PAGING_STATUS_OK, page_translation (physical va) PAGING_WRITE)"
      using translate_page [OF _ heap_page_leaf(1) [OF page(2,3) [OF va]] _ foreign_bound [OF f(1)] write_permission_ok]
        heap_page_leaf(2) [OF page(2,3) [OF va]] f(2) D(9) by (simp add: physical_def paging_ok_def)
    then show "paging_translate va (Some e) (hp_paging h') = (PAGING_STATUS_OK, Some (page_translation (physical va) PAGING_WRITE))"
      using D(9) by (simp add: paging_translate_def paging_ok_def)
  next
    fix va vb assume v: "va \<in> {p ..< p + n}" "vb \<in> {p ..< p + n}" "physical va = physical vb"
    have "physical va div 4096 = frame (page va)" "physical va mod 4096 = va mod 4096" for va by (simp_all add: physical_def)
    then have same: "frame (page va) = frame (page vb)" "va mod 4096 = vb mod 4096" using v(3) by metis+
    then have "page va = page vb" using bk page(1) v by (simp add: backed_def inj_on_def)
    moreover note same(2)
    moreover have "va = HEAP_BASE + page va * 4096 + va mod 4096" "vb = HEAP_BASE + page vb * 4096 + vb mod 4096"
      unfolding page_def using v(1,2) range(1) by (auto intro!: heap_address)
    ultimately show "va = vb" by metis
  qed
qed


text \<open>C39. Blocks taken one after the other without growing the heap and freed in the opposite order leave the
  table of blocks exactly as it was, and every one of these calls to free succeeds.\<close>

theorem heap_free_restores:
  assumes "heap_ok h" "take_all heap_take_call heap_grew sizes h = Some (ps, h1)"
  shows "\<exists>h2. give_all heap_give_call ps h1 = (True, h2) \<and> heap_ok h2 \<and> heap_table h2 = heap_table h"
  using hp.take_give_all [OF assms hp.take_all_inv [OF assms] refl] .

text \<open>The states that calls lead to, with the statuses they return.\<close>

inductive heap_calls :: "heap_system \<Rightarrow> heap_status list \<Rightarrow> heap_system \<Rightarrow> bool" where
  start: "heap_calls h [] h"
| allocate: "heap_calls h statuses h1 \<Longrightarrow> heap_allocate n (Some d) h1 = (s, p, h2) \<Longrightarrow> heap_calls h (statuses @ [s]) h2"
| free: "heap_calls h statuses h1 \<Longrightarrow> heap_free p h1 = (s, h2) \<Longrightarrow> heap_calls h (statuses @ [s]) h2"

lemma heap_free_counted:
  assumes "heap_ok h" "heap_free p h = (s, h')"
  shows "heap_ok h'" "s = HEAP_STATUS_OK \<Longrightarrow> heap_counted h'" "s \<noteq> HEAP_STATUS_OK \<Longrightarrow> h' = h"
proof -
  have "heap_ok h' \<and> (s = HEAP_STATUS_OK \<longrightarrow> heap_counted h') \<and> (s \<noteq> HEAP_STATUS_OK \<longrightarrow> h' = h)"
  proof (cases "\<exists>n. (p, n) \<in> heap_live h")
    case True
    then obtain us b vs where b: "heap_table h = us @ b # vs" "bk_used b" "p = HEAP_BASE + bk_offset b"
      using heap_live_split by metis
    show ?thesis using heap_free_used [OF assms(1) b(1,2) assms(2) [unfolded b(3)]] by simp
  next
    case False
    then show ?thesis using heap_free_refused [OF assms(1) _ assms(2)] assms(1) by simp
  qed
  then show "heap_ok h'" "s = HEAP_STATUS_OK \<Longrightarrow> heap_counted h'" "s \<noteq> HEAP_STATUS_OK \<Longrightarrow> h' = h" by simp_all
qed

text \<open>The statuses returned since the last call that succeeded, latest first.\<close>

definition since_success :: "heap_status list \<Rightarrow> heap_status list" where
  "since_success statuses = takeWhile (\<lambda>s. s \<noteq> HEAP_STATUS_OK) (rev statuses)"

lemma since_success_snoc [simp]:
  "since_success (statuses @ [s]) = (if s = HEAP_STATUS_OK then [] else s # since_success statuses)"
  by (simp add: since_success_def)

lemma heap_calls_counted:
  "heap_calls h statuses h' \<Longrightarrow> heap_ok h \<Longrightarrow> heap_counted h \<Longrightarrow> heap_ok h' \<and>
    (HEAP_STATUS_OUT_OF_BLOCKS \<notin> set (since_success statuses) \<longrightarrow> heap_counted h')"
proof (induction rule: heap_calls.induct)
  case (allocate h statuses h1 n d s p h2)
  then have ok: "heap_ok h1" by simp
  from ok allocate.hyps(2) show ?case
  proof (cases rule: heap_allocate_cases)
    case refused
    then show ?thesis using allocate by auto
  next
    case (taken us b vs)
    then show ?thesis by simp
  qed
next
  case (free h statuses h1 p s h2)
  then show ?case using heap_free_counted [of h1 p s h2] by (cases "s = HEAP_STATUS_OK") auto
qed simp

text \<open>C38. From initialisation on, every sequence of calls keeps the heap well formed: its blocks tile the
  committed bytes, which are backed page by page. The heap's own check accepts it, unless a call was
  refused for want of table entries and no call has succeeded since.\<close>

theorem heap_calls_well_formed:
  assumes "paging_ok (hp_paging h0)" "length (hp_blocks h0) = HEAP_MAX_BLOCKS"
    and "heap_initialize interrupts_enabled h0 = (HEAP_STATUS_OK, h)" "heap_calls h statuses h'"
  shows "heap_ok h' \<and>
    (HEAP_STATUS_OUT_OF_BLOCKS \<notin> set (since_success statuses) \<longrightarrow> heap_verify h' = HEAP_STATUS_OK)"
proof -
  note I = heap_initialize_ok [OF assms(1-3)]
  show ?thesis using heap_calls_counted [OF assms(4) I(1,2)] heap_verify_ok [of h'] by auto
qed

text \<open>C40. A refusal for want of table entries after the heap has grown by a block leaves the reported block
  count behind the table, and the heap's own check fails until the next call that succeeds.\<close>

theorem heap_stale_block_count:
  assumes "heap_ok h" "heap_counted h" "heap_allocate n (Some d) h = (HEAP_STATUS_OUT_OF_BLOCKS, p, h')"
    and "hp_block_count h' \<noteq> hp_block_count h"
  shows "heap_ok h' \<and> heap_verify h' = HEAP_STATUS_VALIDATION_FAILURE"
proof -
  have "heap_ok h'" using assms(1,3) by (cases rule: heap_allocate_cases) simp_all
  moreover have "\<not> heap_counted h'"
    using heap_allocate_block_count [OF assms(1,3)] assms(2,4) by (simp add: heap_counted_def)
  ultimately show ?thesis using heap_verify_ok [of h'] by simp
qed

text \<open>An allocation succeeds whenever the window has room for the pages it needs, these are unmapped, two
  entries of the table are free, and the paging calls can get four frames per page and an entry in their
  registry.\<close>

theorem heap_allocate_progress:
  assumes "heap_ok h" "0 < n" "n \<le> HEAP_SIZE" "hp_block_count h + 2 \<le> HEAP_MAX_BLOCKS"
    and "committed_of h + pages_needed n h * 4096 \<le> HEAP_SIZE" "room_for (pages_needed n h) (hp_paging h)"
    and "\<And>va. HEAP_BASE + committed_of h \<le> va \<Longrightarrow> va < HEAP_BASE + HEAP_SIZE \<Longrightarrow>
      fst (paging_translate va (Some e) (hp_paging h)) = PAGING_STATUS_NOT_MAPPED"
  shows "fst (heap_allocate n (Some d) h) = HEAP_STATUS_OK"
proof -
  let ?n = "align_up n 16"
  note B = request_bounds [OF assms(2,3)] and D = heap_okD [OF assms(1)]
  have n: "0 < ?n" using assms(2) B(2) by simp
  have none: "leaf_of (heap_store h) va = None"
    if "HEAP_BASE + committed_of h \<le> va" "va < HEAP_BASE + committed_of h + pages_needed n h * 4096" for va
    using assms(7) [of va] that assms(5) D(9)
    by (auto simp: paging_translate_def paging_ok_def translate_address_def leaf_of_def canonical_iff split: option.splits if_splits)
  obtain r h1 where source: "(case find_fit (hp_blocks h) (hp_block_count h) ?n of Some index \<Rightarrow> (Inr index, h) | None \<Rightarrow> grow_for ?n h) = (r, h1)"
    by fastforce
  have count: "hp_block_count h1 \<le> hp_block_count h + 1" "\<exists>i. r = Inr i"
  proof (atomize(full), cases "find_fit (hp_blocks h) (hp_block_count h) ?n")
    case None
    obtain i h2 where "grow_for ?n h = (Inr i, h2)" "hp_block_count h2 \<le> hp_block_count h + 1"
      by (rule grow_for_progress [OF assms(1) n B(4,1) None _ pages_needed_def assms(5,6) none]) (use assms(4) in simp_all)
    then show "hp_block_count h1 \<le> hp_block_count h + 1 \<and> (\<exists>i. r = Inr i)" using source None by auto
  qed (use source in auto)
  from assms(1) n B(4,1) source show ?thesis
  proof (cases rule: heap_source)
    case (found us b vs)
    obtain split blocks c where split: "split_block (hp_blocks h1) (hp_block_count h1) (length us) ?n = (split, blocks, c)" using prod_cases3 by blast
    have "split" using heap_split [OF found(2-4) n found(5) B(1) split] count(1) assms(4) by simp
    then show ?thesis using split source found(1) D(1) assms(2,3) B(4) by (simp add: heap_allocate_def Let_def)
  qed (use count(2) in simp)
qed


section \<open>Witnesses\<close>

abbreviation zero_block :: block where
  "zero_block \<equiv> \<lparr>bk_offset = 0, bk_size = 0, bk_used = False\<rparr>"

definition demo_cold :: heap_system where
  "demo_cold = \<lparr>hp_blocks = replicate 256 zero_block, hp_block_count = 0,
     hp_state = \<lparr>hs_base_address = 0, hs_size = 0, hs_committed_bytes = 0, hs_allocated_bytes = 0, hs_block_count = 0,
       hs_live_allocations = 0, hs_mapped_pages = 0, hs_active = False\<rparr>,
     hp_paging = demo_paging\<rparr>"

definition demo_heap :: heap_system where
  "demo_heap = demo_cold\<lparr>hp_state := \<lparr>hs_base_address = HEAP_BASE, hs_size = HEAP_SIZE, hs_committed_bytes = 0,
     hs_allocated_bytes = 0, hs_block_count = 0, hs_live_allocations = 0, hs_mapped_pages = 0, hs_active = True\<rparr>\<rparr>"

lemma demo_heap_initialize: "heap_initialize False demo_cold = (HEAP_STATUS_OK, demo_heap)"
proof -
  have "guards_absent demo_paging" using demo_leaf by (simp add: guards_absent_iff demo_paging_def)
  then show ?thesis by (simp add: demo_heap_def heap_initialize_def demo_cold_def demo_paging_def refresh_state_def)
qed

lemma demo_heap_fields:
  "hp_blocks demo_heap = replicate 256 zero_block" "hp_block_count demo_heap = 0" "hp_paging demo_heap = demo_paging"
  "committed_of demo_heap = 0" "hs_active (hp_state demo_heap)"
  by (simp_all add: demo_heap_def demo_cold_def)

lemma demo_heap_ok: "heap_ok demo_heap" "heap_counted demo_heap" "heap_table demo_heap = []"
  using heap_initialize_ok [OF _ _ demo_heap_initialize] demo_paging_ok by (simp_all add: demo_cold_def)

lemma demo_room: "room_for 2 demo_paging"
  by (simp add: room_for_def demo_paging_def failure_armed_def PAGING_SUPERVISOR_INTENT_CAPACITY_def,
      simp add: demo_store_def take_frame_def demo_frames_def sub64_def FRAME_COUNT_eq)

lemma demo_align: "align_up 100 16 = 112" "align_up 112 4096 = 4096" "align_up 200 16 = 208" "align_up 16 16 = 16" "align_up 16 4096 = 4096"
  by (simp_all add: align_up_def add64_def sub64_def not64_def)

lemma demo_committed:
  obtains h where "commit_pages 0 4096 demo_heap = (HEAP_STATUS_OK, h)" "room_for 1 (hp_paging h)"
    "\<And>va. address_is_canonical va \<Longrightarrow> HEAP_BASE + 4096 \<le> va \<Longrightarrow> leaf_of (heap_store h) va = None"
    "hp_blocks h = replicate 256 zero_block" "hs_active (hp_state h)"
proof -
  have none: "leaf_of (heap_store demo_heap) va = None" for va using demo_leaf by (simp add: demo_heap_fields demo_paging_def)
  have "\<exists>h. commit_pages (committed_of demo_heap) (committed_of demo_heap + 4096) demo_heap = (HEAP_STATUS_OK, h) \<and> room_for 1 (hp_paging h)"
    by (rule commit_pages_progress [OF demo_heap_ok(1)]) (use none demo_room [unfolded numeral_2_eq_2] in \<open>simp_all add: demo_heap_fields\<close>)
  then obtain h where h: "commit_pages 0 4096 demo_heap = (HEAP_STATUS_OK, h)" "room_for 1 (hp_paging h)" by (auto simp: demo_heap_fields)
  have "commit_pages (0 * 4096) (1 * 4096) demo_heap = (HEAP_STATUS_OK, h)" using h(1) by simp
  note C = commit_pages_backed [OF heap_okD(9) [OF demo_heap_ok(1)] _ _ _ _ this]
  have bk: "backed (heap_store demo_heap) {..<0} id" "mapped_pages_of demo_heap = 0"
    using heap_okD(6) [OF demo_heap_ok(1)] by (simp_all add: backed_def demo_heap_fields)
  have "leaf_of (heap_store h) va = None" if "address_is_canonical va" "HEAP_BASE + 4096 \<le> va" for va
    using C(5) [OF bk(1) _ _ bk(2) that(1)] that(2) none by simp
  moreover have "same_table demo_heap h" using C(2) [OF bk(1) _ _ bk(2)] by simp
  then have "hp_blocks h = replicate 256 zero_block" "hp_state h = (hp_state demo_heap)\<lparr>hs_mapped_pages := mapped_pages_of h\<rparr>"
    by (simp_all only: same_table_def demo_heap_fields)
  moreover from arg_cong [OF this(2), of hs_active] have "hs_active (hp_state h)" by (simp add: demo_heap_fields)
  ultimately show thesis using that h by blast
qed


text \<open>The heap after 100 bytes have been taken from it: one page, a block of 112 bytes and a free rest.\<close>

definition demo_used :: heap_system where
  "demo_used = snd (snd (heap_allocate 100 (Some 0) demo_heap))"

lemma demo_used:
  "heap_allocate 100 (Some 0) demo_heap = (HEAP_STATUS_OK, Some 0x400000000, demo_used)"
  "hp_block_count demo_used = 2" "committed_of demo_used = 4096" "hs_active (hp_state demo_used)"
  "hp_blocks demo_used = \<lparr>bk_offset = 0, bk_size = 112, bk_used = True\<rparr> # \<lparr>bk_offset = 112, bk_size = 3984, bk_used = False\<rparr> #
     replicate 254 zero_block"
  "room_for 1 (hp_paging demo_used)"
  "address_is_canonical va \<Longrightarrow> HEAP_BASE + 4096 \<le> va \<Longrightarrow> leaf_of (heap_store demo_used) va = None"
proof -
  obtain h where h: "commit_pages 0 4096 demo_heap = (HEAP_STATUS_OK, h)" "room_for 1 (hp_paging h)"
    "\<And>va. address_is_canonical va \<Longrightarrow> HEAP_BASE + 4096 \<le> va \<Longrightarrow> leaf_of (heap_store h) va = None"
    "hp_blocks h = replicate 256 zero_block" "hs_active (hp_state h)" by (rule demo_committed) blast
  have fit: "find_fit (hp_blocks demo_heap) (hp_block_count demo_heap) 112 = None" by (simp add: find_fit_def demo_heap_fields)
  have "(256 :: nat) = Suc (Suc 254)" by simp
  then have blocks: "hp_blocks demo_heap = zero_block # zero_block # replicate 254 zero_block"
    unfolding demo_heap_fields by (simp only: replicate_Suc)
  have "trailing_bytes (heap_table demo_heap) = 0" by (simp add: trailing_bytes_def demo_heap_ok(3))
  then have grow: "grow_for 112 demo_heap = (Inr 0,
      h\<lparr>hp_blocks := \<lparr>bk_offset = 0, bk_size = 4096, bk_used = False\<rparr> # zero_block # replicate 254 zero_block,
        hp_block_count := 1, hp_state := (hp_state h)\<lparr>hs_committed_bytes := 4096\<rparr>\<rparr>)"
    using grow_for_eq [OF demo_heap_ok(1) _ _ fit refl refl] h(1)
    by (simp add: demo_heap_ok(3) demo_heap_fields(2-) demo_align blocks)
  have split: "split_block (\<lparr>bk_offset = 0, bk_size = 4096, bk_used = False\<rparr> # zero_block # replicate 254 zero_block) 1 0 112 =
    (True, \<lparr>bk_offset = 0, bk_size = 112, bk_used = True\<rparr> # \<lparr>bk_offset = 112, bk_size = 3984, bk_used = False\<rparr> #
      replicate 254 zero_block, 2)"
    by (simp add: split_block_def open_gap_def add64_def sub64_def Let_def)
  have "heap_allocate 100 (Some 0) demo_heap = (HEAP_STATUS_OK, Some 0x400000000, refresh_state
      (h\<lparr>hp_state := (hp_state h)\<lparr>hs_committed_bytes := 4096\<rparr>,
         hp_blocks := \<lparr>bk_offset = 0, bk_size = 112, bk_used = True\<rparr> # \<lparr>bk_offset = 112, bk_size = 3984, bk_used = False\<rparr> #
          replicate 254 zero_block, hp_block_count := 2\<rparr>))"
    using fit grow split demo_heap_fields(5) by (simp add: heap_allocate_def demo_align add64_def)
  then show "heap_allocate 100 (Some 0) demo_heap = (HEAP_STATUS_OK, Some 0x400000000, demo_used)"
    "hp_block_count demo_used = 2" "committed_of demo_used = 4096" "hs_active (hp_state demo_used)"
    "hp_blocks demo_used = \<lparr>bk_offset = 0, bk_size = 112, bk_used = True\<rparr> # \<lparr>bk_offset = 112, bk_size = 3984, bk_used = False\<rparr> #
       replicate 254 zero_block"
    "room_for 1 (hp_paging demo_used)"
    "address_is_canonical va \<Longrightarrow> HEAP_BASE + 4096 \<le> va \<Longrightarrow> leaf_of (heap_store demo_used) va = None"
    using h(2) h(3) [of va] h(5) by (simp_all add: demo_used_def refresh_state_def split_beta)
qed

lemma demo_used_ok: "heap_ok demo_used"
  using demo_heap_ok(1) demo_used(1) by (cases rule: heap_allocate_cases) simp_all

theorem heap_memory_backed_witness:
  "\<exists>a. paging_translate 0x400000063 (Some empty_translation) (hp_paging demo_used) =
     (PAGING_STATUS_OK, Some (page_translation a PAGING_WRITE))"
  using heap_memory_backed [OF demo_heap_ok(1) demo_used(1), of empty_translation] by force

definition demo_twice :: heap_system where
  "demo_twice = snd (snd (heap_allocate 200 (Some 0) demo_used))"

lemma demo_twice:
  "heap_allocate 200 (Some 0) demo_used = (HEAP_STATUS_OK, Some 0x400000070, demo_twice)" "\<not> heap_grew demo_used demo_twice"
proof -
  have "find_fit (hp_blocks demo_used) (hp_block_count demo_used) 208 = Some 1" by (simp add: find_fit_def demo_used(2,5))
  moreover have "split_block (hp_blocks demo_used) (hp_block_count demo_used) 1 208 = (True,
      \<lparr>bk_offset = 0, bk_size = 112, bk_used = True\<rparr> # \<lparr>bk_offset = 112, bk_size = 208, bk_used = True\<rparr> #
      \<lparr>bk_offset = 320, bk_size = 3776, bk_used = False\<rparr> # replicate 253 zero_block, 3)"
  proof -
    have "(254 :: nat) = Suc 253" by simp
    then have "replicate 254 zero_block = zero_block # replicate 253 zero_block" by (simp only: replicate_Suc)
    then show ?thesis by (simp add: demo_used(2,5) split_block_def open_gap_def add64_def sub64_def Let_def numeral_2_eq_2 [symmetric])
  qed
  ultimately show "heap_allocate 200 (Some 0) demo_used = (HEAP_STATUS_OK, Some 0x400000070, demo_twice)"
    "\<not> heap_grew demo_used demo_twice"
    using demo_used(4) by (simp_all add: demo_twice_def heap_allocate_def demo_align add64_def heap_grew_def refresh_state_def split_beta)
qed

theorem heap_never_overlaps_witness:
  "heap_allocate 100 (Some 0) demo_heap = (HEAP_STATUS_OK, Some 0x400000000, demo_used) \<and>
   heap_allocate 200 (Some 0) demo_used = (HEAP_STATUS_OK, Some 0x400000070, demo_twice) \<and> heap_ok demo_twice"
  using heap_never_overlaps [OF demo_heap_ok(1) demo_used(1), of "[]" demo_used 200 "0x400000070" demo_twice] demo_twice(1) demo_used(1)
  by (simp add: span_run_def)


theorem heap_free_restores_witness:
  "\<exists>h. give_all heap_give_call [0x400000070] demo_twice = (True, h) \<and> heap_table h = heap_table demo_used"
proof -
  have "take_all heap_take_call heap_grew [200] demo_used = Some ([0x400000070], demo_twice)"
    using demo_twice by (simp add: heap_take_call_def)
  from heap_free_restores [OF demo_used_ok this] show ?thesis by blast
qed

theorem heap_calls_well_formed_witness:
  "heap_calls demo_heap [HEAP_STATUS_OK, HEAP_STATUS_OK, HEAP_STATUS_BAD_POINTER] demo_twice \<and>
   heap_ok demo_twice \<and> heap_verify demo_twice = HEAP_STATUS_OK"
proof -
  have "heap_ok demo_twice" using demo_used_ok demo_twice(1) by (cases rule: heap_allocate_cases) simp_all
  then have bad: "heap_free 1 demo_twice = (HEAP_STATUS_BAD_POINTER, demo_twice)"
    using heap_okD(1) by (simp add: heap_free_def)
  have "heap_calls demo_heap ([] @ [HEAP_STATUS_OK]) demo_used" using heap_calls.start demo_used(1) by (rule heap_calls.allocate)
  then have "heap_calls demo_heap (([] @ [HEAP_STATUS_OK]) @ [HEAP_STATUS_OK]) demo_twice" using demo_twice(1) by (rule heap_calls.allocate)
  then have run: "heap_calls demo_heap ((([] @ [HEAP_STATUS_OK]) @ [HEAP_STATUS_OK]) @ [HEAP_STATUS_BAD_POINTER]) demo_twice"
    using bad by (rule heap_calls.free)
  from heap_calls_well_formed [OF _ _ demo_heap_initialize run] show ?thesis
    using run demo_paging_ok by (simp add: demo_cold_def since_success_def)
qed

theorem heap_allocate_progress_witness: "fst (heap_allocate 100 (Some 0) demo_heap) = HEAP_STATUS_OK"
proof (rule heap_allocate_progress [OF demo_heap_ok(1), where e = empty_translation])
  have pages: "pages_needed 100 demo_heap = 1" by (simp add: pages_needed_def demo_heap_ok(3) trailing_bytes_def demo_align)
  show "committed_of demo_heap + pages_needed 100 demo_heap * 4096 \<le> HEAP_SIZE" unfolding pages by (simp add: demo_heap_fields)
  show "room_for (pages_needed 100 demo_heap) (hp_paging demo_heap)"
    unfolding pages using demo_room by (simp add: demo_heap_fields room_for_def)
  show "fst (paging_translate va (Some empty_translation) (hp_paging demo_heap)) = PAGING_STATUS_NOT_MAPPED"
    if "va < HEAP_BASE + HEAP_SIZE" for va
    using that translate_none [OF demo_leaf, of va] by (simp add: demo_heap_fields paging_translate_def demo_paging_def canonical_iff)
qed (simp_all add: demo_heap_fields)

text \<open>A heap of one page with 255 blocks, all in use: growing it by a page leaves no entry for the rest.\<close>

definition demo_small :: "nat \<Rightarrow> block" where
  "demo_small i = \<lparr>bk_offset = 16 * i, bk_size = 16, bk_used = True\<rparr>"

definition demo_blocks :: "block list" where
  "demo_blocks = map demo_small [0 ..< 254] @ [\<lparr>bk_offset = 4064, bk_size = 32, bk_used = True\<rparr>]"

definition demo_full :: heap_system where
  "demo_full = refresh_state (demo_used\<lparr>hp_blocks := demo_blocks @ [zero_block], hp_block_count := 255\<rparr>)"

lemma coalesced_used: "list_all bk_used xs \<Longrightarrow> coalesced xs"
  by (induction xs rule: coalesced.induct) auto

lemma demo_small_tiles: "tiles 0 (map demo_small [0 ..< n]) (16 * n)"
  by (induction n) (simp_all add: tiles_append demo_small_def)

lemma demo_full:
  "heap_ok demo_full" "heap_counted demo_full" "heap_table demo_full = demo_blocks" "committed_of demo_full = 4096"
  "hp_blocks demo_full = demo_blocks @ [zero_block]" "hp_block_count demo_full = 255" "hp_paging demo_full = hp_paging demo_used"
proof -
  have len: "length demo_blocks = 255" by (simp add: demo_blocks_def)
  have "tiles 0 demo_blocks 4096"
    using demo_small_tiles [of 254] by (auto simp: demo_blocks_def tiles_append)
  moreover have "coalesced demo_blocks" "list_all (\<lambda>x. 16 dvd bk_size x) demo_blocks"
    by (auto intro!: coalesced_used simp: demo_blocks_def demo_small_def list_all_iff)
  ultimately have "tiling 16 (committed_of demo_used) (take 255 (demo_blocks @ [zero_block]))"
    using len demo_used(3) by (simp add: tiling_def)
  from heap_ok_table [OF demo_used_ok _ _ this demo_full_def] len demo_used(3)
  show "heap_ok demo_full" "heap_counted demo_full" "heap_table demo_full = demo_blocks" "committed_of demo_full = 4096" by simp_all
  show "hp_blocks demo_full = demo_blocks @ [zero_block]" "hp_block_count demo_full = 255" "hp_paging demo_full = hp_paging demo_used"
    by (simp_all add: demo_full_def refresh_state_def split_beta)
qed

lemma demo_full_refused:
  obtains h where "heap_allocate 16 (Some 0) demo_full = (HEAP_STATUS_OUT_OF_BLOCKS, Some 0, h)" "hp_block_count h = 256"
proof -
  have used: "list_all bk_used demo_blocks" by (auto simp: demo_blocks_def demo_small_def list_all_iff)
  have "demo_blocks \<noteq> []" by (simp add: demo_blocks_def)
  then have last: "bk_used (last demo_blocks)" using used by (simp add: list_all_iff)
  have fit: "find_fit (hp_blocks demo_full) (hp_block_count demo_full) 16 = None"
    unfolding find_fit_def heap_table_def [symmetric] demo_full(3) first_index_None_iff using used by (simp add: list_all_iff)
  have "\<exists>h. commit_pages (committed_of demo_full) (committed_of demo_full + 4096) demo_full = (HEAP_STATUS_OK, h) \<and> room_for 0 (hp_paging h)"
    by (rule commit_pages_progress [OF demo_full(1)])
      (use demo_used(6) demo_used(7) in \<open>simp_all add: demo_full(4,7)\<close>)
  then obtain h1 where h1: "commit_pages 4096 8192 demo_full = (HEAP_STATUS_OK, h1)" by (auto simp: demo_full(4))
  have "trailing_bytes (heap_table demo_full) = 0" using last by (simp add: trailing_bytes_def demo_full(3))
  then have grow: "grow_for 16 demo_full = (Inr 255,
      h1\<lparr>hp_blocks := (demo_blocks @ [zero_block])[255 := \<lparr>bk_offset = 4096, bk_size = 4096, bk_used = False\<rparr>],
        hp_block_count := 256, hp_state := (hp_state h1)\<lparr>hs_committed_bytes := 8192\<rparr>\<rparr>)"
    using grow_for_eq [OF demo_full(1) _ _ fit refl refl] h1 last
    by (simp add: demo_full demo_align)
  have "length demo_blocks = 255" by (simp add: demo_blocks_def)
  then have "fst (split_block ((demo_blocks @ [zero_block])[255 := \<lparr>bk_offset = 4096, bk_size = 4096, bk_used = False\<rparr>]) 256 255 16) = False"
    by (simp add: split_block_def sub64_def)
  then show thesis
    using that fit grow heap_okD(1) [OF demo_full(1)] by (auto simp: heap_allocate_def demo_align split_beta)
qed

theorem heap_stale_block_count_witness:
  "\<exists>h. heap_allocate 16 (Some 0) demo_full = (HEAP_STATUS_OUT_OF_BLOCKS, Some 0, h) \<and> heap_verify h = HEAP_STATUS_VALIDATION_FAILURE"
proof -
  obtain h where h: "heap_allocate 16 (Some 0) demo_full = (HEAP_STATUS_OUT_OF_BLOCKS, Some 0, h)" "hp_block_count h = 256"
    by (rule demo_full_refused)
  then show ?thesis using heap_stale_block_count [OF demo_full(1,2) h(1)] demo_full(6) by simp
qed

end
