(* ===== verification/Spec2Isabelle.thy ===== *)
theory Spec2Isabelle
  imports Vectors Handle_Runs Paging_Boot Heap_Guarantees
begin

text \<open>
  Verification library for RSD, an x86_64 kernel in C: the part of the kernel that owns its resources.

  \<^bold>\<open>The program and its parts.\<close> At boot the loader hands the kernel a block of tags, which
  \<open>src/kernel/multiboot2.c\<close> parses into the memory map and the framebuffer. From the memory map
  \<open>src/kernel/physical_memory.c\<close> decides which 4 KiB frames below 4 GiB it may hand out. Page tables live in
  such frames: \<open>src/kernel/paging.c\<close> builds an identity map of the first 4 GiB, with the sections of the image
  (\<open>linker.ld\<close>) and the windows of devices carved out of it, switches to it, and from then on maps, unmaps and
  protects ranges of it. \<open>src/kernel/heap.c\<close> is a client of both: it backs a window of virtual addresses page
  by page with frames it maps, and cuts it into blocks. Two more parts hand out numbered tokens guarded by
  generations: interrupt vectors (\<open>src/kernel/interrupt_vector.c\<close>) and the handles of a process
  (\<open>src/kernel/native_handle.c\<close>).

  \<^bold>\<open>Conventions.\<close> A struct is a record, an enum a datatype with the constructors of the source, the file's
  globals one record passed through every call. A pointer argument that may be null is an option; an output
  parameter is a component of the result. Every early return is a branch of the model with its status code.
  Values that are packed into bits are words of their width; addresses, sizes and counters are natural
  numbers, and the wrap-around of \<open>uint64_t\<close> is written out (\<open>add64\<close>, \<open>sub64\<close>, \<open>mul64\<close>, \<open>not64\<close> of
  \<open>Prelude\<close>), so that absence of overflow is proved where it matters (the rules \<open>no_wrap\<close>). Physical memory
  the loader wrote is a function from addresses to bytes; page tables are a function from table address and
  index to the entry.

  \<^bold>\<open>Theories.\<close>
  \<^item> \<open>Prelude\<close>: machine integers, alignment, searches and updates of lists, generations.
  \<^item> \<open>Generation_Tables\<close>: the locale \<open>generation_table\<close>, the contract of tables whose entries carry a
    generation. From it: a retired generation is not issued again by fewer than \<open>2 ^ 32 - 2\<close> operations.
    \<open>Vectors\<close> and \<open>Handle_Runs\<close> interpret it on the two tables of the kernel.
  \<^item> \<open>Vectors\<close> (\<open>interrupt_vector.c\<close>; state \<open>vector_tables\<close>): allocation and release of dynamic vectors. C1 the
    counters are exact over every run, C2 the lowest free vector is granted, C3 released tokens stay refused.
  \<^item> \<open>Handles\<close> (\<open>native_handle.c\<close>; state \<open>native_handle_table\<close>) and \<open>Handle_Runs\<close>: installing, resolving,
    duplicating and closing handles, one by one and all at once, with the close callback as a parameter that
    threads a context. C4 the reference counts and the census are exact over every run, C5 closed handles stay
    stale, C6 to C11 what closing, installing and duplicating do, report included.
  \<^item> \<open>Multiboot\<close> (\<open>multiboot2.c\<close>, \<open>boot.h\<close>): the parser, a terminating loop over tags. C12 it depends on no byte
    outside the block, C13 and C14 what an accepted memory map and framebuffer promise.
  \<^item> \<open>Frames\<close> (\<open>physical_memory.c\<close>; state \<open>frame_state\<close>) and \<open>Frame_Runs\<close>: the bitmaps, single frames and
    contiguous runs. \<open>pool_step\<close> is the abstract specification, a pool of free and owned frames; C15 every call
    refines it. C16 to C22: what may ever be handed out after boot, single ownership, initialisation,
    progress, first fit, round trip, statuses.
  \<^item> \<open>Paging_Entries\<close> (the entry format, the attribute table and the checks of \<open>paging.c\<close>): C23, C24.
  \<^item> \<open>Page_Tables\<close> (the walk, the range operations, translation and audit of \<open>paging.c\<close>; state \<open>paging_store\<close>),
    with \<open>Page_Walks\<close> (the tables form a tree; effect of writing, linking and unlinking on every leaf) and
    \<open>Page_Ranges\<close> (effect of the range operations on every leaf, and which pages are invalidated).
  \<^item> \<open>Paging\<close> (the public calls and the registry of supervisor mappings; state \<open>paging_system\<close>): C25 to C27 each
    call does exactly what it is asked for to the translations and the registry, or nothing; C28 no stale
    translation, C29 write or execute but not both, C30 the audit is exact, C31 round trip, C32 progress.
  \<^item> \<open>Device_Windows\<close> (the registry of device windows of \<open>paging.c\<close>): C33 independence of the order, C34 what an
    accepted registry promises.
  \<^item> \<open>Large_Pages\<close> (leaves of 2 MiB), \<open>Boot_Maps\<close> (the steps of \<open>paging_initialize\<close>; state \<open>paging_boot\<close>) and
    \<open>Paging_Boot\<close>: C35. The policy of the map (\<open>boot_policy\<close>) is stated over the symbols of the image and the
    windows, apart from the functions that compute it, under the layout the linker script asserts
    (\<open>linked_image\<close>). \<open>boot_ready\<close> says when paging comes up.
  \<^item> \<open>Block_Tables\<close> (the array of blocks of \<open>heap.c\<close>; the locales \<open>span_allocator\<close> and \<open>restoring_allocator\<close>, the
    contract of an allocator of disjoint spans), \<open>Heap\<close> (the calls of \<open>heap.c\<close>; state \<open>heap_system\<close>),
    \<open>Heap_Pages\<close> (the pages under the window), \<open>Heap_Runs\<close> (the invariant \<open>heap_ok\<close>, and the interpretation of
    both locales on the calls) and \<open>Heap_Guarantees\<close>: C36 blocks never overlap, C37 every byte is backed by
    memory of its own, C38 well-formedness over every sequence of calls, C39 freeing in reverse restores
    the table, C40 a refusal that leaves the reported count behind.

  \<^bold>\<open>Bounds.\<close> No model uses fuel. Loops over arrays and ranges are folds or structural recursion over the
  offsets the loop visits; walks recurse on the level; the tag loop of the parser is a \<open>function\<close> with a
  termination proof (every step advances the cursor or stops). The claims about reuse of tokens bound the
  number of operations by \<open>2 ^ 32 - 2\<close>, where generations come round; ranges to unmap or protect are at most
  \<open>2 ^ 63\<close> bytes, half the address space, beyond which the end check of the code accepts ranges with a hole.
  Mapping \<open>n\<close> pages needs at most \<open>3 * n\<close> free frames, and the identity map 6145: the root and three
  tables for each of its 2048 regions.

  \<^bold>\<open>Parameters.\<close> The interrupt flag, CPUID and the registers of the processor are records of the model
  (\<open>vector_env\<close>, \<open>cpu\<close>); what a register holds after a write is a field of \<open>cpu\<close>, because the code reads
  registers back. Symbols of the linker script are the record \<open>kernel_symbols\<close>.

  \<^bold>\<open>Not modelled.\<close> The address spaces of processes in \<open>paging.c\<close> and everything built on them (processes,
  threads, system calls), drivers and interrupt controllers (register protocols of devices), file systems,
  network, packages and user interface, the loaders in Rust, assembly, self-tests and status strings. The
  effect of cache write-back and of the TLB itself is represented only by the list of pages invalidated.
\<close>

end
